(* ===== verification/Prelude.thy ===== *)
theory Prelude
  imports Complex_Main "HOL-Library.Word"
begin

text \<open>
  Prelude of the mini-llmcache development: the exceptions the Python code can raise, the
  result type every fallible operation returns, bytes, Python slices, and the generic list
  and map lemmas the components share.

  A fallible operation on a state of type \<open>'s\<close> returns a pair of a result
  \<open>exn + 'a\<close> and the state it leaves behind.  The state is returned with an exception as
  well, because a Python handler that raises half way keeps the mutations made so far.
\<close>

subsection \<open>Exceptions and results\<close>

datatype exn =
    KeyError
  | ValueError
  | ZeroDivisionError
  | StructError
  | RuntimeError
  | AssertionError
  | OSError
  | IndexError
  | AttributeError
  | UnpicklingError
  | TypeError
  | TimeoutError

type_synonym 'a res = "exn + 'a"

text \<open>A byte of a \<open>bytes\<close> object or of the memory pool.\<close>

type_synonym byte = "8 word"

subsection \<open>Fact collections of the development\<close>

named_theorems op_defs \<open>definitions of the operations, for unfolding an operation in one go\<close>
named_theorems inv_intros \<open>preservation of an invariant by an operation\<close>

subsection \<open>Python slices with non-negative bounds\<close>

text \<open>\<open>xs[a:b]\<close> with \<open>0 \<le> a\<close>, \<open>0 \<le> b\<close>: clipped at both ends, empty when \<open>b \<le> a\<close>.\<close>

definition slice :: "nat \<Rightarrow> nat \<Rightarrow> 'a list \<Rightarrow> 'a list" where
  "slice a b xs = take (b - a) (drop a xs)"

lemma length_slice [simp]: "length (slice a b xs) = min b (length xs) - a"
  by (auto simp: slice_def min_def)

lemma slice_0 [simp]: "slice 0 b xs = take b xs"
  by (simp add: slice_def)

lemma slice_append: "a \<le> b \<Longrightarrow> b \<le> c \<Longrightarrow> slice a b xs @ slice b c xs = slice a c xs"
proof -
  assume "a \<le> b" and "b \<le> c"
  then obtain d e where "b = a + d" and "c = a + d + e"
    by (metis le_Suc_ex)
  then show ?thesis by (simp add: slice_def take_add add.commute)
qed

lemma slice_take: "b \<le> c \<Longrightarrow> slice a b (take c xs) = slice a b xs"
  by (simp add: slice_def drop_take min_def)

lemma set_slice: "set (slice a b xs) \<subseteq> set xs"
  unfolding slice_def by (meson set_drop_subset set_take_subset subset_trans)

subsection \<open>Overwriting a segment of a list\<close>

text \<open>\<open>mem[a : a + len(bs)] = bs\<close>, for a segment inside the list.\<close>

definition write_seg :: "nat \<Rightarrow> 'a list \<Rightarrow> 'a list \<Rightarrow> 'a list" where
  "write_seg a bs xs = take a xs @ bs @ drop (a + length bs) xs"

lemma length_write_seg [simp]:
  "a + length bs \<le> length xs \<Longrightarrow> length (write_seg a bs xs) = length xs"
  by (simp add: write_seg_def)

lemma slice_write_seg_same:
  "a + length bs \<le> length xs \<Longrightarrow> slice a (a + length bs) (write_seg a bs xs) = bs"
  by (simp add: slice_def write_seg_def)

lemma slice_write_seg_other:
  assumes "a + length bs \<le> length xs" and "d \<le> a \<or> a + length bs \<le> c"
  shows "slice c d (write_seg a bs xs) = slice c d xs"
proof (rule nth_equalityI)
  from assms(1) show "length (slice c d (write_seg a bs xs)) = length (slice c d xs)" by simp
next
  fix i assume i: "i < length (slice c d (write_seg a bs xs))"
  have "c \<le> length (write_seg a bs xs)"
    using i by (auto simp: slice_def)
  with i have "slice c d (write_seg a bs xs) ! i = write_seg a bs xs ! (c + i)"
    by (simp add: slice_def)
  also have "\<dots> = xs ! (c + i)"
    using i assms by (auto simp: write_seg_def nth_append min_def split: if_splits)
  finally have eq: "slice c d (write_seg a bs xs) ! i = xs ! (c + i)" .
  have "c \<le> length xs"
    using i assms(1) by (auto simp: slice_def)
  then have "xs ! (c + i) = slice c d xs ! i"
    using i assms(1) by (simp add: slice_def)
  with eq show "slice c d (write_seg a bs xs) ! i = slice c d xs ! i" by simp
qed

subsection \<open>Lists\<close>

text \<open>\<open>for x in xs: if not p(x): break; n += 1\<close> counts the longest prefix satisfying \<open>p\<close>.\<close>

fun count_prefix :: "('a \<Rightarrow> bool) \<Rightarrow> 'a list \<Rightarrow> nat" where
  "count_prefix p [] = 0"
| "count_prefix p (x # xs) = (if p x then Suc (count_prefix p xs) else 0)"

lemma count_prefix_takeWhile: "count_prefix p xs = length (takeWhile p xs)"
  by (induction xs) auto

lemma count_prefix_le [simp]: "count_prefix p xs \<le> length xs"
  by (simp add: count_prefix_takeWhile length_takeWhile_le)

lemma take_count_prefix: "take (count_prefix p xs) xs = takeWhile p xs"
  by (induction xs) auto

lemma count_prefix_holds: "x \<in> set (take (count_prefix p xs) xs) \<Longrightarrow> p x"
  by (auto simp: take_count_prefix dest: set_takeWhileD)

lemma count_prefix_stops:
  "count_prefix p xs < length xs \<Longrightarrow> \<not> p (xs ! count_prefix p xs)"
  by (simp add: count_prefix_takeWhile nth_length_takeWhile)

lemma count_prefix_cong: "(\<And>x. x \<in> set xs \<Longrightarrow> p x = q x) \<Longrightarrow> count_prefix p xs = count_prefix q xs"
  by (induction xs) auto

lemma count_prefix_maximal:
  "n \<le> length xs \<Longrightarrow> (\<And>x. x \<in> set (take n xs) \<Longrightarrow> p x) \<Longrightarrow> n \<le> count_prefix p xs"
proof (induction xs arbitrary: n)
  case Nil
  then show ?case by simp
next
  case (Cons x xs)
  show ?case
  proof (cases n)
    case 0
    then show ?thesis by simp
  next
    case (Suc m)
    with Cons.prems have "p x" and "\<And>y. y \<in> set (take m xs) \<Longrightarrow> p y" by auto
    with Cons.IH [of m] Cons.prems(1) Suc show ?thesis by simp
  qed
qed

lemma distinct_take_drop_disjoint: "distinct xs \<Longrightarrow> set (take n xs) \<inter> set (drop n xs) = {}"
  by (metis append_take_drop_id distinct_append)

lemma distinct_count_list: "distinct xs \<Longrightarrow> count_list xs x = (if x \<in> set xs then 1 else 0)"
  by (induction xs) auto

lemma Collect_insert_skip: "k \<in> S \<or> \<not> P k \<Longrightarrow> {j \<in> insert k S. P j} = {j \<in> S. P j}"
  by auto

lemma length_concat_uniform: "\<forall>x \<in> set xs. length x = n \<Longrightarrow> length (concat xs) = length xs * n"
  by (induction xs) auto

lemma concat_nth_uniform:
  "\<forall>x \<in> set xss. length x = n \<Longrightarrow> j < length xss \<Longrightarrow> b < n \<Longrightarrow> concat xss ! (j * n + b) = xss ! j ! b"
proof (induction xss arbitrary: j)
  case Nil
  then show ?case by simp
next
  case (Cons x xss)
  show ?case
  proof (cases j)
    case 0
    with Cons.prems show ?thesis by (simp add: nth_append)
  next
    case (Suc i)
    with Cons.prems have "concat (x # xss) ! (j * n + b) = concat xss ! (i * n + b)"
      by (simp add: nth_append)
    with Cons Suc show ?thesis by simp
  qed
qed

subsection \<open>Association lists\<close>

lemma map_of_rev_distinct: "distinct (map fst xs) \<Longrightarrow> map_of (rev xs) = map_of xs"
proof (induction xs)
  case Nil
  then show ?case by simp
next
  case (Cons x xs)
  then have "map_of xs (fst x) = None" by (simp add: map_of_eq_None_iff image_comp)
  with Cons show ?case by (auto simp: map_add_def fun_eq_iff split: option.splits)
qed

lemma map_of_rev_zip:
  "distinct xs \<Longrightarrow> length xs = length ys \<Longrightarrow> map_of (rev (zip xs ys)) = map_of (zip xs ys)"
  by (rule map_of_rev_distinct) simp

lemma dom_map_of_rev_zip [simp]:
  "length xs = length ys \<Longrightarrow> dom (map_of (rev (zip xs ys))) = set xs"
  by (simp add: dom_map_of_conv_image_fst rev_map flip: set_map)

subsection \<open>Ordered dictionaries used as ordered sets\<close>

text \<open>
  The keys of a Python \<open>dict\<close> in insertion order.  \<open>d[k] = None\<close> keeps the position of a
  key that is there and appends a new one; \<open>dict.fromkeys(xs)\<close> inserts the elements in turn.
\<close>

definition od_set :: "'k \<Rightarrow> 'k list \<Rightarrow> 'k list" where
  "od_set k order = (if k \<in> set order then order else order @ [k])"

definition od_fromkeys :: "'k list \<Rightarrow> 'k list" where
  "od_fromkeys keys = fold od_set keys []"

lemma fold_od_set: "distinct (acc @ keys) \<Longrightarrow> fold od_set keys acc = acc @ keys"
  by (induction keys arbitrary: acc) (auto simp: od_set_def)

lemma od_fromkeys_distinct [simp]: "distinct keys \<Longrightarrow> od_fromkeys keys = keys"
  by (simp add: od_fromkeys_def fold_od_set)

lemma set_fold_od_set: "set (fold od_set keys acc) = set acc \<union> set keys"
  by (induction keys arbitrary: acc) (auto simp: od_set_def)

lemma distinct_fold_od_set: "distinct acc \<Longrightarrow> distinct (fold od_set keys acc)"
  by (induction keys arbitrary: acc) (auto simp: od_set_def)

lemma set_od_fromkeys [simp]: "set (od_fromkeys keys) = set keys"
  by (simp add: od_fromkeys_def set_fold_od_set)

lemma distinct_od_fromkeys [simp]: "distinct (od_fromkeys keys)"
  by (simp add: od_fromkeys_def distinct_fold_od_set)

subsection \<open>\<open>range(start, stop, step)\<close> with a positive step\<close>

definition range_step :: "nat \<Rightarrow> nat \<Rightarrow> nat \<Rightarrow> nat list" where
  "range_step start stop step =
     map (\<lambda>j. start + j * step) [0..<(stop - start + (step - 1)) div step]"

lemma range_step_whole:
  "0 < c \<Longrightarrow> range_step 0 (n - n mod c) c = map (\<lambda>j. j * c) [0..<n div c]"
proof -
  assume c: "0 < c"
  have eq: "n - n mod c = n div c * c" by (simp add: minus_mod_eq_div_mult)
  have "(n div c * c + (c - 1)) div c = n div c + (c - 1) div c"
    using c by (metis add.commute div_mult_self1 less_numeral_extra(3))
  then have "(n - n mod c + (c - 1)) div c = n div c" using c eq by simp
  then show ?thesis by (simp add: range_step_def)
qed

end
