(* ===== verification/Memory.thy ===== *)
theory Memory
  imports Prelude
begin

text \<open>
  The L1 pool of \<open>mini_llmcache/l1/memory.py\<close>: \<open>PoolAllocator\<close> and the slices
  (\<open>MemoryObj\<close>) it hands out.  The pinned tensor is a list of bytes whose length is the
  capacity; its initial contents are uninitialised memory, an argument of the constructor.  A
  \<open>MemoryObj\<close> is the offset and the length of its slice: its \<open>byte_array\<close> is a view of
  the pool, so reading and writing an object goes through the pool.
\<close>

subsection \<open>State\<close>

record mem_obj =
  mo_offset :: nat
  mo_nbytes :: nat

definition MemoryObj :: "nat \<Rightarrow> nat \<Rightarrow> mem_obj" where
  "MemoryObj n off = \<lparr>mo_offset = off, mo_nbytes = n\<rparr>"

record pool =
  pool_mem :: "byte list"
  brk :: nat
  free_segments :: "nat \<rightharpoonup> nat list"
  used_bytes :: int

definition capacity :: "pool \<Rightarrow> nat" where
  "capacity p = length (pool_mem p)"

definition PoolAllocator :: "byte list \<Rightarrow> pool" where
  "PoolAllocator m = \<lparr>pool_mem = m, brk = 0, free_segments = Map.empty, used_bytes = 0\<rparr>"

subsection \<open>Byte views\<close>

definition read_obj :: "pool \<Rightarrow> mem_obj \<Rightarrow> byte list" where
  "read_obj p ob = slice (mo_offset ob) (mo_offset ob + mo_nbytes ob) (pool_mem p)"

text \<open>\<open>obj.byte_array[:] = blob\<close>: a memoryview assignment between different lengths raises.\<close>

definition write_obj :: "mem_obj \<Rightarrow> byte list \<Rightarrow> pool \<Rightarrow> pool res" where
  "write_obj ob blob p =
     (if length blob = mo_nbytes ob
      then Inr (p\<lparr>pool_mem := write_seg (mo_offset ob) blob (pool_mem p)\<rparr>)
      else Inl ValueError)"

subsection \<open>allocate, free, usage\<close>

text \<open>\<open>while len(offsets) < count and free: offsets.append(free.pop())\<close>\<close>

function pop_free :: "nat \<Rightarrow> nat list \<Rightarrow> nat list \<Rightarrow> nat list \<times> nat list" where
  "pop_free count fr offsets =
     (if length offsets < count \<and> fr \<noteq> []
      then pop_free count (butlast fr) (offsets @ [last fr])
      else (fr, offsets))"
  by pat_completeness auto
termination
  by (relation "measure (\<lambda>(count, fr, offsets). length fr)") auto

text \<open>\<open>while len(offsets) < count and self.brk + nbytes <= self.pool.numel(): \<dots>\<close>\<close>

function bump :: "nat \<Rightarrow> nat \<Rightarrow> nat \<Rightarrow> nat \<Rightarrow> nat list \<Rightarrow> nat \<times> nat list" where
  "bump count n cap b offsets =
     (if length offsets < count \<and> b + n \<le> cap
      then bump count n cap (b + n) (offsets @ [b])
      else (b, offsets))"
  by pat_completeness auto
termination
  by (relation "measure (\<lambda>(count, n, cap, b, offsets). count - length offsets)") auto

declare pop_free.simps [simp del] bump.simps [simp del]

definition allocate :: "nat \<Rightarrow> nat \<Rightarrow> pool \<Rightarrow> mem_obj list option \<times> pool" where
  "allocate count n p =
     (let fr = (case free_segments p n of None \<Rightarrow> [] | Some l \<Rightarrow> l);
          (fr', offsets1) = pop_free count fr [];
          (b, offsets) = bump count n (capacity p) (brk p) offsets1
      in if length offsets < count
         then (None, p\<lparr>brk := b, free_segments := (free_segments p)(n \<mapsto> fr' @ offsets)\<rparr>)
         else (Some (map (MemoryObj n) offsets),
               p\<lparr>brk := b, free_segments := (free_segments p)(n \<mapsto> fr'),
                 used_bytes := used_bytes p + int (count * n)\<rparr>))"

text \<open>
  \<open>free\<close> returns each object to the list of its size; the list must exist
  (\<open>self.free_segments[obj.nbytes]\<close>), and the counter has been decremented by then.
\<close>

fun free :: "mem_obj list \<Rightarrow> pool \<Rightarrow> unit res \<times> pool" where
  "free [] p = (Inr (), p)"
| "free (ob # objs) p =
     (let p1 = p\<lparr>used_bytes := used_bytes p - int (mo_nbytes ob)\<rparr>
      in case free_segments p1 (mo_nbytes ob) of
           None \<Rightarrow> (Inl KeyError, p1)
         | Some l \<Rightarrow>
             free objs (p1\<lparr>free_segments :=
               (free_segments p1)(mo_nbytes ob \<mapsto> l @ [mo_offset ob])\<rparr>))"

definition usage :: "pool \<Rightarrow> int \<times> nat" where
  "usage p = (used_bytes p, capacity p)"

subsection \<open>The loops in closed form\<close>

lemma pop_free_step:
  "length offsets < count \<Longrightarrow> pop_free count (ys @ [y]) offsets = pop_free count ys (offsets @ [y])"
  by (subst pop_free.simps) simp

lemma pop_free_done:
  "count \<le> length offsets \<or> fr = [] \<Longrightarrow> pop_free count fr offsets = (fr, offsets)"
  by (subst pop_free.simps) auto

lemma bump_step:
  "length offsets < count \<Longrightarrow> b + n \<le> cap \<Longrightarrow>
   bump count n cap b offsets = bump count n cap (b + n) (offsets @ [b])"
  by (subst bump.simps) simp

lemma bump_done:
  "count \<le> length offsets \<or> cap < b + n \<Longrightarrow> bump count n cap b offsets = (b, offsets)"
  by (subst bump.simps) auto

lemma pop_free_eq:
  "length offsets \<le> count \<Longrightarrow>
   pop_free count fr offsets =
     (take (length fr - (count - length offsets)) fr,
      offsets @ take (count - length offsets) (rev fr))"
proof (induction fr arbitrary: offsets rule: rev_induct)
  case Nil
  then show ?case by (simp add: pop_free_done)
next
  case (snoc y ys)
  show ?case
  proof (cases "length offsets < count")
    case True
    then obtain d where "count = Suc (length offsets + d)" by (metis less_iff_Suc_add)
    with True snoc.IH [of "offsets @ [y]"] show ?thesis by (simp add: pop_free_step)
  next
    case False
    with snoc.prems show ?thesis by (simp add: pop_free_done)
  qed
qed

lemma bump_eq:
  assumes n: "0 < n"
  shows "b \<le> cap \<Longrightarrow> length offsets \<le> count \<Longrightarrow>
   bump count n cap b offsets =
     (let m = min (count - length offsets) ((cap - b) div n)
      in (b + m * n, offsets @ map (\<lambda>i. b + i * n) [0..<m]))"
proof (induction "count - length offsets" arbitrary: b offsets)
  case 0
  then show ?case by (simp add: bump_done)
next
  case (Suc d)
  from Suc.hyps(2) have len: "length offsets < count" by simp
  show ?case
  proof (cases "b + n \<le> cap")
    case True
    define m where "m = min d ((cap - (b + n)) div n)"
    have "(cap - b) div n = Suc ((cap - (b + n)) div n)"
      using True n by (simp add: le_div_geq)
    then have m: "min (count - length offsets) ((cap - b) div n) = Suc m"
      using Suc.hyps(2) by (simp add: m_def)
    have d: "d = count - length (offsets @ [b])" using Suc.hyps(2) by simp
    have "bump count n cap (b + n) (offsets @ [b]) =
        (b + n + m * n, (offsets @ [b]) @ map (\<lambda>i. b + n + i * n) [0..<m])"
      using Suc.hyps(1) [OF d True] len d by (simp add: m_def Let_def)
    moreover have "map (\<lambda>i. b + i * n) [0..<Suc m] = b # map (\<lambda>i. b + n + i * n) [0..<m]"
      by (simp add: map_upt_Suc add.assoc del: upt_Suc)
    ultimately show ?thesis
      using bump_step [OF len True] m by (simp add: Let_def)
  next
    case False
    then have "(cap - b) div n = 0" using Suc.prems n by (simp add: div_eq_0_iff)
    with False show ?thesis by (simp add: bump_done)
  qed
qed

subsection \<open>The pool invariant\<close>

text \<open>
  A segment is an (offset, length) pair.  \<open>layout b U\<close> says that the segments \<open>U\<close> are
  non-empty, lie below \<open>b\<close>, are pairwise disjoint and fill \<open>[0, b)\<close> completely.  The
  invariant of the pool relates it to the set \<open>L\<close> of segments that are handed out: live and
  free segments together are such a layout of the carved region, no segment is both, every
  live segment can be freed, and the usage counter is the sum of the live lengths.
\<close>

type_synonym seg = "nat \<times> nat"

definition seg_of :: "mem_obj \<Rightarrow> seg" where
  "seg_of ob = (mo_offset ob, mo_nbytes ob)"

definition seg_disjoint :: "seg \<Rightarrow> seg \<Rightarrow> bool" where
  "seg_disjoint s t \<longleftrightarrow> fst s + snd s \<le> fst t \<or> fst t + snd t \<le> fst s"

definition layout :: "nat \<Rightarrow> seg set \<Rightarrow> bool" where
  "layout b U \<longleftrightarrow> finite U \<and> (\<forall>s \<in> U. 0 < snd s \<and> fst s + snd s \<le> b)
     \<and> (\<forall>s \<in> U. \<forall>t \<in> U. s \<noteq> t \<longrightarrow> seg_disjoint s t) \<and> sum snd U = b"

definition free_segs :: "pool \<Rightarrow> seg set" where
  "free_segs p = {(off, n). \<exists>l. free_segments p n = Some l \<and> off \<in> set l}"

definition pool_inv :: "pool \<Rightarrow> seg set \<Rightarrow> bool" where
  "pool_inv p L \<longleftrightarrow>
     layout (brk p) (L \<union> free_segs p) \<and> brk p \<le> capacity p \<and> L \<inter> free_segs p = {}
     \<and> (\<forall>n l. free_segments p n = Some l \<longrightarrow> distinct l)
     \<and> (\<forall>s \<in> L. free_segments p (snd s) \<noteq> None)
     \<and> used_bytes p = int (sum snd L)"

lemma seg_of_MemoryObj [simp]: "seg_of (MemoryObj n off) = (off, n)"
  by (simp add: seg_of_def MemoryObj_def)

lemma mo_sel [simp]: "mo_offset (MemoryObj n off) = off" "mo_nbytes (MemoryObj n off) = n"
  by (simp_all add: MemoryObj_def)

lemma layout_insert:
  assumes "layout b U" and "0 < n"
  shows "layout (b + n) (insert (b, n) U)"
proof -
  have "(b, n) \<notin> U" using assms by (force simp: layout_def)
  with assms show ?thesis
    by (force simp: layout_def seg_disjoint_def)
qed

lemma layout_bump:
  assumes "layout b U" and "0 < n"
  shows "layout (b + m * n) (U \<union> (\<lambda>i. (b + i * n, n)) ` {..<m})"
proof (induction m)
  case 0
  with assms show ?case by simp
next
  case (Suc m)
  from layout_insert [OF Suc assms(2)] show ?case
    by (simp add: lessThan_Suc add.assoc add.commute [of n])
qed

lemma layout_fresh: "layout b U \<Longrightarrow> b \<le> off \<Longrightarrow> 0 < n \<Longrightarrow> (off, n) \<notin> U"
  by (force simp: layout_def)

lemma free_segs_update:
  "free_segs (p\<lparr>free_segments := (free_segments p)(n \<mapsto> l)\<rparr>) =
     {s \<in> free_segs p. snd s \<noteq> n} \<union> (\<lambda>off. (off, n)) ` set l"
  by (auto simp: free_segs_def split: if_splits)

lemma free_segs_cong [simp]:
  "free_segs (p\<lparr>brk := b\<rparr>) = free_segs p"
  "free_segs (p\<lparr>used_bytes := u\<rparr>) = free_segs p"
  "free_segs (p\<lparr>pool_mem := m\<rparr>) = free_segs p"
  by (simp_all add: free_segs_def)

lemma capacity_cong [simp]:
  "capacity (p\<lparr>brk := b\<rparr>) = capacity p"
  "capacity (p\<lparr>used_bytes := u\<rparr>) = capacity p"
  "capacity (p\<lparr>free_segments := f\<rparr>) = capacity p"
  by (simp_all add: capacity_def)

text \<open>The list \<open>setdefault(nbytes, [])\<close> yields.\<close>

definition free_list :: "pool \<Rightarrow> nat \<Rightarrow> nat list" where
  "free_list p n = (case free_segments p n of None \<Rightarrow> [] | Some l \<Rightarrow> l)"

lemma free_segs_split:
  "free_segs p = {s \<in> free_segs p. snd s \<noteq> n} \<union> (\<lambda>off. (off, n)) ` set (free_list p n)"
  by (cases "free_segments p n") (auto simp: free_segs_def free_list_def)

text \<open>\<open>allocate\<close> without its loops.\<close>

definition from_free :: "nat \<Rightarrow> nat \<Rightarrow> pool \<Rightarrow> nat list" where
  "from_free count n p = take count (rev (free_list p n))"

definition bumped :: "nat \<Rightarrow> nat \<Rightarrow> pool \<Rightarrow> nat" where
  "bumped count n p =
     min (count - length (free_list p n)) ((capacity p - brk p) div n)"

definition from_brk :: "nat \<Rightarrow> nat \<Rightarrow> pool \<Rightarrow> nat list" where
  "from_brk count n p = map (\<lambda>i. brk p + i * n) [0..<bumped count n p]"

definition enough_room :: "nat \<Rightarrow> nat \<Rightarrow> pool \<Rightarrow> bool" where
  "enough_room count n p \<longleftrightarrow> count \<le> length (free_list p n) + (capacity p - brk p) div n"

lemma enough_room_alt:
  "enough_room count n p \<longleftrightarrow> \<not> length (from_free count n p @ from_brk count n p) < count"
  by (auto simp: enough_room_def from_free_def from_brk_def bumped_def)

lemma allocate_eq:
  assumes "0 < n" and "brk p \<le> capacity p"
  shows "allocate count n p =
    (let offs = from_free count n p @ from_brk count n p;
         b = brk p + bumped count n p * n;
         fr' = take (length (free_list p n) - count) (free_list p n)
     in if enough_room count n p
        then (Some (map (MemoryObj n) offs),
              p\<lparr>brk := b, free_segments := (free_segments p)(n \<mapsto> fr'),
                used_bytes := used_bytes p + int (count * n)\<rparr>)
        else (None, p\<lparr>brk := b, free_segments := (free_segments p)(n \<mapsto> fr' @ offs)\<rparr>))"
proof -
  have "count - min (length (free_list p n)) count = count - length (free_list p n)" by simp
  then show ?thesis
    using assms
    by (auto simp add: allocate_def free_list_def [symmetric] pop_free_eq bump_eq Let_def
        enough_room_alt from_free_def from_brk_def bumped_def min_def)
qed

lemma from_free_alt:
  "from_free count n p = rev (drop (length (free_list p n) - count) (free_list p n))"
  by (simp add: from_free_def take_rev)

lemma set_from_free:
  "set (take (length (free_list p n) - count) (free_list p n)) \<union> set (from_free count n p)
     = set (free_list p n)"
  by (simp add: from_free_alt flip: set_append)

lemma from_free_disjoint:
  "distinct (free_list p n) \<Longrightarrow>
   set (take (length (free_list p n) - count) (free_list p n)) \<inter> set (from_free count n p) = {}"
  by (simp add: from_free_alt distinct_take_drop_disjoint)

lemma distinct_free_list: "pool_inv p L \<Longrightarrow> distinct (free_list p n)"
  by (auto simp: pool_inv_def free_list_def split: option.splits)

lemma from_free_segs: "off \<in> set (from_free count n p) \<Longrightarrow> (off, n) \<in> free_segs p"
  by (auto simp: from_free_def free_list_def free_segs_def split: option.splits dest: in_set_takeD)

lemma from_brk_segs:
  "(\<lambda>off. (off, n)) ` set (from_brk count n p) = (\<lambda>i. (brk p + i * n, n)) ` {..<bumped count n p}"
  by (simp add: from_brk_def image_image lessThan_atLeast0)

lemma bumped_room: "brk p \<le> capacity p \<Longrightarrow> brk p + bumped count n p * n \<le> capacity p"
proof -
  assume "brk p \<le> capacity p"
  moreover have "bumped count n p * n \<le> (capacity p - brk p) div n * n"
    by (simp add: bumped_def)
  moreover have "(capacity p - brk p) div n * n \<le> capacity p - brk p" by simp
  ultimately show ?thesis by linarith
qed

lemma distinct_offsets:
  assumes "pool_inv p L" and "0 < n"
  shows "distinct (from_free count n p @ from_brk count n p)"
proof -
  have lay: "layout (brk p) (L \<union> free_segs p)" using assms(1) by (simp add: pool_inv_def)
  have "distinct (from_free count n p)"
    using distinct_free_list [OF assms(1)] by (simp add: from_free_alt)
  moreover have "distinct (from_brk count n p)"
    using assms(2) by (simp add: from_brk_def distinct_map inj_on_def)
  moreover have "set (from_free count n p) \<inter> set (from_brk count n p) = {}"
  proof -
    have "off < brk p" if "off \<in> set (from_free count n p)" for off
      using from_free_segs [OF that] lay by (force simp: layout_def)
    moreover have "brk p \<le> off" if "off \<in> set (from_brk count n p)" for off
      using that by (auto simp: from_brk_def)
    ultimately show ?thesis by (force simp: disjoint_iff)
  qed
  ultimately show ?thesis by simp
qed

lemma sum_snd_segs: "distinct offs \<Longrightarrow> sum snd ((\<lambda>off. (off, n)) ` set offs) = length offs * n"
  by (subst sum.reindex) (auto simp: inj_on_def distinct_card)

lemma layout_after_bump:
  assumes "pool_inv p L" and "0 < n"
  shows "layout (brk p + bumped count n p * n)
    (L \<union> free_segs p \<union> (\<lambda>off. (off, n)) ` set (from_brk count n p))"
  using layout_bump [of "brk p" "L \<union> free_segs p" n "bumped count n p"] assms
  by (simp add: pool_inv_def from_brk_segs)

lemma from_brk_fresh:
  assumes "pool_inv p L" and "0 < n" and "off \<in> set (from_brk count n p)"
  shows "(off, n) \<notin> L \<union> free_segs p"
  using assms by (intro layout_fresh [of "brk p"]) (auto simp: pool_inv_def from_brk_def)

lemma pool_inv_allocate_Some:
  assumes inv: "pool_inv p L" and n: "0 < n" and al: "allocate count n p = (Some objs, p')"
  shows "pool_inv p' (L \<union> seg_of ` set objs)" and "L \<inter> seg_of ` set objs = {}"
    and "distinct (map seg_of objs)" and "length objs = count"
proof -
  let ?fl = "free_list p n" and ?A = "from_free count n p" and ?B = "from_brk count n p"
  let ?fr = "take (length ?fl - count) ?fl"
  let ?S = "\<lambda>xs. (\<lambda>off. (off, n)) ` set xs"
  have brk: "brk p \<le> capacity p" using inv by (simp add: pool_inv_def)
  from al have room: "enough_room count n p" and objs: "objs = map (MemoryObj n) (?A @ ?B)"
    and p': "p' = p\<lparr>brk := brk p + bumped count n p * n,
      free_segments := (free_segments p)(n \<mapsto> ?fr), used_bytes := used_bytes p + int (count * n)\<rparr>"
    by (auto simp: allocate_eq [OF n brk] Let_def split: if_splits)
  have segs: "seg_of ` set objs = ?S ?A \<union> ?S ?B" by (auto simp: objs image_image image_Un)
  have dist: "distinct (?A @ ?B)" by (rule distinct_offsets [OF inv n])
  have "length (?A @ ?B) \<le> count" by (auto simp: from_free_def from_brk_def bumped_def)
  with room show len: "length objs = count" by (simp add: objs enough_room_alt)
  show "distinct (map seg_of objs)"
  proof -
    have "map seg_of objs = map (\<lambda>off. (off, n)) (?A @ ?B)" by (simp add: objs)
    with dist show ?thesis by (simp only: distinct_map) (simp add: inj_on_def)
  qed
  have AF: "?S ?A \<subseteq> free_segs p" using from_free_segs by blast
  have B: "?S ?B \<inter> (L \<union> free_segs p) = {}" using from_brk_fresh [OF inv n] by blast
  have LF: "L \<inter> free_segs p = {}" using inv by (simp add: pool_inv_def)
  from AF B LF show disj: "L \<inter> seg_of ` set objs = {}" unfolding segs by blast
  define R where "R = {s \<in> free_segs p. snd s \<noteq> n}"
  have "free_segs p' = free_segs (p\<lparr>free_segments := (free_segments p)(n \<mapsto> ?fr)\<rparr>)"
    by (simp add: p' free_segs_def)
  then have F': "free_segs p' = R \<union> ?S ?fr" by (simp only: free_segs_update R_def)
  have F: "free_segs p = R \<union> (?S ?fr \<union> ?S ?A)"
    unfolding R_def image_Un [symmetric] set_from_free by (rule free_segs_split)
  then have U: "L \<union> seg_of ` set objs \<union> free_segs p' = L \<union> free_segs p \<union> ?S ?B"
    by (simp only: segs F' Un_ac)
  have "?S ?fr \<inter> ?S ?A = {}"
    using from_free_disjoint [OF distinct_free_list [OF inv], of n count] by blast
  moreover have "R \<inter> ?S ?A = {}" by (auto simp: R_def)
  ultimately have "?S ?A \<inter> free_segs p' = {}" unfolding F' by blast
  moreover have sub: "free_segs p' \<subseteq> free_segs p" unfolding F F' by blast
  ultimately have disj': "(L \<union> seg_of ` set objs) \<inter> free_segs p' = {}"
    using LF B unfolding segs by blast
  have lay: "layout (brk p + bumped count n p * n) (L \<union> seg_of ` set objs \<union> free_segs p')"
    unfolding U by (rule layout_after_bump [OF inv n])
  have "finite L" using inv by (simp add: pool_inv_def layout_def)
  moreover have "sum snd (seg_of ` set objs) = count * n"
  proof -
    have "length (?A @ ?B) = count" using len by (simp add: objs)
    then have "sum snd (?S (?A @ ?B)) = count * n" by (simp only: sum_snd_segs [OF dist])
    then show ?thesis by (simp only: segs set_append image_Un)
  qed
  ultimately have "sum snd (L \<union> seg_of ` set objs) = sum snd L + count * n"
    using disj by (simp add: sum.union_disjoint)
  moreover have "distinct ?fr" using distinct_free_list [OF inv] by simp
  ultimately show "pool_inv p' (L \<union> seg_of ` set objs)"
    using inv lay disj' bumped_room [OF brk, of count n] segs
    by (auto simp: pool_inv_def p')
qed

lemma pool_inv_allocate_None:
  assumes inv: "pool_inv p L" and n: "0 < n" and al: "allocate count n p = (None, p')"
  shows "pool_inv p' L"
proof -
  let ?fl = "free_list p n" and ?A = "from_free count n p" and ?B = "from_brk count n p"
  let ?fr = "take (length ?fl - count) ?fl"
  let ?S = "\<lambda>xs. (\<lambda>off. (off, n)) ` set xs"
  have brk: "brk p \<le> capacity p" using inv by (simp add: pool_inv_def)
  from al have p': "p' = p\<lparr>brk := brk p + bumped count n p * n,
      free_segments := (free_segments p)(n \<mapsto> ?fr @ ?A @ ?B)\<rparr>"
    by (auto simp: allocate_eq [OF n brk] Let_def split: if_splits)
  define R where "R = {s \<in> free_segs p. snd s \<noteq> n}"
  have F: "free_segs p = R \<union> (?S ?fr \<union> ?S ?A)"
    unfolding R_def image_Un [symmetric] set_from_free by (rule free_segs_split)
  have "free_segs p' = free_segs (p\<lparr>free_segments := (free_segments p)(n \<mapsto> ?fr @ ?A @ ?B)\<rparr>)"
    by (simp add: p' free_segs_def)
  then have "free_segs p' = R \<union> ?S (?fr @ ?A @ ?B)" by (simp only: free_segs_update R_def)
  then have F': "free_segs p' = free_segs p \<union> ?S ?B"
    by (simp only: F set_append image_Un Un_ac)
  have "?S ?B \<inter> (L \<union> free_segs p) = {}" using from_brk_fresh [OF inv n] by blast
  then have disj: "L \<inter> free_segs p' = {}" using inv unfolding F' by (auto simp: pool_inv_def)
  have lay: "layout (brk p + bumped count n p * n) (L \<union> free_segs p')"
    using layout_after_bump [OF inv n, of count] by (simp add: F' Un_assoc)
  have "set ?fr \<inter> set ?B = {}"
  proof -
    have "(off, n) \<in> free_segs p" if "off \<in> set ?fr" for off
      using in_set_takeD [OF that] free_segs_split [of p n] by blast
    with from_brk_fresh [OF inv n] show ?thesis by blast
  qed
  moreover have "distinct ?fl" by (rule distinct_free_list [OF inv])
  ultimately have "distinct (?fr @ ?A @ ?B)"
    using distinct_offsets [OF inv n, of count] from_free_disjoint [of p n count] by auto
  with inv lay disj bumped_room [OF brk, of count n] show ?thesis
    by (auto simp: pool_inv_def p')
qed

lemma pool_inv_free_one:
  assumes inv: "pool_inv p L" and s: "seg_of ob \<in> L"
    and l: "free_segments p (mo_nbytes ob) = Some l"
  shows "pool_inv (p\<lparr>used_bytes := used_bytes p - int (mo_nbytes ob),
      free_segments := (free_segments p)(mo_nbytes ob \<mapsto> l @ [mo_offset ob])\<rparr>) (L - {seg_of ob})"
    (is "pool_inv ?p' _")
proof -
  have fl: "free_list p (mo_nbytes ob) = l" by (simp add: free_list_def l)
  have "free_segs ?p' = free_segs
      (p\<lparr>free_segments := (free_segments p)(mo_nbytes ob \<mapsto> l @ [mo_offset ob])\<rparr>)"
    by (simp add: free_segs_def)
  then have F': "free_segs ?p' = insert (seg_of ob) (free_segs p)"
    using l by (auto simp: free_segs_def seg_of_def split: if_splits)
  have U: "L - {seg_of ob} \<union> free_segs ?p' = L \<union> free_segs p" using s unfolding F' by blast
  have "finite L" using inv by (simp add: pool_inv_def layout_def)
  then have "sum snd L = snd (seg_of ob) + sum snd (L - {seg_of ob})"
    using s by (rule sum.remove)
  moreover have "distinct (l @ [mo_offset ob])"
  proof -
    have "seg_of ob \<notin> free_segs p" using inv s by (auto simp: pool_inv_def)
    moreover have "distinct l" using distinct_free_list [OF inv, of "mo_nbytes ob"] fl by simp
    ultimately show ?thesis by (auto simp: free_segs_def seg_of_def l)
  qed
  moreover have "(L - {seg_of ob}) \<inter> free_segs ?p' = {}"
    using inv F' by (auto simp: pool_inv_def)
  ultimately show ?thesis
    using inv U l by (auto simp: pool_inv_def seg_of_def)
qed

lemma pool_inv_free:
  "pool_inv p L \<Longrightarrow> seg_of ` set objs \<subseteq> L \<Longrightarrow> distinct (map seg_of objs) \<Longrightarrow>
   \<exists>p'. free objs p = (Inr (), p') \<and> pool_inv p' (L - seg_of ` set objs)
     \<and> pool_mem p' = pool_mem p \<and> brk p' = brk p"
proof (induction objs arbitrary: p L)
  case Nil
  then show ?case by simp
next
  case (Cons ob objs)
  from Cons.prems have s: "seg_of ob \<in> L" by simp
  with Cons.prems(1) obtain l where l: "free_segments p (mo_nbytes ob) = Some l"
    by (force simp: pool_inv_def seg_of_def)
  define p1 where "p1 = p\<lparr>used_bytes := used_bytes p - int (mo_nbytes ob),
      free_segments := (free_segments p)(mo_nbytes ob \<mapsto> l @ [mo_offset ob])\<rparr>"
  have inv1: "pool_inv p1 (L - {seg_of ob})"
    unfolding p1_def by (rule pool_inv_free_one [OF Cons.prems(1) s l])
  have "seg_of ` set objs \<subseteq> L - {seg_of ob}" using Cons.prems by auto
  with Cons.IH [OF inv1] Cons.prems(3) obtain p' where p': "free objs p1 = (Inr (), p')"
    "pool_inv p' (L - {seg_of ob} - seg_of ` set objs)" "pool_mem p' = pool_mem p1"
    "brk p' = brk p1"
    by auto
  moreover have "free (ob # objs) p = free objs p1" using l by (simp add: p1_def Let_def)
  moreover have "L - {seg_of ob} - seg_of ` set objs = L - seg_of ` set (ob # objs)" by auto
  ultimately show ?case by (simp add: p1_def)
qed

text \<open>No operation of the allocator touches the bytes.\<close>

lemma allocate_mem [simp]:
  "allocate count n p = (r, p') \<Longrightarrow> pool_mem p' = pool_mem p \<and> capacity p' = capacity p"
  by (auto simp: allocate_def capacity_def Let_def split: prod.splits if_splits)

lemma free_mem: "free objs p = (r, p') \<Longrightarrow> pool_mem p' = pool_mem p \<and> capacity p' = capacity p"
  by (induction objs arbitrary: p)
    (force simp: capacity_def Let_def split: option.splits)+

lemma pool_inv_init: "pool_inv (PoolAllocator m) {}"
  by (simp add: pool_inv_def PoolAllocator_def free_segs_def layout_def)

lemma pool_inv_mem: "length m = capacity p \<Longrightarrow> pool_inv (p\<lparr>pool_mem := m\<rparr>) L = pool_inv p L"
  by (simp add: pool_inv_def capacity_def)

text \<open>A request is granted exactly when the free list and the uncarved rest have room for it.\<close>

lemma allocate_granted:
  assumes "0 < n" and "brk p \<le> capacity p" and "enough_room count n p"
  shows "\<exists>objs p'. allocate count n p = (Some objs, p') \<and> (\<forall>ob \<in> set objs. mo_nbytes ob = n)
    \<and> used_bytes p' = used_bytes p + int (count * n)"
  using allocate_eq [OF assms(1,2), of count] assms(3) by (auto simp: Let_def)

lemma allocate_refused:
  assumes "0 < n" and "brk p \<le> capacity p" and "\<not> enough_room count n p"
  shows "\<exists>p'. allocate count n p = (None, p') \<and> used_bytes p' = used_bytes p"
  using allocate_eq [OF assms(1,2), of count] assms(3) by (auto simp: Let_def)

lemma pool_inv_used_le: "pool_inv p L \<Longrightarrow> used_bytes p \<le> int (capacity p)"
proof -
  assume inv: "pool_inv p L"
  then have "finite (L \<union> free_segs p)" "sum snd (L \<union> free_segs p) = brk p" "brk p \<le> capacity p"
    by (simp_all add: pool_inv_def layout_def)
  moreover from this(1) have "sum snd L \<le> sum snd (L \<union> free_segs p)"
    by (intro sum_mono2) auto
  ultimately have "sum snd L \<le> capacity p" by linarith
  moreover have "used_bytes p = int (sum snd L)" using inv unfolding pool_inv_def by blast
  ultimately show ?thesis by (simp only: of_nat_le_iff)
qed

subsection \<open>Properties\<close>

text \<open>
  C27. An allocation is granted exactly when the free list of the size and the uncarved rest of
  the pool have room for all of it.  Then it yields \<open>count\<close> new segments of the asked size,
  disjoint from one another and from every live segment, reusing the freed segments of that
  size, the last freed first, before it carves new ones; otherwise nothing is handed out and
  the usage is unchanged.  In both cases the layout of the pool stays valid.
\<close>

theorem allocate_correct:
  assumes "pool_inv p L" and "0 < n" and "allocate count n p = (r, p')"
  shows "case r of
      None \<Rightarrow> \<not> enough_room count n p \<and> pool_inv p' L \<and> used_bytes p' = used_bytes p
    | Some objs \<Rightarrow> enough_room count n p \<and> length objs = count \<and> (\<forall>ob \<in> set objs. mo_nbytes ob = n)
        \<and> pool_inv p' (L \<union> seg_of ` set objs) \<and> L \<inter> seg_of ` set objs = {} \<and> distinct (map seg_of objs)
        \<and> used_bytes p' = used_bytes p + int (count * n)
        \<and> take (length (free_list p n)) (map mo_offset objs) = take count (rev (free_list p n))"
proof -
  have brk: "brk p \<le> capacity p" using assms(1) by (simp add: pool_inv_def)
  show ?thesis
  proof (cases r)
    case None
    with assms have none: "allocate count n p = (None, p')" by simp
    then have "\<not> enough_room count n p" using allocate_granted [OF assms(2) brk, of count] by auto
    with pool_inv_allocate_None [OF assms(1,2) none] allocate_refused [OF assms(2) brk this] none None
    show ?thesis by auto
  next
    case (Some objs)
    with assms have some: "allocate count n p = (Some objs, p')" by simp
    then have room: "enough_room count n p" using allocate_refused [OF assms(2) brk, of count] by auto
    then have objs: "objs = map (MemoryObj n) (from_free count n p @ from_brk count n p)"
      using some allocate_eq [OF assms(2) brk, of count] by (simp add: Let_def)
    then have "map mo_offset objs = from_free count n p @ from_brk count n p"
      by (simp add: comp_def)
    moreover have "take (length (free_list p n)) (from_free count n p @ from_brk count n p) = from_free count n p"
      by (auto simp: from_free_def from_brk_def bumped_def min_def)
    ultimately have "take (length (free_list p n)) (map mo_offset objs) = take count (rev (free_list p n))"
      by (simp add: from_free_def)
    moreover have "\<forall>ob \<in> set objs. mo_nbytes ob = n" using objs by auto
    moreover have "used_bytes p' = used_bytes p + int (count * n)"
      using some room allocate_granted [OF assms(2) brk room] by auto
    ultimately show ?thesis using pool_inv_allocate_Some [OF assms(1,2) some] room Some by simp
  qed
qed

lemma allocate_correct_witness:
  "case allocate 2 3 (PoolAllocator (replicate 10 0)) of (r, p') \<Rightarrow>
     (\<exists>objs. r = Some objs \<and> length objs = 2 \<and> used_bytes p' = 6)"
proof -
  obtain r p' where a: "allocate 2 3 (PoolAllocator (replicate 10 0)) = (r, p')" by fastforce
  have "enough_room 2 3 (PoolAllocator (replicate 10 0))"
    by (simp add: enough_room_def free_list_def PoolAllocator_def capacity_def)
  with allocate_correct [OF pool_inv_init _ a] a show ?thesis
    by (auto simp: PoolAllocator_def split: option.splits)
qed

text \<open>
  Freeing is the inverse of allocating: segments that are live and freed once leave the
  usage lower by their sizes, are the ones the next allocation of that size gets, in reverse
  order, without carving any new memory, and the layout stays valid; and no byte of the pool
  is touched.
\<close>

theorem free_then_allocate:
  assumes "pool_inv p L" and "seg_of ` set objs \<subseteq> L" and "distinct (map seg_of objs)"
    and "\<forall>ob \<in> set objs. mo_nbytes ob = n" and "0 < n" and "free objs p = (r, p')"
  shows "r = Inr () \<and> pool_inv p' (L - seg_of ` set objs) \<and> pool_mem p' = pool_mem p
    \<and> used_bytes p' = used_bytes p - int (length objs * n)
    \<and> (\<exists>p''. allocate (length objs) n p' = (Some (rev objs), p'') \<and> brk p'' = brk p
         \<and> used_bytes p'' = used_bytes p)"
proof -
  have fl: "free objs p = (Inr (), q) \<Longrightarrow> \<forall>ob \<in> set objs. mo_nbytes ob = n \<Longrightarrow>
      free_list q n = free_list p n @ map mo_offset objs
      \<and> used_bytes q = used_bytes p - int (length objs * n)" for objs p q
  proof (induction objs arbitrary: p)
    case Nil
    then show ?case by simp
  next
    case (Cons ob objs)
    then obtain l where l: "free_segments p n = Some l" by (auto simp: Let_def split: option.splits)
    with Cons.prems have "free objs (p\<lparr>used_bytes := used_bytes p - int n,
        free_segments := (free_segments p)(n \<mapsto> l @ [mo_offset ob])\<rparr>) = (Inr (), q)"
      by (simp add: Let_def)
    from Cons.IH [OF this] Cons.prems(2) l show ?case
      by (simp add: free_list_def algebra_simps)
  qed
  from pool_inv_free [OF assms(1-3)] assms(6) have f: "free objs p = (Inr (), p')"
    and inv: "pool_inv p' (L - seg_of ` set objs)" and mem: "pool_mem p' = pool_mem p"
    and brk: "brk p' = brk p" and r: "r = Inr ()" by auto
  note fl' = fl [OF f assms(4)]
  have room: "enough_room (length objs) n p'" using fl' by (simp add: enough_room_def)
  have "brk p' \<le> capacity p'" using inv by (simp add: pool_inv_def)
  note al = allocate_eq [OF assms(5) this, of "length objs"]
  have b0: "bumped (length objs) n p' = 0" using fl' by (simp add: bumped_def)
  have off: "from_free (length objs) n p' @ from_brk (length objs) n p' = rev (map mo_offset objs)"
    using fl' b0 by (simp add: from_free_def from_brk_def)
  have "map (MemoryObj n) (rev (map mo_offset objs)) = rev objs"
    using assms(4) by (simp add: rev_map [symmetric] MemoryObj_def map_idI)
  with al room off b0 brk fl' have "\<exists>p''. allocate (length objs) n p' = (Some (rev objs), p'')
      \<and> brk p'' = brk p \<and> used_bytes p'' = used_bytes p"
    by (simp add: Let_def)
  with r inv mem fl' show ?thesis by blast
qed

lemma free_then_allocate_witness:
  "(let p = snd (allocate 2 4 (PoolAllocator (replicate 9 0)));
        p' = snd (free [MemoryObj 4 4, MemoryObj 4 0] p)
    in fst (allocate 2 4 p') = Some [MemoryObj 4 0, MemoryObj 4 4] \<and> used_bytes p' = used_bytes p - 8)"
proof -
  let ?p0 = "PoolAllocator (replicate 9 0)"
  define p where "p = snd (allocate 2 4 ?p0)"
  have "fst (allocate 2 4 ?p0) = Some [MemoryObj 4 0, MemoryObj 4 4]" by code_simp
  then have al: "allocate 2 4 ?p0 = (Some [MemoryObj 4 0, MemoryObj 4 4], p)"
    by (metis p_def prod.collapse)
  note inv = pool_inv_allocate_Some(1) [OF pool_inv_init _ al]
  obtain r p' where f: "free [MemoryObj 4 4, MemoryObj 4 0] p = (r, p')" by fastforce
  have "used_bytes p' = used_bytes p - 8 \<and>
      (\<exists>p''. allocate 2 4 p' = (Some [MemoryObj 4 0, MemoryObj 4 4], p''))"
    using free_then_allocate [OF inv _ _ _ _ f, of 4] by (auto simp: numeral_2_eq_2)
  with f show ?thesis by (auto simp: p_def)
qed

text \<open>
  A refused allocation still carves the whole rest of the pool into segments of the asked
  size: on an empty pool of 10 bytes, asking for three times 4 is refused, and afterwards a
  single chunk of 8 bytes is refused as well, although no byte is in use.
\<close>

theorem refused_allocation_strands_memory:
  "(let p0 = PoolAllocator (replicate 10 0);
        (r1, p1) = allocate 3 4 p0;
        (r2, p2) = allocate 1 8 p1
    in r1 = None \<and> used_bytes p1 = 0 \<and> r2 = None \<and> fst (allocate 1 8 p0) \<noteq> None)"
  by code_simp

end
