(* ===== verification/Pool_Contract.thy ===== *)
theory Pool_Contract
  imports Memory
begin

text \<open>
  What the L1 manager relies on when it calls its allocator: the interface
  \<open>segment_pool\<close>, its client lemmas about a table of keys that own segments, and the
  interpretation on the operations of \<open>PoolAllocator\<close>.
\<close>

text \<open>
  A table \<open>ob\<close> from keys to objects owns its segments: under the allocator's invariant they
  are live, no two keys share a segment, and the live segments that no key owns are \<open>G\<close>
  (reserved but not yet entered in the table, or lost).
\<close>

definition owned :: "('p \<Rightarrow> seg set \<Rightarrow> bool) \<Rightarrow> 'p \<Rightarrow> ('k \<rightharpoonup> mem_obj) \<Rightarrow> seg set \<Rightarrow> bool" where
  "owned live a ob G \<longleftrightarrow>
     live a (seg_of ` ran ob \<union> G) \<and> seg_of ` ran ob \<inter> G = {}
     \<and> (\<forall>k k' x x'. ob k = Some x \<longrightarrow> ob k' = Some x' \<longrightarrow> seg_of x = seg_of x' \<longrightarrow> k = k')"

locale segment_pool =
  fixes alloc :: "nat \<Rightarrow> nat \<Rightarrow> 'p \<Rightarrow> mem_obj list option \<times> 'p"
    and release :: "mem_obj list \<Rightarrow> 'p \<Rightarrow> unit res \<times> 'p"
    and live :: "'p \<Rightarrow> seg set \<Rightarrow> bool"
  assumes alloc_live: "live p L \<Longrightarrow> 0 < n \<Longrightarrow> alloc c n p = (Some objs, p') \<Longrightarrow>
      live p' (L \<union> seg_of ` set objs)"
    and alloc_fresh: "live p L \<Longrightarrow> 0 < n \<Longrightarrow> alloc c n p = (Some objs, p') \<Longrightarrow>
      L \<inter> seg_of ` set objs = {}"
    and alloc_distinct: "live p L \<Longrightarrow> 0 < n \<Longrightarrow> alloc c n p = (Some objs, p') \<Longrightarrow>
      distinct (map seg_of objs)"
    and alloc_length: "live p L \<Longrightarrow> 0 < n \<Longrightarrow> alloc c n p = (Some objs, p') \<Longrightarrow> length objs = c"
    and alloc_refused: "live p L \<Longrightarrow> 0 < n \<Longrightarrow> alloc c n p = (None, p') \<Longrightarrow> live p' L"
    and release_live: "live p L \<Longrightarrow> seg_of x \<in> L \<Longrightarrow>
      \<exists>p'. release [x] p = (Inr (), p') \<and> live p' (L - {seg_of x})"
begin

text \<open>Dropping a key: its segment goes back, nothing else changes hands.\<close>

lemma owned_drop:
  assumes own: "owned live a ob G" and k: "ob k = Some x"
  shows "\<exists>a'. release [x] a = (Inr (), a') \<and> owned live a' (ob(k := None)) G"
proof -
  have mem: "seg_of x \<in> seg_of ` ran ob \<union> G" using k by (auto intro: ranI)
  have rest: "seg_of ` ran (ob(k := None)) = seg_of ` ran ob - {seg_of x}"
  proof
    show "seg_of ` ran (ob(k := None)) \<subseteq> seg_of ` ran ob - {seg_of x}"
      using own k unfolding owned_def ran_def by (auto split: if_splits)
    show "seg_of ` ran ob - {seg_of x} \<subseteq> seg_of ` ran (ob(k := None))"
    proof
      fix s assume "s \<in> seg_of ` ran ob - {seg_of x}"
      then obtain k' y where "ob k' = Some y" "s = seg_of y" "s \<noteq> seg_of x"
        by (auto simp: ran_def)
      moreover from this k have "k' \<noteq> k" by auto
      ultimately have "y \<in> ran (ob(k := None))" by (auto simp: ran_def)
      with \<open>s = seg_of y\<close> show "s \<in> seg_of ` ran (ob(k := None))" by blast
    qed
  qed
  have "seg_of x \<notin> G" using own k by (auto simp: owned_def intro: ranI)
  then have "seg_of ` ran ob \<union> G - {seg_of x} = seg_of ` ran (ob(k := None)) \<union> G"
    using rest by blast
  with release_live [of a _ x] own mem
  obtain a' where "release [x] a = (Inr (), a')" "live a' (seg_of ` ran (ob(k := None)) \<union> G)"
    by (metis owned_def)
  moreover have "owned live a' (ob(k := None)) G"
    using own rest calculation(2) by (auto simp: owned_def split: if_splits)
  ultimately show ?thesis by blast
qed

text \<open>
  Entering an object of \<open>G\<close> under a key moves its segment into the table; what the key owned
  before is in no table any more.
\<close>

lemma owned_enter:
  assumes own: "owned live a ob G" and x: "seg_of x \<in> G"
  shows "owned live a (ob(k \<mapsto> x))
    (G - {seg_of x} \<union> (case ob k of None \<Rightarrow> {} | Some y \<Rightarrow> {seg_of y}))" (is "owned live a _ ?G")
proof -
  have lv: "live a (seg_of ` ran ob \<union> G)" and dj: "seg_of ` ran ob \<inter> G = {}"
    and inj: "\<And>k k' y y'. ob k = Some y \<Longrightarrow> ob k' = Some y' \<Longrightarrow> seg_of y = seg_of y' \<Longrightarrow> k = k'"
    using own by (auto simp: owned_def)
  define old where "old = (case ob k of None \<Rightarrow> {} | Some y \<Rightarrow> {seg_of y})"
  define R where "R = seg_of ` ran ob"
  have S: "seg_of ` ran (ob(k \<mapsto> x)) = insert (seg_of x) (R - old)"
  proof (cases "ob k")
    case None
    then show ?thesis by (simp add: R_def old_def)
  next
    case (Some y)
    have "seg_of ` ran (ob(k := None)) = seg_of ` ran ob - {seg_of y}"
    proof (rule set_eqI)
      fix s
      have "s \<in> seg_of ` ran (ob(k := None)) \<longleftrightarrow> (\<exists>j z. j \<noteq> k \<and> ob j = Some z \<and> s = seg_of z)"
        by (force simp: ran_def)
      also have "\<dots> \<longleftrightarrow> (\<exists>j z. ob j = Some z \<and> s = seg_of z \<and> s \<noteq> seg_of y)"
        using inj Some by (metis option.inject)
      also have "\<dots> \<longleftrightarrow> s \<in> seg_of ` ran ob - {seg_of y}" by (auto simp: ran_def)
      finally show "s \<in> seg_of ` ran (ob(k := None)) \<longleftrightarrow> s \<in> seg_of ` ran ob - {seg_of y}" .
    qed
    moreover have "ran (ob(k \<mapsto> x)) = insert x (ran (ob(k := None)))"
      by (auto simp: ran_def)
    ultimately show ?thesis using Some by (simp add: R_def old_def)
  qed
  have old: "old \<subseteq> R"
    by (auto simp: old_def R_def split: option.splits intro: ranI)
  have xR: "seg_of x \<notin> R" using dj x by (auto simp: R_def)
  have "insert (seg_of x) (R - old) \<union> (G - {seg_of x} \<union> old) = R \<union> G"
    using x old by blast
  with lv have "live a (seg_of ` ran (ob(k \<mapsto> x)) \<union> ?G)"
    by (simp only: S old_def [symmetric] R_def [symmetric])
  moreover have "seg_of ` ran (ob(k \<mapsto> x)) \<inter> ?G = {}"
    using x dj xR old unfolding S old_def [symmetric] R_def [symmetric] by blast
  moreover have "seg_of x \<notin> seg_of ` ran ob" using dj x by blast
  then have "j = j'" if "(ob(k \<mapsto> x)) j = Some y" "(ob(k \<mapsto> x)) j' = Some y'" "seg_of y = seg_of y'"
    for j j' y y'
    using that inj by (auto split: if_splits) (metis imageI ranI)+
  ultimately show ?thesis unfolding owned_def by blast
qed

text \<open>Allocating: the new segments are live and in no table yet.\<close>

lemma owned_alloc:
  assumes "owned live a ob G" and "0 < n" and "alloc c n a = (Some objs, a')"
  shows "owned live a' ob (G \<union> seg_of ` set objs)"
proof -
  have "live a (seg_of ` ran ob \<union> G)" using assms(1) by (simp add: owned_def)
  from alloc_live [OF this assms(2,3)] alloc_fresh [OF this assms(2,3)] assms(1)
  show ?thesis by (auto simp: owned_def Un_assoc)
qed

lemma owned_refused:
  "owned live a ob G \<Longrightarrow> 0 < n \<Longrightarrow> alloc c n a = (None, a') \<Longrightarrow> owned live a' ob G"
  using alloc_refused by (auto simp: owned_def)

text \<open>Entering a list of freshly allocated objects under distinct new keys uses up exactly them.\<close>

lemma owned_enter_all:
  "owned live a ob (G \<union> seg_of ` set objs) \<Longrightarrow> G \<inter> seg_of ` set objs = {} \<Longrightarrow>
   distinct (map seg_of objs) \<Longrightarrow> length ks = length objs \<Longrightarrow> distinct ks \<Longrightarrow>
   set ks \<inter> dom ob = {} \<Longrightarrow>
   owned live a (fold (\<lambda>(k, x) ob. ob(k \<mapsto> x)) (zip ks objs) ob) G"
proof (induction objs arbitrary: ks ob)
  case Nil
  then show ?case by simp
next
  case (Cons x objs)
  then obtain k ks' where ks: "ks = k # ks'" by (cases ks) auto
  with Cons.prems have "ob k = None" by (auto simp: dom_def)
  with owned_enter [OF Cons.prems(1), of x k]
  have "owned live a (ob(k \<mapsto> x)) (G \<union> seg_of ` set (x # objs) - {seg_of x})" by simp
  moreover have "G \<union> seg_of ` set (x # objs) - {seg_of x} = G \<union> seg_of ` set objs"
    using Cons.prems(2,3) by auto
  ultimately have "owned live a (ob(k \<mapsto> x)) (G \<union> seg_of ` set objs)" by simp
  moreover have "set ks' \<inter> dom (ob(k \<mapsto> x)) = {}" using Cons.prems(5,6) ks by auto
  moreover have "G \<inter> seg_of ` set objs = {}" using Cons.prems(2) by auto
  moreover have "distinct (map seg_of objs)" "length ks' = length objs" "distinct ks'"
    using Cons.prems ks by auto
  ultimately have
    "owned live a (fold (\<lambda>(k, x) ob. ob(k \<mapsto> x)) (zip ks' objs) (ob(k \<mapsto> x))) G"
    using \<open>owned live a (ob(k \<mapsto> x)) (G \<union> seg_of ` set objs)\<close> by (intro Cons.IH)
  then show ?case by (simp only: ks zip_Cons_Cons fold_simps split)
qed

text \<open>With repeated keys nothing is freed either: what a key loses stays live, owned by no key.\<close>

lemma owned_enter_any:
  "owned live a ob G' \<Longrightarrow> seg_of ` set objs \<subseteq> G' \<Longrightarrow> distinct (map seg_of objs) \<Longrightarrow>
   length ks = length objs \<Longrightarrow>
   \<exists>G''. G' - seg_of ` set objs \<subseteq> G'' \<and>
     owned live a (fold (\<lambda>(k, x) ob. ob(k \<mapsto> x)) (zip ks objs) ob) G''"
proof (induction objs arbitrary: ks ob G')
  case Nil
  then show ?case by auto
next
  case (Cons x objs)
  then obtain k ks' where ks: "ks = k # ks'" by (cases ks) auto
  define H where "H = G' - {seg_of x} \<union> (case ob k of None \<Rightarrow> {} | Some y \<Rightarrow> {seg_of y})"
  have "owned live a (ob(k \<mapsto> x)) H"
    unfolding H_def by (rule owned_enter [OF Cons.prems(1)]) (use Cons.prems in auto)
  moreover have "seg_of ` set objs \<subseteq> H" using Cons.prems(2,3) by (auto simp: H_def)
  ultimately obtain G'' where "H - seg_of ` set objs \<subseteq> G''"
    "owned live a (fold (\<lambda>(k, x) ob. ob(k \<mapsto> x)) (zip ks' objs) (ob(k \<mapsto> x))) G''"
    using Cons.IH [of "ob(k \<mapsto> x)" H ks'] Cons.prems ks by (auto simp del: fun_upd_apply)
  moreover have "G' - seg_of ` set (x # objs) \<subseteq> H - seg_of ` set objs" by (auto simp: H_def)
  ultimately have "G' - seg_of ` set (x # objs) \<subseteq> G'' \<and>
      owned live a (fold (\<lambda>(k, x) ob. ob(k \<mapsto> x)) (zip ks (x # objs)) ob) G''"
    by (simp only: ks zip_Cons_Cons fold_simps split) blast
  then show ?case by blast
qed

end

interpretation pool: segment_pool allocate free pool_inv
proof unfold_locales
  fix p L n c objs p' x
  show "pool_inv p L \<Longrightarrow> 0 < n \<Longrightarrow> allocate c n p = (Some objs, p') \<Longrightarrow>
      pool_inv p' (L \<union> seg_of ` set objs)" by (rule pool_inv_allocate_Some(1))
  show "pool_inv p L \<Longrightarrow> 0 < n \<Longrightarrow> allocate c n p = (Some objs, p') \<Longrightarrow>
      L \<inter> seg_of ` set objs = {}" by (rule pool_inv_allocate_Some(2))
  show "pool_inv p L \<Longrightarrow> 0 < n \<Longrightarrow> allocate c n p = (Some objs, p') \<Longrightarrow>
      distinct (map seg_of objs)" by (rule pool_inv_allocate_Some(3))
  show "pool_inv p L \<Longrightarrow> 0 < n \<Longrightarrow> allocate c n p = (Some objs, p') \<Longrightarrow> length objs = c"
    by (rule pool_inv_allocate_Some(4))
  show "pool_inv p L \<Longrightarrow> 0 < n \<Longrightarrow> allocate c n p = (None, p') \<Longrightarrow> pool_inv p' L"
    by (rule pool_inv_allocate_None)
  show "pool_inv p L \<Longrightarrow> seg_of x \<in> L \<Longrightarrow>
      \<exists>p'. free [x] p = (Inr (), p') \<and> pool_inv p' (L - {seg_of x})"
    using pool_inv_free [of p L "[x]"] by auto
qed

end
