(* ===== verification/Lru_Policy.thy ===== *)
theory Lru_Policy
  imports Prelude
begin

text \<open>
  \<open>LRUPolicy\<close> of \<open>mini_llmcache/l1/eviction.py\<close>.  Its \<open>OrderedDict\<close> of keys is the
  list of the keys in order, the least recently used first.
\<close>

text \<open>\<open>order.move_to_end(key)\<close> and \<open>order.pop(key, None)\<close>\<close>

definition od_pop :: "'k \<Rightarrow> 'k list \<Rightarrow> 'k list" where
  "od_pop k order = filter (\<lambda>x. x \<noteq> k) order"

definition od_move_to_end :: "'k \<Rightarrow> 'k list \<Rightarrow> 'k list" where
  "od_move_to_end k order = od_pop k order @ [k]"

definition lru_on_created :: "'k list \<Rightarrow> 'k list \<Rightarrow> 'k list" where
  "lru_on_created keys order =
     fold (\<lambda>k order. od_move_to_end k (od_set k order)) (rev keys) order"

definition lru_on_touched :: "'k list \<Rightarrow> 'k list \<Rightarrow> 'k list" where
  "lru_on_touched = lru_on_created"

definition lru_on_removed :: "'k list \<Rightarrow> 'k list \<Rightarrow> 'k list" where
  "lru_on_removed keys order = fold od_pop keys order"

text \<open>The loop of \<open>get_victims\<close>: stop at \<open>target\<close> victims, skip keys that are not eligible.\<close>

fun pick_victims :: "nat \<Rightarrow> ('k \<Rightarrow> bool) \<Rightarrow> 'k list \<Rightarrow> 'k list \<Rightarrow> 'k list" where
  "pick_victims target eligible [] victims = victims"
| "pick_victims target eligible (k # order) victims =
     (if target \<le> length victims then victims
      else pick_victims target eligible order (if eligible k then victims @ [k] else victims))"

definition victim_target :: "rat \<Rightarrow> nat \<Rightarrow> nat" where
  "victim_target ratio n = max 1 (nat \<lfloor>of_nat n * ratio\<rfloor>)"

definition get_victims :: "rat \<Rightarrow> ('k \<Rightarrow> bool) \<Rightarrow> 'k list \<Rightarrow> 'k list" where
  "get_victims ratio eligible order =
     pick_victims (victim_target ratio (length order)) eligible order []"

subsection \<open>Lemmas\<close>

lemma set_od_pop [simp]: "set (od_pop k order) = set order - {k}"
  by (auto simp: od_pop_def)

lemma distinct_od_pop [simp]: "distinct order \<Longrightarrow> distinct (od_pop k order)"
  by (simp add: od_pop_def)

lemma touch_one: "od_move_to_end k (od_set k order) = od_pop k order @ [k]"
  by (auto simp: od_move_to_end_def od_set_def od_pop_def)

lemma lru_on_removed_eq: "lru_on_removed keys order = filter (\<lambda>k. k \<notin> set keys) order"
  by (induction keys arbitrary: order) (auto simp: lru_on_removed_def od_pop_def conj_commute)

lemma lru_on_created_Nil [simp]: "lru_on_created [] order = order"
  by (simp add: lru_on_created_def)

lemma lru_on_created_Cons:
  "lru_on_created (k # keys) order = od_pop k (lru_on_created keys order) @ [k]"
  by (simp add: lru_on_created_def touch_one)

text \<open>A batch moves to the recent end in reverse: its first key becomes the most recent.\<close>

lemma lru_on_created_eq:
  "distinct keys \<Longrightarrow> lru_on_created keys order = filter (\<lambda>k. k \<notin> set keys) order @ rev keys"
proof (induction keys)
  case Nil
  then show ?case by simp
next
  case (Cons k keys)
  then have "od_pop k (rev keys) = rev keys" by (auto simp: od_pop_def filter_id_conv)
  with Cons show ?case
    by (simp add: lru_on_created_Cons) (simp add: od_pop_def conj_commute)
qed

lemma set_lru_on_created [simp]: "set (lru_on_created keys order) = set order \<union> set keys"
  by (induction keys) (auto simp: lru_on_created_Cons)

lemma distinct_lru_on_created: "distinct order \<Longrightarrow> distinct (lru_on_created keys order)"
  by (induction keys) (auto simp: lru_on_created_Cons)

lemma set_lru_on_removed [simp]: "set (lru_on_removed keys order) = set order - set keys"
  by (auto simp: lru_on_removed_eq)

lemma distinct_lru_on_removed: "distinct order \<Longrightarrow> distinct (lru_on_removed keys order)"
  by (simp add: lru_on_removed_eq)

lemma pick_victims_eq:
  "length victims \<le> target \<Longrightarrow>
   pick_victims target eligible order victims =
     victims @ take (target - length victims) (filter eligible order)"
proof (induction order arbitrary: victims)
  case Nil
  then show ?case by simp
next
  case (Cons k order)
  show ?case
  proof (cases "target \<le> length victims")
    case True
    with Cons.prems show ?thesis by simp
  next
    case False
    then obtain d where "target = Suc (length victims + d)" by (metis less_iff_Suc_add not_le)
    with Cons.IH [of "victims @ [k]"] Cons.IH [of victims] show ?thesis by simp
  qed
qed

lemma get_victims_eq:
  "get_victims ratio eligible order =
     take (victim_target ratio (length order)) (filter eligible order)"
  by (simp add: get_victims_def pick_victims_eq)

lemma victim_target_pos [simp]: "0 < victim_target ratio n"
  by (simp add: victim_target_def)

subsection \<open>Properties\<close>

text \<open>
  The policy evicts in recency order: after a batch of distinct keys was created or touched,
  the victims are the first \<open>max 1 (floor (n * ratio))\<close> eligible keys of the untouched keys in
  their old order followed by the batch backwards.  So nothing of the batch goes before an
  eligible untouched key, and of one prompt's batch the deepest chunk goes first, the shared
  head of the prefix last.
\<close>

theorem victims_in_recency_order:
  assumes "distinct keys" and "distinct order"
  shows "get_victims ratio eligible (lru_on_touched keys order) =
    take (max 1 (nat \<lfloor>of_nat (card (set order \<union> set keys)) * ratio\<rfloor>))
      (filter eligible (filter (\<lambda>k. k \<notin> set keys) order) @ rev (filter eligible keys))"
proof -
  have "length (lru_on_created keys order) = card (set order \<union> set keys)"
    using distinct_lru_on_created [OF assms(2), of keys] by (metis distinct_card set_lru_on_created)
  then show ?thesis
    by (simp add: get_victims_eq lru_on_touched_def victim_target_def lru_on_created_eq [OF assms(1)] rev_filter)
qed

lemma victims_in_recency_order_witness:
  "get_victims (1 / 2) (\<lambda>k. k \<noteq> 4) (lru_on_touched [2, 3] [1, 2, 3, 4 :: nat]) = [1, 3]"
proof -
  have "filter (\<lambda>k. k \<noteq> 4) (filter (\<lambda>k. k \<notin> set [2, 3]) [1, 2, 3, 4 :: nat]) @ rev (filter (\<lambda>k. k \<noteq> 4) [2, 3]) = [1, 3, 2]"
    by simp
  moreover have "card (set [1, 2, 3, 4 :: nat] \<union> set [2, 3]) = 4" by code_simp
  ultimately show ?thesis
    using victims_in_recency_order [of "[2, 3]" "[1, 2, 3, 4 :: nat]" "1 / 2" "\<lambda>k. k \<noteq> 4"] by simp
qed

end
