(* ===== verification/L1_Manager.thy ===== *)
theory L1_Manager
  imports Pool_Contract Lru_Policy
begin

text \<open>
  \<open>L1Manager\<close> of \<open>mini_llmcache/l1/manager.py\<close>: the entries, their write locks and read
  counts, and the listeners it notifies.  Every method runs under \<open>self.lock\<close>, so each is one
  step of the state; the listeners are called inside it and are part of the state.  The keys
  are of any type \<open>'k\<close> (the code uses \<open>ChunkKey\<close>, which it only compares).
\<close>

subsection \<open>Entries and listeners\<close>

record entry =
  en_obj :: mem_obj
  write_locked :: bool
  read_count :: int
  is_temporary :: bool

definition Entry :: "mem_obj \<Rightarrow> bool \<Rightarrow> bool \<Rightarrow> entry" where
  "Entry ob wl temp = \<lparr>en_obj = ob, write_locked = wl, read_count = 0, is_temporary = temp\<rparr>"

definition readable :: "entry \<Rightarrow> bool" where
  "readable e \<longleftrightarrow> \<not> write_locked e"

definition unlocked :: "entry \<Rightarrow> bool" where
  "unlocked e \<longleftrightarrow> \<not> write_locked e \<and> read_count e = 0"

datatype event = On_created | On_write_finished | On_touched | On_removed

text \<open>
  The listeners of the repository: the base class, whose methods do nothing, the LRU policy
  with its order, and the store controller with its queue of batches to write back.
\<close>

datatype 'k listener =
    Listener
  | LRUPolicy "'k list"
  | StoreController "'k list list"

text \<open>\<open>StoreController.on_write_finished\<close>: a copy of the batch is queued.\<close>

definition store_on_write_finished :: "'k list \<Rightarrow> 'k list list \<Rightarrow> 'k list list" where
  [simp]: "store_on_write_finished keys queued = queued @ [keys]"

fun handle :: "event \<Rightarrow> 'k list \<Rightarrow> 'k listener \<Rightarrow> 'k listener" where
  "handle On_created keys (LRUPolicy order) = LRUPolicy (lru_on_created keys order)"
| "handle On_touched keys (LRUPolicy order) = LRUPolicy (lru_on_touched keys order)"
| "handle On_removed keys (LRUPolicy order) = LRUPolicy (lru_on_removed keys order)"
| "handle On_write_finished keys (StoreController pending) = StoreController (store_on_write_finished keys pending)"
| "handle _ _ li = li"

record 'k l1 =
  allocator :: pool
  entries :: "'k \<rightharpoonup> entry"
  listeners :: "'k listener list"

definition L1Manager :: "pool \<Rightarrow> 'k l1" where
  "L1Manager a = \<lparr>allocator = a, entries = Map.empty, listeners = []\<rparr>"

definition register_listener :: "'k listener \<Rightarrow> 'k l1 \<Rightarrow> 'k l1" where
  "register_listener li l = l\<lparr>listeners := listeners l @ [li]\<rparr>"

definition notify :: "event \<Rightarrow> 'k list \<Rightarrow> 'k l1 \<Rightarrow> 'k l1" where
  "notify ev keys l = l\<lparr>listeners := map (handle ev keys) (listeners l)\<rparr>"

subsection \<open>Writing\<close>

text \<open>
  \<open>for key, obj in zip(missing, objs): self.entries[key] = Entry(\<dots>); result[key] = obj\<close>
\<close>

fun install :: "bool \<Rightarrow> ('k \<times> mem_obj) list \<Rightarrow> ('k \<rightharpoonup> entry) \<Rightarrow> ('k \<rightharpoonup> mem_obj option)
    \<Rightarrow> ('k \<rightharpoonup> entry) \<times> ('k \<rightharpoonup> mem_obj option)" where
  "install temp [] es res = (es, res)"
| "install temp ((k, ob) # kos) es res =
     install temp kos (es(k \<mapsto> Entry ob True temp)) (res(k \<mapsto> Some ob))"

text \<open>\<open>dict.fromkeys(keys)\<close>\<close>

definition fromkeys_none :: "'k list \<Rightarrow> 'k \<rightharpoonup> mem_obj option" where
  "fromkeys_none keys = (\<lambda>k. if k \<in> set keys then Some None else None)"

definition reserve_write :: "'k list \<Rightarrow> nat \<Rightarrow> bool \<Rightarrow> 'k l1 \<Rightarrow> ('k \<rightharpoonup> mem_obj option) \<times> 'k l1" where
  "reserve_write keys chunk_nbytes temp l =
     (let result = fromkeys_none keys;
          missing = filter (\<lambda>k. entries l k = None) keys
      in case allocate (length missing) chunk_nbytes (allocator l) of
           (None, a) \<Rightarrow> (result, l\<lparr>allocator := a\<rparr>)
         | (Some objs, a) \<Rightarrow>
             (case install temp (zip missing objs) (entries l) result of
                (es, result') \<Rightarrow> (result', l\<lparr>allocator := a, entries := es\<rparr>)))"

text \<open>\<open>for key in keys: self.entries[key].write_locked = False\<close>, with or without the read hold\<close>

fun unlock_writes :: "bool \<Rightarrow> 'k list \<Rightarrow> 'k l1 \<Rightarrow> unit res \<times> 'k l1" where
  "unlock_writes hold [] l = (Inr (), l)"
| "unlock_writes hold (k # keys) l =
     (case entries l k of
        None \<Rightarrow> (Inl KeyError, l)
      | Some e \<Rightarrow>
          unlock_writes hold keys (l\<lparr>entries := (entries l)(k \<mapsto>
            e\<lparr>write_locked := False, read_count := read_count e + (if hold then 1 else 0)\<rparr>)\<rparr>))"

definition finish_write :: "'k list \<Rightarrow> 'k l1 \<Rightarrow> unit res \<times> 'k l1" where
  "finish_write keys l =
     (case unlock_writes False keys l of
        (Inl x, l') \<Rightarrow> (Inl x, l')
      | (Inr _, l') \<Rightarrow> (Inr (), notify On_write_finished keys (notify On_created keys l')))"

definition finish_write_and_reserve_read :: "'k list \<Rightarrow> 'k l1 \<Rightarrow> unit res \<times> 'k l1" where
  "finish_write_and_reserve_read keys l =
     (case unlock_writes True keys l of
        (Inl x, l') \<Rightarrow> (Inl x, l')
      | (Inr _, l') \<Rightarrow> (Inr (), notify On_created keys l'))"

subsection \<open>Reading\<close>

definition add_read :: "int \<Rightarrow> 'k \<Rightarrow> 'k l1 \<Rightarrow> 'k l1" where
  "add_read d k l = l\<lparr>entries := (entries l)(k :=
     map_option (\<lambda>e. e\<lparr>read_count := read_count e + d\<rparr>) (entries l k))\<rparr>"

definition is_readable :: "'k l1 \<Rightarrow> 'k \<Rightarrow> bool" where
  "is_readable l k = (case entries l k of None \<Rightarrow> False | Some e \<Rightarrow> readable e)"

fun reserve_read_loop :: "'k list \<Rightarrow> 'k l1 \<Rightarrow> ('k \<rightharpoonup> mem_obj option)
    \<Rightarrow> ('k \<rightharpoonup> mem_obj option) \<times> 'k l1" where
  "reserve_read_loop [] l res = (res, l)"
| "reserve_read_loop (k # keys) l res =
     (case entries l k of
        None \<Rightarrow> reserve_read_loop keys l (res(k \<mapsto> None))
      | Some e \<Rightarrow>
          if \<not> readable e then reserve_read_loop keys l (res(k \<mapsto> None))
          else reserve_read_loop keys (add_read 1 k l) (res(k \<mapsto> Some (en_obj e))))"

definition reserve_read :: "'k list \<Rightarrow> 'k l1 \<Rightarrow> ('k \<rightharpoonup> mem_obj option) \<times> 'k l1" where
  "reserve_read keys l = reserve_read_loop keys l Map.empty"

definition reserve_read_prefix :: "'k list \<Rightarrow> 'k l1 \<Rightarrow> nat \<times> 'k l1" where
  "reserve_read_prefix keys l =
     (let hit = count_prefix (is_readable l) keys
      in (hit, fold (add_read 1) (take hit keys) l))"

fun read_loop :: "'k l1 \<Rightarrow> 'k list \<Rightarrow> mem_obj list res" where
  "read_loop l [] = Inr []"
| "read_loop l (k # keys) =
     (case entries l k of
        None \<Rightarrow> Inl KeyError
      | Some e \<Rightarrow> (case read_loop l keys of Inl x \<Rightarrow> Inl x | Inr objs \<Rightarrow> Inr (en_obj e # objs)))"

definition read :: "'k list \<Rightarrow> 'k l1 \<Rightarrow> mem_obj list res" where
  "read keys l = read_loop l keys"

text \<open>\<open>self.allocator.free([entry.obj]); del self.entries[key]\<close>\<close>

definition drop_entry :: "'k \<Rightarrow> entry \<Rightarrow> 'k l1 \<Rightarrow> unit res \<times> 'k l1" where
  "drop_entry k e l =
     (case free [en_obj e] (allocator l) of
        (Inl x, a) \<Rightarrow> (Inl x, l\<lparr>allocator := a\<rparr>)
      | (Inr _, a) \<Rightarrow> (Inr (), l\<lparr>allocator := a, entries := (entries l)(k := None)\<rparr>))"

fun finish_read_loop :: "'k list \<Rightarrow> 'k list \<Rightarrow> 'k list \<Rightarrow> 'k l1 \<Rightarrow> ('k list \<times> 'k list) res \<times> 'k l1" where
  "finish_read_loop [] freed touched l = (Inr (freed, touched), l)"
| "finish_read_loop (k # keys) freed touched l =
     (case entries l k of
        None \<Rightarrow> (Inl KeyError, l)
      | Some e0 \<Rightarrow>
          let l1 = add_read (-1) k l; e = e0\<lparr>read_count := read_count e0 - 1\<rparr>
          in if read_count e = 0 \<and> is_temporary e
             then (case drop_entry k e l1 of
                     (Inl x, l2) \<Rightarrow> (Inl x, l2)
                   | (Inr _, l2) \<Rightarrow> finish_read_loop keys (freed @ [k]) touched l2)
             else finish_read_loop keys freed (touched @ [k]) l1)"

definition finish_read :: "'k list \<Rightarrow> 'k l1 \<Rightarrow> unit res \<times> 'k l1" where
  "finish_read keys l =
     (case finish_read_loop keys [] [] l of
        (Inl x, l1) \<Rightarrow> (Inl x, l1)
      | (Inr (freed, touched), l1) \<Rightarrow>
          let l2 = (if touched \<noteq> [] then notify On_touched touched l1 else l1)
          in (Inr (), if freed \<noteq> [] then notify On_removed freed l2 else l2))"

subsection \<open>Promotion, deletion, usage\<close>

definition promote :: "'k list \<Rightarrow> 'k l1 \<Rightarrow> 'k l1" where
  "promote keys l = fold (\<lambda>k l. case entries l k of
       None \<Rightarrow> l
     | Some e \<Rightarrow> l\<lparr>entries := (entries l)(k \<mapsto> e\<lparr>is_temporary := False\<rparr>)\<rparr>) keys l"

definition is_evictable :: "'k l1 \<Rightarrow> 'k \<Rightarrow> bool" where
  "is_evictable l k = (case entries l k of None \<Rightarrow> False | Some e \<Rightarrow> unlocked e)"

fun delete_loop :: "bool \<Rightarrow> 'k list \<Rightarrow> 'k list \<Rightarrow> 'k l1 \<Rightarrow> 'k list res \<times> 'k l1" where
  "delete_loop force [] deleted l = (Inr deleted, l)"
| "delete_loop force (k # keys) deleted l =
     (case entries l k of
        None \<Rightarrow> delete_loop force keys deleted l
      | Some e \<Rightarrow>
          if \<not> unlocked e \<and> \<not> force then delete_loop force keys deleted l
          else (case drop_entry k e l of
                  (Inl x, l') \<Rightarrow> (Inl x, l')
                | (Inr _, l') \<Rightarrow> delete_loop force keys (deleted @ [k]) l'))"

definition delete :: "'k list \<Rightarrow> bool \<Rightarrow> 'k l1 \<Rightarrow> nat res \<times> 'k l1" where
  "delete keys force l =
     (case delete_loop force keys [] l of
        (Inl x, l') \<Rightarrow> (Inl x, l')
      | (Inr deleted, l') \<Rightarrow>
          (Inr (length deleted), if deleted \<noteq> [] then notify On_removed deleted l' else l'))"

definition l1_usage :: "'k l1 \<Rightarrow> int \<times> nat" where
  "l1_usage l = usage (allocator l)"

end
