(* ===== verification/L1_Laws.thy ===== *)
theory L1_Laws
  imports L1_Manager
begin

text \<open>
  What each \<open>L1Manager\<close> method does to the entries, and the invariant every method keeps:
  the entries own pairwise different live segments of the pool.  \<open>l1_inv G l\<close> names the live
  segments \<open>G\<close> that no entry refers to (segments lost for good); it is \<open>{}\<close> as long as
  no batch with a repeated key was reserved.
\<close>

subsection \<open>Invariant\<close>

definition objs_of :: "'k l1 \<Rightarrow> 'k \<rightharpoonup> mem_obj" where
  "objs_of l = (\<lambda>k. map_option en_obj (entries l k))"

definition l1_inv :: "seg set \<Rightarrow> 'k l1 \<Rightarrow> bool" where
  "l1_inv G l \<longleftrightarrow> owned pool_inv (allocator l) (objs_of l) G"

lemma l1_inv_cong:
  "allocator l' = allocator l \<Longrightarrow> objs_of l' = objs_of l \<Longrightarrow> l1_inv G l' = l1_inv G l"
  by (simp add: l1_inv_def)

lemma l1_inv_init: "l1_inv {} (L1Manager (PoolAllocator m))"
  by (simp add: l1_inv_def owned_def L1Manager_def objs_of_def pool_inv_init)

lemma notify_sel [simp]:
  "allocator (notify ev keys l) = allocator l" "entries (notify ev keys l) = entries l"
  "objs_of (notify ev keys l) = objs_of l" "l1_inv G (notify ev keys l) = l1_inv G l"
  "is_readable (notify ev keys l) = is_readable l"
  by (simp_all add: notify_def objs_of_def l1_inv_def is_readable_def fun_eq_iff)

lemma register_listener_sel [simp]:
  "allocator (register_listener li l) = allocator l" "entries (register_listener li l) = entries l"
  "l1_inv G (register_listener li l) = l1_inv G l"
  by (simp_all add: register_listener_def l1_inv_def objs_of_def)

subsection \<open>Read counts\<close>

lemma add_read_sel [simp]:
  "allocator (add_read d k l) = allocator l" "listeners (add_read d k l) = listeners l"
  by (simp_all add: add_read_def)

lemma objs_of_add_read [simp]: "objs_of (add_read d k l) = objs_of l"
  by (auto simp: objs_of_def add_read_def fun_eq_iff option.map_comp comp_def)

lemma is_readable_add_read [simp]: "is_readable (add_read d k l) = is_readable l"
  by (auto simp: is_readable_def add_read_def fun_eq_iff readable_def split: option.splits)

lemma add_reads_sel [simp]:
  "allocator (fold (add_read d) ks l) = allocator l"
  "listeners (fold (add_read d) ks l) = listeners l"
  "objs_of (fold (add_read d) ks l) = objs_of l"
  "is_readable (fold (add_read d) ks l) = is_readable l"
  by (induction ks arbitrary: l) simp_all

lemma entries_add_reads:
  "entries (fold (add_read d) ks l) k =
     map_option (\<lambda>e. e\<lparr>read_count := read_count e + d * int (count_list ks k)\<rparr>) (entries l k)"
  by (induction ks arbitrary: l)
    (auto simp: add_read_def option.map_comp comp_def algebra_simps option.map_ident)

lemma l1_inv_add_reads [simp]: "l1_inv G (fold (add_read d) ks l) = l1_inv G l"
  by (rule l1_inv_cong) simp_all

lemma is_readable_iff: "is_readable l k \<longleftrightarrow> (\<exists>e. entries l k = Some e \<and> \<not> write_locked e)"
  by (auto simp: is_readable_def readable_def split: option.splits)

lemma is_evictable_iff:
  "is_evictable l k \<longleftrightarrow> (\<exists>e. entries l k = Some e \<and> \<not> write_locked e \<and> read_count e = 0)"
  by (auto simp: is_evictable_def unlocked_def split: option.splits)

lemma reserve_read_loop_eq:
  "reserve_read_loop keys l res =
    ((\<lambda>k. if k \<in> set keys then Some (if is_readable l k then objs_of l k else None) else res k),
     fold (add_read 1) (filter (is_readable l) keys) l)"
proof (induction keys l res rule: reserve_read_loop.induct)
  case (1 l res)
  then show ?case by simp
next
  case (2 k keys l res)
  let ?f = "\<lambda>k. if is_readable l k then objs_of l k else None"
  have upd: "(\<lambda>j. if j \<in> set keys then Some (?f j) else (res(k \<mapsto> ?f k)) j) =
      (\<lambda>j. if j \<in> set (k # keys) then Some (?f j) else res j)" by auto
  show ?case
  proof (cases "is_readable l k")
    case False
    then have "reserve_read_loop (k # keys) l res = reserve_read_loop keys l (res(k \<mapsto> None))"
      by (simp add: is_readable_def split: option.splits)
    also have "\<dots> = ((\<lambda>j. if j \<in> set keys then Some (?f j) else (res(k \<mapsto> ?f k)) j),
        fold (add_read 1) (filter (is_readable l) keys) l)"
    proof (cases "entries l k")
      case None
      show ?thesis unfolding 2(1) [OF None] by (simp add: False)
    next
      case (Some e)
      with False have "\<not> readable e" by (simp add: is_readable_def)
      show ?thesis unfolding 2(2) [OF Some \<open>\<not> readable e\<close>] by (simp add: False)
    qed
    finally show ?thesis using upd False by simp
  next
    case True
    then obtain e where e: "entries l k = Some e" "readable e" "objs_of l k = Some (en_obj e)"
      by (auto simp: is_readable_def objs_of_def split: option.splits)
    then have "reserve_read_loop (k # keys) l res =
        reserve_read_loop keys (add_read 1 k l) (res(k \<mapsto> ?f k))"
      using True by simp
    also have "\<dots> = ((\<lambda>j. if j \<in> set keys then Some (?f j) else (res(k \<mapsto> ?f k)) j),
        fold (add_read 1) (filter (is_readable l) keys) (add_read 1 k l))"
    proof -
      have r: "\<not> \<not> readable e" using e(2) by simp
      have fk: "?f k = Some (en_obj e)" using True e(3) by simp
      show ?thesis unfolding fk 2(3) [OF e(1) r] by (simp cong: if_cong)
    qed
    finally show ?thesis using upd True by simp
  qed
qed

lemma reserve_read_eq:
  "reserve_read keys l =
    ((\<lambda>k. if k \<in> set keys then Some (if is_readable l k then objs_of l k else None) else None),
     fold (add_read 1) (filter (is_readable l) keys) l)"
  by (simp add: reserve_read_def reserve_read_loop_eq)

lemma reserve_read_prefix_eq:
  "reserve_read_prefix keys l =
    (length (takeWhile (is_readable l) keys), fold (add_read 1) (takeWhile (is_readable l) keys) l)"
  by (simp add: reserve_read_prefix_def Let_def count_prefix_takeWhile takeWhile_eq_take [symmetric])

lemma read_eq:
  "read keys l =
    (if set keys \<subseteq> dom (entries l) then Inr (map (\<lambda>k. the (objs_of l k)) keys) else Inl KeyError)"
proof -
  have "read_loop l keys =
    (if set keys \<subseteq> dom (entries l) then Inr (map (\<lambda>k. the (objs_of l k)) keys) else Inl KeyError)"
    by (induction keys) (auto simp: objs_of_def split: option.splits)
  then show ?thesis by (simp add: read_def)
qed

subsection \<open>Promotion\<close>

lemma entries_promote:
  "entries (promote keys l) = (\<lambda>k. if k \<in> set keys
     then map_option (\<lambda>e. e\<lparr>is_temporary := False\<rparr>) (entries l k) else entries l k)"
proof (induction keys arbitrary: l)
  case Nil
  then show ?case by (simp add: promote_def)
next
  case (Cons k keys)
  define l1 where "l1 = (case entries l k of
       None \<Rightarrow> l | Some e \<Rightarrow> l\<lparr>entries := (entries l)(k \<mapsto> e\<lparr>is_temporary := False\<rparr>)\<rparr>)"
  have l1: "entries l1 j =
      (if j = k then map_option (\<lambda>e. e\<lparr>is_temporary := False\<rparr>) (entries l k) else entries l j)" for j
    by (cases "entries l k") (simp_all add: l1_def)
  have "promote (k # keys) l = promote keys l1" by (simp add: promote_def l1_def)
  then have "entries (promote (k # keys) l) j = (if j \<in> set (k # keys)
      then map_option (\<lambda>e. e\<lparr>is_temporary := False\<rparr>) (entries l j) else entries l j)" for j
    by (cases "j = k"; cases "entries l j") (simp_all add: Cons.IH [of l1] l1)
  then show ?case by (rule ext)
qed

subsection \<open>Releasing write locks\<close>

definition unlocked_entry :: "bool \<Rightarrow> nat \<Rightarrow> entry \<Rightarrow> entry" where
  "unlocked_entry hold n e =
     e\<lparr>write_locked := False, read_count := read_count e + (if hold then int n else 0)\<rparr>"

lemma unlock_writes_ok:
  "set keys \<subseteq> dom (entries l) \<Longrightarrow>
   \<exists>l'. unlock_writes hold keys l = (Inr (), l') \<and> allocator l' = allocator l
     \<and> listeners l' = listeners l
     \<and> entries l' = (\<lambda>k. if k \<in> set keys
           then map_option (unlocked_entry hold (count_list keys k)) (entries l k)
           else entries l k)"
proof (induction keys arbitrary: l)
  case Nil
  then show ?case by simp
next
  case (Cons k keys)
  then obtain e where e: "entries l k = Some e" by auto
  define l1 where "l1 = l\<lparr>entries := (entries l)(k \<mapsto> unlocked_entry hold 1 e)\<rparr>"
  have "set keys \<subseteq> dom (entries l1)" using Cons.prems by (auto simp: l1_def)
  from Cons.IH [OF this] obtain l' where l': "unlock_writes hold keys l1 = (Inr (), l')"
    "allocator l' = allocator l1" "listeners l' = listeners l1"
    "entries l' = (\<lambda>j. if j \<in> set keys
           then map_option (unlocked_entry hold (count_list keys j)) (entries l1 j)
           else entries l1 j)" by blast
  have "unlock_writes hold (k # keys) l = unlock_writes hold keys l1"
    by (simp add: e l1_def unlocked_entry_def)
  moreover have "entries l' = (\<lambda>j. if j \<in> set (k # keys)
           then map_option (unlocked_entry hold (count_list (k # keys) j)) (entries l j)
           else entries l j)"
    using l'(4) e by (auto simp: l1_def fun_eq_iff unlocked_entry_def count_list_0_iff)
  ultimately show ?case using l' by (simp add: l1_def)
qed

lemma unlock_writes_missing:
  "\<not> set keys \<subseteq> dom (entries l) \<Longrightarrow> fst (unlock_writes hold keys l) = Inl KeyError"
proof (induction keys arbitrary: l)
  case Nil
  then show ?case by simp
next
  case (Cons k keys)
  show ?case
  proof (cases "entries l k")
    case None
    then show ?thesis by simp
  next
    case (Some e)
    have "unlock_writes hold (k # keys) l =
        unlock_writes hold keys (l\<lparr>entries := (entries l)(k \<mapsto> unlocked_entry hold 1 e)\<rparr>)"
      by (simp add: Some unlocked_entry_def)
    moreover have "fst (unlock_writes hold keys
        (l\<lparr>entries := (entries l)(k \<mapsto> unlocked_entry hold 1 e)\<rparr>)) = Inl KeyError"
      by (rule Cons.IH) (use Cons.prems Some in \<open>simp add: insert_absorb domI del: fun_upd_apply\<close>)
    ultimately show ?thesis by (simp only:)
  qed
qed

lemma unlock_writes_frame:
  "unlock_writes hold keys l = (r, l') \<Longrightarrow>
   allocator l' = allocator l \<and> objs_of l' = objs_of l \<and> listeners l' = listeners l"
proof (induction keys arbitrary: l)
  case Nil
  then show ?case by simp
next
  case (Cons k keys)
  then show ?case
    by (fastforce simp: objs_of_def fun_eq_iff split: option.splits if_splits)
qed

text \<open>\<open>finish_write\<close> and its variant succeed on keys the caller is writing.\<close>

lemma finish_write_frame:
  "finish_write keys l = (r, l') \<Longrightarrow> objs_of l' = objs_of l \<and> allocator l' = allocator l"
  by (cases "unlock_writes False keys l"; cases "fst (unlock_writes False keys l)")
    (auto simp: finish_write_def dest: unlock_writes_frame)

lemma finish_write_and_reserve_read_frame:
  "finish_write_and_reserve_read keys l = (r, l') \<Longrightarrow> objs_of l' = objs_of l \<and> allocator l' = allocator l"
  by (cases "unlock_writes True keys l"; cases "fst (unlock_writes True keys l)")
    (auto simp: finish_write_and_reserve_read_def dest: unlock_writes_frame)

lemma finish_write_ok:
  assumes "set keys \<subseteq> dom (entries l)" and "finish_write keys l = (r, l')"
  shows "r = Inr ()" and "entries l' = (\<lambda>k. if k \<in> set keys
    then map_option (unlocked_entry False (count_list keys k)) (entries l k) else entries l k)"
  using unlock_writes_ok [OF assms(1), of False] assms(2) by (auto simp: finish_write_def)

lemma finish_write_and_reserve_read_ok:
  assumes "set keys \<subseteq> dom (entries l)" and "finish_write_and_reserve_read keys l = (r, l')"
  shows "r = Inr ()" and "entries l' = (\<lambda>k. if k \<in> set keys
    then map_option (unlocked_entry True (count_list keys k)) (entries l k) else entries l k)"
  using unlock_writes_ok [OF assms(1), of True] assms(2)
  by (auto simp: finish_write_and_reserve_read_def)

subsection \<open>Dropping entries\<close>

lemma objs_of_drop: "objs_of (l\<lparr>allocator := a, entries := (entries l)(k := None)\<rparr>) = (objs_of l)(k := None)"
  by (auto simp: objs_of_def fun_eq_iff)

lemma drop_entry_ok:
  assumes "l1_inv G l" and "entries l k = Some e" and "en_obj e' = en_obj e"
  shows "\<exists>a. drop_entry k e' l = (Inr (), l\<lparr>allocator := a, entries := (entries l)(k := None)\<rparr>)
    \<and> l1_inv G (l\<lparr>allocator := a, entries := (entries l)(k := None)\<rparr>)
    \<and> pool_mem a = pool_mem (allocator l)"
proof -
  have "objs_of l k = Some (en_obj e)" using assms(2) by (simp add: objs_of_def)
  with assms(1) obtain a where a: "free [en_obj e] (allocator l) = (Inr (), a)"
    "owned pool_inv a ((objs_of l)(k := None)) G"
    unfolding l1_inv_def by (metis pool.owned_drop)
  with assms(3) free_mem [OF a(1)] show ?thesis
    by (auto simp: drop_entry_def l1_inv_def objs_of_drop)
qed

text \<open>
  The entries after the read holds of \<open>keys\<close> have been returned: a temporary entry whose
  count reaches zero is gone.
\<close>

definition released :: "'k list \<Rightarrow> ('k \<rightharpoonup> entry) \<Rightarrow> ('k \<rightharpoonup> entry)" where
  "released keys es k =
     (case es k of
        None \<Rightarrow> None
      | Some e \<Rightarrow>
          if k \<notin> set keys then Some e
          else let c = read_count e - int (count_list keys k)
               in if c = 0 \<and> is_temporary e then None else Some (e\<lparr>read_count := c\<rparr>))"

text \<open>The caller holds every key as often as it returns it.\<close>

definition holds_all :: "'k list \<Rightarrow> 'k l1 \<Rightarrow> bool" where
  "holds_all keys l \<longleftrightarrow>
     (\<forall>k \<in> set keys. \<exists>e. entries l k = Some e \<and> int (count_list keys k) \<le> read_count e)"

lemma released_outside: "k \<notin> set keys \<Longrightarrow> released keys es k = es k"
  by (simp add: released_def split: option.split)

lemma finish_read_loop_ok:
  "l1_inv G l \<Longrightarrow> holds_all keys l \<Longrightarrow>
   \<exists>fr to l'. finish_read_loop keys freed touched l = (Inr (freed @ fr, touched @ to), l')
     \<and> l1_inv G l' \<and> listeners l' = listeners l
     \<and> pool_mem (allocator l') = pool_mem (allocator l)
     \<and> entries l' = released keys (entries l)
     \<and> set fr = {k \<in> set keys. entries l' k = None} \<and> set fr \<union> set to = set keys"
proof (induction keys arbitrary: freed touched l)
  case Nil
  then show ?case by (auto simp: fun_eq_iff released_def split: option.split)
next
  case (Cons k keys)
  from Cons.prems(2) obtain e where e: "entries l k = Some e"
    and cnt: "1 + int (count_list keys k) \<le> read_count e"
    by (auto simp: holds_all_def)
  define c where "c = read_count e - 1"
  define l1 where "l1 = add_read (-1) k l"
  have l1: "entries l1 = (entries l)(k \<mapsto> e\<lparr>read_count := c\<rparr>)"
    by (simp add: l1_def add_read_def e c_def)
  have inv1: "l1_inv G l1" using Cons.prems(1) l1_inv_cong [of l1 l] by (simp add: l1_def)
  have rest: "\<exists>e'. entries l j = Some e' \<and> int (count_list keys j) \<le> read_count e'"
    if "j \<in> set keys" "j \<noteq> k" for j
    using Cons.prems(2) that by (force simp: holds_all_def)
  show ?case
  proof (cases "c = 0 \<and> is_temporary e")
    case True
    then have nk: "k \<notin> set keys" using cnt by (simp add: c_def count_list_0_iff)
    obtain a where a: "drop_entry k (e\<lparr>read_count := c\<rparr>) l1 =
        (Inr (), l1\<lparr>allocator := a, entries := (entries l1)(k := None)\<rparr>)"
      "l1_inv G (l1\<lparr>allocator := a, entries := (entries l1)(k := None)\<rparr>)"
      "pool_mem a = pool_mem (allocator l1)"
      using drop_entry_ok [OF inv1, of k "e\<lparr>read_count := c\<rparr>" "e\<lparr>read_count := c\<rparr>"] l1
      by auto
    define l2 where "l2 = l1\<lparr>allocator := a, entries := (entries l1)(k := None)\<rparr>"
    have es2: "entries l2 = (entries l)(k := None)" by (simp add: l2_def l1)
    have "holds_all keys l2" using rest nk by (auto simp: holds_all_def es2)
    moreover have "l1_inv G l2" using a(2) by (simp only: l2_def)
    ultimately obtain fr to l' where
      run: "finish_read_loop keys (freed @ [k]) touched l2 = (Inr (freed @ k # fr, touched @ to), l')"
      and inv': "l1_inv G l'" and fr': "listeners l' = listeners l2"
      "pool_mem (allocator l') = pool_mem (allocator l2)"
      and es': "entries l' = released keys (entries l2)"
      and sets: "set fr = {k \<in> set keys. entries l' k = None}" "set fr \<union> set to = set keys"
      using Cons.IH [of l2 "freed @ [k]" touched] by auto
    have step: "finish_read_loop (k # keys) freed touched l =
        finish_read_loop keys (freed @ [k]) touched l2"
      using True a(1) by (simp add: e l1_def [symmetric] c_def [symmetric] l2_def)
    have es: "released keys (entries l2) = released (k # keys) (entries l)"
      using True nk by (auto simp: fun_eq_iff released_def es2 e c_def split: option.split)
    have "entries l' k = None" by (simp add: es' es2 released_def)
    then have frees: "set (k # fr) = {j \<in> set (k # keys). entries l' j = None}"
      using sets(1) by auto
    have all: "set (k # fr) \<union> set to = set (k # keys)" using sets(2) by auto
    have frame: "listeners l' = listeners l" "pool_mem (allocator l') = pool_mem (allocator l)"
      using fr' a(3) by (simp_all add: l2_def l1_def)
    have res: "finish_read_loop (k # keys) freed touched l =
        (Inr (freed @ k # fr, touched @ to), l')" by (simp only: step run)
    show ?thesis
      by (intro exI conjI) (rule res inv' frame es' [unfolded es] frees all)+
  next
    case False
    have "holds_all keys l1"
      using rest cnt by (auto simp: holds_all_def l1 c_def)
    from Cons.IH [OF inv1 this, of freed "touched @ [k]"] obtain fr to l' where
      run: "finish_read_loop keys freed (touched @ [k]) l1 = (Inr (freed @ fr, touched @ k # to), l')"
      and inv': "l1_inv G l'" and fr': "listeners l' = listeners l1"
      "pool_mem (allocator l') = pool_mem (allocator l1)"
      and es': "entries l' = released keys (entries l1)"
      and sets: "set fr = {k \<in> set keys. entries l' k = None}" "set fr \<union> set to = set keys"
      by auto
    have step: "finish_read_loop (k # keys) freed touched l =
        finish_read_loop keys freed (touched @ [k]) l1"
      using False by (auto simp: e l1_def [symmetric] c_def [symmetric] Let_def)
    have es: "released keys (entries l1) = released (k # keys) (entries l)"
      using False cnt
      by (auto simp: fun_eq_iff released_def l1 e c_def Let_def count_list_0_iff split: option.split)
    have "k \<in> set keys \<or> entries l' k \<noteq> None"
      by (auto simp: es' released_outside l1)
    then have frees: "set fr = {j \<in> set (k # keys). entries l' j = None}"
      unfolding sets(1) list.set by (rule Collect_insert_skip [symmetric])
    have all: "set fr \<union> set (k # to) = set (k # keys)" using sets(2) by auto
    have frame: "listeners l' = listeners l" "pool_mem (allocator l') = pool_mem (allocator l)"
      using fr' by (simp_all add: l1_def)
    have res: "finish_read_loop (k # keys) freed touched l =
        (Inr (freed @ fr, touched @ k # to), l')" by (simp only: step run)
    show ?thesis
      by (intro exI conjI) (rule res inv' frame es' [unfolded es] frees all)+
  qed
qed

lemma finish_read_ok:
  assumes "l1_inv G l" and "holds_all keys l"
  shows "\<exists>l'. finish_read keys l = (Inr (), l') \<and> l1_inv G l' \<and> entries l' = released keys (entries l)
    \<and> pool_mem (allocator l') = pool_mem (allocator l)"
proof -
  from finish_read_loop_ok [OF assms, of "[]" "[]"] obtain fr to l' where
    "finish_read_loop keys [] [] l = (Inr (fr, to), l')" "l1_inv G l'"
    "entries l' = released keys (entries l)" "pool_mem (allocator l') = pool_mem (allocator l)"
    by auto
  then show ?thesis by (simp add: finish_read_def Let_def)
qed

text \<open>A key that is not in L1 makes \<open>finish_read\<close> raise.\<close>

lemma finish_read_missing: "entries l k = None \<Longrightarrow> fst (finish_read (k # keys) l) = Inl KeyError"
  by (simp add: finish_read_def)

subsection \<open>Deleting\<close>

definition deletable :: "bool \<Rightarrow> 'k l1 \<Rightarrow> 'k \<Rightarrow> bool" where
  "deletable force l k \<longleftrightarrow> entries l k \<noteq> None \<and> (force \<or> is_evictable l k)"

lemma delete_loop_ok:
  "l1_inv G l \<Longrightarrow>
   \<exists>del l'. delete_loop force keys deleted l = (Inr (deleted @ del), l') \<and> l1_inv G l'
     \<and> listeners l' = listeners l \<and> pool_mem (allocator l') = pool_mem (allocator l)
     \<and> entries l' = (\<lambda>k. if k \<in> set keys \<and> deletable force l k then None else entries l k)
     \<and> distinct del \<and> set del = {k \<in> set keys. deletable force l k}"
proof (induction keys arbitrary: deleted l)
  case Nil
  then show ?case by simp
next
  case (Cons k keys)
  show ?case
  proof (cases "deletable force l k")
    case False
    then have step: "delete_loop force (k # keys) deleted l = delete_loop force keys deleted l"
      by (auto simp: deletable_def is_evictable_def split: option.splits)
    have skip: "(\<lambda>j. if j \<in> set (k # keys) \<and> deletable force l j then None else entries l j) =
        (\<lambda>j. if j \<in> set keys \<and> deletable force l j then None else entries l j)"
      "{j \<in> set (k # keys). deletable force l j} = {j \<in> set keys. deletable force l j}"
      using False by auto
    show ?thesis unfolding step skip by (rule Cons.IH [OF Cons.prems])
  next
    case True
    then obtain e where e: "entries l k = Some e" and del: "unlocked e \<or> force"
      by (auto simp: deletable_def is_evictable_def split: option.splits)
    obtain a where a: "drop_entry k e l = (Inr (), l\<lparr>allocator := a, entries := (entries l)(k := None)\<rparr>)"
      "l1_inv G (l\<lparr>allocator := a, entries := (entries l)(k := None)\<rparr>)"
      "pool_mem a = pool_mem (allocator l)"
      using drop_entry_ok [OF Cons.prems e, of e] by auto
    define l1 where "l1 = l\<lparr>allocator := a, entries := (entries l)(k := None)\<rparr>"
    have step: "delete_loop force (k # keys) deleted l = delete_loop force keys (deleted @ [k]) l1"
      using del a(1) by (auto simp: e l1_def)
    have del1: "deletable force l1 j \<longleftrightarrow> j \<noteq> k \<and> deletable force l j" for j
      by (auto simp: deletable_def is_evictable_def l1_def split: option.splits)
    have "l1_inv G l1" using a(2) by (simp only: l1_def)
    from Cons.IH [OF this, of "deleted @ [k]"] obtain del l' where l':
      "delete_loop force keys (deleted @ [k]) l1 = (Inr (deleted @ k # del), l')" "l1_inv G l'"
      "listeners l' = listeners l1" "pool_mem (allocator l') = pool_mem (allocator l1)"
      and es': "entries l' = (\<lambda>j. if j \<in> set keys \<and> deletable force l1 j then None else entries l1 j)"
      and del: "distinct del" "set del = {j \<in> set keys. deletable force l1 j}"
      by auto
    have es: "entries l' =
        (\<lambda>j. if j \<in> set (k # keys) \<and> deletable force l j then None else entries l j)"
    proof -
      have "entries l1 = (entries l)(k := None)" by (simp add: l1_def)
      with True show ?thesis unfolding es' by (auto simp: del1)
    qed
    have "distinct (k # del)" and "set (k # del) = {j \<in> set (k # keys). deletable force l j}"
      using del True by (auto simp: del1)
    with l' es a(3) step show ?thesis
      by (intro exI [of _ "k # del"] exI [of _ l']) (simp add: l1_def)
  qed
qed

lemma delete_ok:
  assumes "l1_inv G l"
  shows "\<exists>l'. delete keys force l = (Inr (card {k \<in> set keys. deletable force l k}), l') \<and> l1_inv G l'
    \<and> pool_mem (allocator l') = pool_mem (allocator l)
    \<and> entries l' = (\<lambda>k. if k \<in> set keys \<and> deletable force l k then None else entries l k)"
proof -
  from delete_loop_ok [OF assms, of force keys "[]"] obtain del l' where
    "delete_loop force keys [] l = (Inr del, l')" "l1_inv G l'"
    "pool_mem (allocator l') = pool_mem (allocator l)"
    "entries l' = (\<lambda>k. if k \<in> set keys \<and> deletable force l k then None else entries l k)"
    "distinct del" "set del = {k \<in> set keys. deletable force l k}"
    by auto
  then show ?thesis by (simp add: delete_def distinct_card [symmetric])
qed

subsection \<open>Reserving writes\<close>

lemma install_eq:
  "install temp kos es res =
    (\<lambda>k. case map_of (rev kos) k of None \<Rightarrow> es k | Some ob \<Rightarrow> Some (Entry ob True temp),
     \<lambda>k. case map_of (rev kos) k of None \<Rightarrow> res k | Some ob \<Rightarrow> Some (Some ob))"
proof (induction temp kos es res rule: install.induct)
  case (1 temp es res)
  then show ?case by simp
next
  case (2 temp k ob kos es res)
  have up: "(case map_of (rev kos) j of None \<Rightarrow> (m(k \<mapsto> v)) j | Some x \<Rightarrow> f x) =
      (case map_of (rev ((k, ob) # kos)) j of None \<Rightarrow> m j | Some x \<Rightarrow> f x)"
    if "Some v = f ob" for m :: "'a \<Rightarrow> 'c option" and v f j
    using that by (auto simp: map_add_def split: option.splits)
  show ?case
    using 2 up [of "Entry ob True temp" "\<lambda>x. Some (Entry x True temp)"]
      up [of "Some ob" "\<lambda>x. Some (Some x)"]
    by (simp del: fun_upd_apply)
qed

lemma install_objs:
  "(\<lambda>k. map_option en_obj (fst (install temp kos es res) k)) =
     fold (\<lambda>(k, x) m. m(k \<mapsto> x)) kos (\<lambda>k. map_option en_obj (es k))"
proof (induction temp kos es res rule: install.induct)
  case (1 temp es res)
  then show ?case by simp
next
  case (2 temp k ob kos es res)
  have "(\<lambda>j. map_option en_obj ((es(k \<mapsto> Entry ob True temp)) j)) =
      (\<lambda>j. map_option en_obj (es j))(k \<mapsto> ob)"
    by (auto simp: Entry_def)
  with 2 show ?case by (simp del: fun_upd_apply)
qed

definition missing_keys :: "'k list \<Rightarrow> 'k l1 \<Rightarrow> 'k list" where
  "missing_keys keys l = filter (\<lambda>k. entries l k = None) keys"

lemma set_missing_keys [simp]: "set (missing_keys keys l) = {k \<in> set keys. entries l k = None}"
  by (simp add: missing_keys_def)

lemma l1_inv_pool: "l1_inv G l \<Longrightarrow> pool_inv (allocator l) (seg_of ` ran (objs_of l) \<union> G)"
  by (simp add: l1_inv_def owned_def)

lemma l1_inv_brk: "l1_inv G l \<Longrightarrow> brk (allocator l) \<le> capacity (allocator l)"
  using l1_inv_pool [of G l] by (simp add: pool_inv_def)

lemma reserve_write_refused:
  assumes "l1_inv G l" and "0 < n"
    and "\<not> enough_room (length (missing_keys keys l)) n (allocator l)"
  shows "\<exists>a. reserve_write keys n temp l = (fromkeys_none keys, l\<lparr>allocator := a\<rparr>)
    \<and> l1_inv G (l\<lparr>allocator := a\<rparr>) \<and> pool_mem a = pool_mem (allocator l)"
proof -
  from allocate_refused [OF assms(2) l1_inv_brk [OF assms(1)] assms(3)] obtain a where
    a: "allocate (length (missing_keys keys l)) n (allocator l) = (None, a)"
    by auto
  with assms(1,2) have "l1_inv G (l\<lparr>allocator := a\<rparr>)"
    using pool.owned_refused by (fastforce simp: l1_inv_def objs_of_def)
  with a show ?thesis by (auto simp: reserve_write_def missing_keys_def)
qed

text \<open>What a successful reservation stores: \<open>objs\<close> are the fresh objects, in key order.\<close>

definition reserved_entries :: "bool \<Rightarrow> 'k list \<Rightarrow> mem_obj list \<Rightarrow> ('k \<rightharpoonup> entry) \<Rightarrow> ('k \<rightharpoonup> entry)" where
  "reserved_entries temp ks objs es =
     (\<lambda>k. case map_of (rev (zip ks objs)) k of None \<Rightarrow> es k | Some ob \<Rightarrow> Some (Entry ob True temp))"

lemma reserve_write_granted:
  assumes inv: "l1_inv G l" and n: "0 < n"
    and room: "enough_room (length (missing_keys keys l)) n (allocator l)"
  shows "\<exists>objs a res l'. reserve_write keys n temp l = (res, l')
    \<and> l' = l\<lparr>allocator := a, entries := reserved_entries temp (missing_keys keys l) objs (entries l)\<rparr>
    \<and> length objs = length (missing_keys keys l) \<and> (\<forall>ob \<in> set objs. mo_nbytes ob = n)
    \<and> pool_mem a = pool_mem (allocator l)
    \<and> res = (\<lambda>k. case map_of (rev (zip (missing_keys keys l) objs)) k of
                   None \<Rightarrow> fromkeys_none keys k | Some ob \<Rightarrow> Some (Some ob))
    \<and> (distinct keys \<longrightarrow> l1_inv G l') \<and> (\<exists>G'. G \<subseteq> G' \<and> l1_inv G' l')"
proof -
  define ks where "ks = missing_keys keys l"
  from allocate_granted [OF n l1_inv_brk [OF inv] room] obtain objs a where
    al: "allocate (length ks) n (allocator l) = (Some objs, a)"
    and sz: "\<forall>ob \<in> set objs. mo_nbytes ob = n"
    by (auto simp: ks_def)
  define l' where "l' = l\<lparr>allocator := a, entries := reserved_entries temp ks objs (entries l)\<rparr>"
  note live = l1_inv_pool [OF inv]
  note fresh = pool.alloc_fresh [OF live n al] and dist = pool.alloc_distinct [OF live n al]
    and len = pool.alloc_length [OF live n al]
  have objs': "objs_of l' = fold (\<lambda>(k, x) m. m(k \<mapsto> x)) (zip ks objs) (objs_of l)"
    using install_objs [of temp "zip ks objs" "entries l" Map.empty]
    by (simp add: l'_def objs_of_def install_eq reserved_entries_def)
  have own: "owned pool_inv a (objs_of l) (G \<union> seg_of ` set objs)"
    using pool.owned_alloc [OF inv [unfolded l1_inv_def] n al] .
  have "l1_inv G l'" if "distinct keys"
  proof -
    have "distinct ks" "set ks \<inter> dom (objs_of l) = {}"
      using that by (auto simp: ks_def missing_keys_def objs_of_def)
    with own fresh dist len show ?thesis
      unfolding l1_inv_def objs' by (simp add: l'_def) (rule pool.owned_enter_all; auto)
  qed
  moreover have "\<exists>G'. G \<subseteq> G' \<and> l1_inv G' l'"
  proof -
    from pool.owned_enter_any [OF own _ dist, of ks] len obtain G' where
      G': "G \<union> seg_of ` set objs - seg_of ` set objs \<subseteq> G'"
      "owned pool_inv a (fold (\<lambda>(k, x) ob. ob(k \<mapsto> x)) (zip ks objs) (objs_of l)) G'"
      by auto
    from fresh G'(1) have "G \<subseteq> G'" by blast
    moreover have "l1_inv G' l'" using G'(2) unfolding l1_inv_def objs' by (simp add: l'_def)
    ultimately show ?thesis by blast
  qed
  moreover have "reserve_write keys n temp l = (\<lambda>k. case map_of (rev (zip ks objs)) k of
                   None \<Rightarrow> fromkeys_none keys k | Some ob \<Rightarrow> Some (Some ob), l')"
    using al by (simp add: reserve_write_def ks_def missing_keys_def install_eq l'_def
        reserved_entries_def Let_def)
  moreover have "pool_mem a = pool_mem (allocator l)" using allocate_mem [OF al] by simp
  ultimately show ?thesis using sz len unfolding ks_def l'_def by blast
qed

end
