(* ===== verification/L1_Calls.thy ===== *)
theory L1_Calls
  imports L1_Laws
begin

text \<open>
  Every \<open>L1Manager\<close> method runs under one lock, so what any number of threads do to the
  manager is a sequence of calls.  This theory names the calls, executes such a sequence and
  shows that the ownership invariant holds after it, whatever the arguments are and whether the
  calls raise or not.
\<close>

subsection \<open>Calls\<close>

text \<open>
  \<open>Poke\<close> is a thread that writes bytes through a view it was given (a store or an L2 load);
  it happens outside the lock and changes nothing but the bytes of the pool.
\<close>

datatype 'k l1_call =
    Reserve_write "'k list" nat bool
  | Finish_write "'k list"
  | Finish_write_and_reserve_read "'k list"
  | Reserve_read "'k list"
  | Reserve_read_prefix "'k list"
  | Finish_read "'k list"
  | Promote "'k list"
  | Delete "'k list" bool
  | Poke mem_obj "byte list"

fun l1_exec :: "'k l1_call \<Rightarrow> 'k l1 \<Rightarrow> 'k l1" where
  "l1_exec (Reserve_write keys n temp) l = snd (reserve_write keys n temp l)"
| "l1_exec (Finish_write keys) l = snd (finish_write keys l)"
| "l1_exec (Finish_write_and_reserve_read keys) l = snd (finish_write_and_reserve_read keys l)"
| "l1_exec (Reserve_read keys) l = snd (reserve_read keys l)"
| "l1_exec (Reserve_read_prefix keys) l = snd (reserve_read_prefix keys l)"
| "l1_exec (Finish_read keys) l = snd (finish_read keys l)"
| "l1_exec (Promote keys) l = promote keys l"
| "l1_exec (Delete keys force) l = snd (delete keys force l)"
| "l1_exec (Poke ob bs) l =
     (case write_obj ob bs (allocator l) of Inl _ \<Rightarrow> l | Inr p \<Rightarrow> l\<lparr>allocator := p\<rparr>)"

text \<open>What the code guarantees of the arguments: chunks are not empty, views lie in the pool.\<close>

fun sensible_call :: "'k l1 \<Rightarrow> 'k l1_call \<Rightarrow> bool" where
  "sensible_call l (Reserve_write keys n temp) \<longleftrightarrow> 0 < n"
| "sensible_call l (Poke ob bs) \<longleftrightarrow> mo_offset ob + mo_nbytes ob \<le> capacity (allocator l)"
| "sensible_call l _ \<longleftrightarrow> True"

fun no_repeats :: "'k l1_call \<Rightarrow> bool" where
  "no_repeats (Reserve_write keys n temp) \<longleftrightarrow> distinct keys"
| "no_repeats _ \<longleftrightarrow> True"

fun sensible_run :: "'k l1_call list \<Rightarrow> 'k l1 \<Rightarrow> bool" where
  "sensible_run [] l \<longleftrightarrow> True"
| "sensible_run (c # cs) l \<longleftrightarrow> sensible_call l c \<and> sensible_run cs (l1_exec c l)"

definition l1_run :: "'k l1_call list \<Rightarrow> 'k l1 \<Rightarrow> 'k l1" where
  "l1_run cs l = fold l1_exec cs l"

subsection \<open>Each call keeps the invariant\<close>

lemma l1_inv_unlock_writes: "unlock_writes hold keys l = (r, l') \<Longrightarrow> l1_inv G l' = l1_inv G l"
  by (drule unlock_writes_frame, rule l1_inv_cong) simp_all

lemma l1_inv_finish_write: "l1_inv G l \<Longrightarrow> l1_inv G (snd (finish_write keys l))"
proof (cases "unlock_writes False keys l")
  case (Pair r l')
  with l1_inv_unlock_writes [OF Pair] show "l1_inv G l \<Longrightarrow> ?thesis"
    by (cases r) (simp_all add: finish_write_def)
qed

lemma l1_inv_finish_write_and_reserve_read:
  "l1_inv G l \<Longrightarrow> l1_inv G (snd (finish_write_and_reserve_read keys l))"
proof (cases "unlock_writes True keys l")
  case (Pair r l')
  with l1_inv_unlock_writes [OF Pair] show "l1_inv G l \<Longrightarrow> ?thesis"
    by (cases r) (simp_all add: finish_write_and_reserve_read_def)
qed

lemma objs_of_promote: "objs_of (promote keys l) = objs_of l \<and> allocator (promote keys l) = allocator l"
  unfolding promote_def
  by (induction keys arbitrary: l) (auto simp: objs_of_def fun_eq_iff split: option.split)

lemma l1_inv_promote: "l1_inv G l \<Longrightarrow> l1_inv G (promote keys l)"
  by (simp add: l1_inv_def objs_of_promote)

lemma l1_inv_finish_read_loop:
  "l1_inv G l \<Longrightarrow> l1_inv G (snd (finish_read_loop keys freed touched l))"
proof (induction keys arbitrary: freed touched l)
  case Nil
  then show ?case by simp
next
  case (Cons k keys)
  show ?case
  proof (cases "entries l k")
    case None
    with Cons.prems show ?thesis by simp
  next
    case (Some e)
    define e' where "e' = e\<lparr>read_count := read_count e - 1\<rparr>"
    define l1 where "l1 = add_read (-1) k l"
    have inv1: "l1_inv G l1" using Cons.prems l1_inv_cong [of l1 l] by (simp add: l1_def)
    have e1: "entries l1 k = Some e'" by (simp add: l1_def add_read_def Some e'_def)
    from drop_entry_ok [OF inv1 e1 refl] obtain l2 where
      drop: "drop_entry k e' l1 = (Inr (), l2)" and inv2: "l1_inv G l2" by auto
    show ?thesis
      using drop Cons.IH [OF inv1] Cons.IH [OF inv2]
      by (simp add: Some Let_def l1_def [symmetric] e'_def [symmetric] del: fun_upd_apply)
  qed
qed

lemma l1_inv_finish_read: "l1_inv G l \<Longrightarrow> l1_inv G (snd (finish_read keys l))"
  using l1_inv_finish_read_loop [of G l keys "[]" "[]"]
  by (auto simp: finish_read_def Let_def split: prod.split sum.split)

lemma l1_inv_delete: "l1_inv G l \<Longrightarrow> l1_inv G (snd (delete keys force l))"
  using delete_ok [of G l keys force] by auto

lemma l1_inv_poke:
  assumes "l1_inv G l" and "mo_offset ob + mo_nbytes ob \<le> capacity (allocator l)"
  shows "l1_inv G (l1_exec (Poke ob bs) l)"
proof (cases "length bs = mo_nbytes ob")
  case True
  with assms(2) have "length (write_seg (mo_offset ob) bs (pool_mem (allocator l))) =
      capacity (allocator l)"
    by (simp add: capacity_def)
  with assms(1) True show ?thesis
    by (simp add: write_obj_def l1_inv_def owned_def objs_of_def pool_inv_mem)
qed (use assms(1) in \<open>simp add: write_obj_def\<close>)

lemma reserve_write_inv:
  assumes "l1_inv G l" and "0 < n"
  shows "\<exists>G'. G \<subseteq> G' \<and> l1_inv G' (snd (reserve_write keys n temp l))"
    and "distinct keys \<Longrightarrow> l1_inv G (snd (reserve_write keys n temp l))"
proof -
  show "\<exists>G'. G \<subseteq> G' \<and> l1_inv G' (snd (reserve_write keys n temp l))"
  proof (cases "enough_room (length (missing_keys keys l)) n (allocator l)")
    case True
    with reserve_write_granted [OF assms True, of temp] show ?thesis by auto
  next
    case False
    with reserve_write_refused [OF assms False, of temp] show ?thesis by auto
  qed
  show "l1_inv G (snd (reserve_write keys n temp l))" if "distinct keys"
  proof (cases "enough_room (length (missing_keys keys l)) n (allocator l)")
    case True
    with reserve_write_granted [OF assms True, of temp] that show ?thesis by auto
  next
    case False
    with reserve_write_refused [OF assms False, of temp] show ?thesis by auto
  qed
qed

lemma l1_inv_exec:
  assumes "l1_inv G l" and "sensible_call l c"
  shows "\<exists>G'. G \<subseteq> G' \<and> l1_inv G' (l1_exec c l) \<and> (no_repeats c \<longrightarrow> l1_inv G (l1_exec c l))"
proof (cases c)
  case (Reserve_write keys n temp)
  with assms reserve_write_inv [OF assms(1), of n keys temp] show ?thesis
    by (cases "distinct keys") auto
next
  case (Poke ob bs)
  with assms l1_inv_poke [of G l ob bs] show ?thesis
    by (intro exI [of _ G]) (simp del: l1_exec.simps)
qed (use assms in \<open>auto simp: l1_inv_finish_write l1_inv_finish_write_and_reserve_read reserve_read_eq
      reserve_read_prefix_eq l1_inv_finish_read l1_inv_promote l1_inv_delete\<close>)

lemma l1_inv_run:
  "l1_inv G l \<Longrightarrow> sensible_run cs l \<Longrightarrow>
   \<exists>G'. G \<subseteq> G' \<and> l1_inv G' (l1_run cs l) \<and> ((\<forall>c \<in> set cs. no_repeats c) \<longrightarrow> l1_inv G (l1_run cs l))"
proof (induction cs arbitrary: G l)
  case Nil
  then show ?case by (auto simp: l1_run_def)
next
  case (Cons c cs)
  then obtain G1 where G1: "G \<subseteq> G1" "l1_inv G1 (l1_exec c l)"
    "no_repeats c \<longrightarrow> l1_inv G (l1_exec c l)"
    using l1_inv_exec [of G l c] by auto
  show ?case
  proof (cases "no_repeats c")
    case True
    with Cons.IH [of G "l1_exec c l"] G1 Cons.prems show ?thesis by (auto simp: l1_run_def)
  next
    case False
    with Cons.IH [of G1 "l1_exec c l"] G1 Cons.prems show ?thesis by (auto simp: l1_run_def)
  qed
qed

subsection \<open>Reading the invariant\<close>

text \<open>The bytes of two entries lie in disjoint ranges of the pool.\<close>

lemma l1_inv_disjoint:
  assumes inv: "l1_inv G l" and "entries l k = Some e" and "entries l k' = Some e'" and "k \<noteq> k'"
  shows "seg_disjoint (seg_of (en_obj e)) (seg_of (en_obj e'))"
proof -
  have o: "objs_of l k = Some (en_obj e)" "objs_of l k' = Some (en_obj e')"
    using assms(2,3) by (simp_all add: objs_of_def)
  with inv assms(4) have "seg_of (en_obj e) \<noteq> seg_of (en_obj e')"
    by (auto simp: l1_inv_def owned_def)
  moreover have "seg_of (en_obj e) \<in> seg_of ` ran (objs_of l) \<union> G"
    "seg_of (en_obj e') \<in> seg_of ` ran (objs_of l) \<union> G"
    using o by (auto intro: ranI)
  ultimately show ?thesis
    using l1_inv_pool [OF inv] unfolding pool_inv_def layout_def by blast
qed

lemma l1_inv_within:
  assumes "l1_inv G l" and "entries l k = Some e"
  shows "0 < mo_nbytes (en_obj e) \<and> mo_offset (en_obj e) + mo_nbytes (en_obj e) \<le> capacity (allocator l)"
proof -
  have "objs_of l k = Some (en_obj e)" using assms(2) by (simp add: objs_of_def)
  then have "seg_of (en_obj e) \<in> seg_of ` ran (objs_of l) \<union> G" by (auto intro: ranI)
  moreover note l1_inv_pool [OF assms(1)]
  ultimately have "0 < snd (seg_of (en_obj e)) \<and> fst (seg_of (en_obj e)) + snd (seg_of (en_obj e)) \<le> brk (allocator l)"
    "brk (allocator l) \<le> capacity (allocator l)"
    unfolding pool_inv_def layout_def by blast+
  then show ?thesis by (simp add: seg_of_def)
qed

lemma l1_inv_finite: "l1_inv G l \<Longrightarrow> finite (dom (entries l))"
proof -
  assume inv: "l1_inv G l"
  have "finite (seg_of ` ran (objs_of l) \<union> G)"
    using l1_inv_pool [OF inv] unfolding pool_inv_def layout_def by blast
  then have fin: "finite (seg_of ` ran (objs_of l))" by simp
  have "inj_on (\<lambda>k. seg_of (the (objs_of l k))) (dom (objs_of l))"
    using inv by (auto simp: l1_inv_def owned_def inj_on_def dom_def)
  moreover have "(\<lambda>k. seg_of (the (objs_of l k))) ` dom (objs_of l) \<subseteq> seg_of ` ran (objs_of l)"
    by (auto simp: ran_def)
  ultimately have "finite (dom (objs_of l))" using fin by (meson finite_subset inj_on_finite)
  moreover have "dom (objs_of l) = dom (entries l)" by (auto simp: objs_of_def)
  ultimately show ?thesis by simp
qed

text \<open>The usage counter is the number of bytes the entries hold, plus the lost segments.\<close>

lemma l1_inv_usage:
  assumes inv: "l1_inv G l"
  shows "fst (l1_usage l) =
    int ((\<Sum>k \<in> dom (entries l). mo_nbytes (en_obj (the (entries l k)))) + sum snd G)"
proof -
  let ?f = "\<lambda>k. seg_of (the (objs_of l k))"
  have dom: "dom (objs_of l) = dom (entries l)" by (auto simp: objs_of_def)
  have ran: "seg_of ` ran (objs_of l) = ?f ` dom (entries l)"
    unfolding dom [symmetric] by (force simp: ran_def dom_def image_iff)
  have "inj_on ?f (dom (entries l))"
    unfolding dom [symmetric] using inv by (auto simp: l1_inv_def owned_def inj_on_def dom_def)
  then have "sum snd (seg_of ` ran (objs_of l)) = (\<Sum>k \<in> dom (entries l). snd (?f k))"
    unfolding ran by (simp add: sum.reindex)
  also have "\<dots> = (\<Sum>k \<in> dom (entries l). mo_nbytes (en_obj (the (entries l k))))"
    by (rule sum.cong) (auto simp: objs_of_def seg_of_def)
  finally have eq: "sum snd (seg_of ` ran (objs_of l)) =
      (\<Sum>k \<in> dom (entries l). mo_nbytes (en_obj (the (entries l k))))" .
  have live: "pool_inv (allocator l) (seg_of ` ran (objs_of l) \<union> G)" by (rule l1_inv_pool [OF inv])
  then have fin: "finite (seg_of ` ran (objs_of l))" "finite G"
    unfolding pool_inv_def layout_def by blast+
  have "seg_of ` ran (objs_of l) \<inter> G = {}" using inv by (simp add: l1_inv_def owned_def)
  then have "sum snd (seg_of ` ran (objs_of l) \<union> G) =
      sum snd (seg_of ` ran (objs_of l)) + sum snd G"
    by (rule sum.union_disjoint [OF fin])
  with live eq show ?thesis by (simp add: l1_usage_def usage_def pool_inv_def)
qed

subsection \<open>Properties\<close>

text \<open>
  C21. Memory safety of L1: whatever calls any threads make, in any order, with any keys (repeated ones
  too), and whether the calls raise or not, the chunks in the table occupy pairwise disjoint ranges of the
  pool, every chunk lies inside it, and the usage the evictor reads is at least the total size of the
  chunks in the table and never exceeds the pool.  It is exactly that total when no \<open>reserve_write\<close>
  named a key twice; one that does loses the segment the table no longer points to.
\<close>

theorem l1_memory_safe:
  assumes "sensible_run cs (L1Manager (PoolAllocator m))" and "l = l1_run cs (L1Manager (PoolAllocator m))"
  shows "(\<forall>k k' e e'. entries l k = Some e \<longrightarrow> entries l k' = Some e' \<longrightarrow> k \<noteq> k' \<longrightarrow>
      seg_disjoint (seg_of (en_obj e)) (seg_of (en_obj e')))
    \<and> (\<forall>k e. entries l k = Some e \<longrightarrow>
      0 < mo_nbytes (en_obj e) \<and> mo_offset (en_obj e) + mo_nbytes (en_obj e) \<le> capacity (allocator l))
    \<and> int (\<Sum>k \<in> dom (entries l). mo_nbytes (en_obj (the (entries l k)))) \<le> fst (l1_usage l)
    \<and> ((\<forall>c \<in> set cs. no_repeats c) \<longrightarrow>
      fst (l1_usage l) = int (\<Sum>k \<in> dom (entries l). mo_nbytes (en_obj (the (entries l k)))))
    \<and> fst (l1_usage l) \<le> int (snd (l1_usage l))"
proof -
  obtain G where inv: "l1_inv G l" and none: "(\<forall>c \<in> set cs. no_repeats c) \<longrightarrow> l1_inv {} l"
    using l1_inv_run [OF l1_inv_init assms(1)] assms(2) by blast
  have "fst (l1_usage l) \<le> int (snd (l1_usage l))"
    using pool_inv_used_le [OF l1_inv_pool [OF inv]] by (simp add: l1_usage_def usage_def)
  moreover have "int (\<Sum>k \<in> dom (entries l). mo_nbytes (en_obj (the (entries l k)))) \<le> fst (l1_usage l)"
    using l1_inv_usage [OF inv] by (simp only: of_nat_le_iff le_add1)
  moreover have "(\<forall>c \<in> set cs. no_repeats c) \<longrightarrow>
      fst (l1_usage l) = int (\<Sum>k \<in> dom (entries l). mo_nbytes (en_obj (the (entries l k))))"
    using none l1_inv_usage [of "{}" l] by simp
  ultimately show ?thesis using l1_inv_disjoint [OF inv] l1_inv_within [OF inv] by blast
qed

lemma l1_memory_safe_witness:
  "(let l = l1_run [Reserve_write [1, 2] 2 False, Finish_write [1], Delete [1 :: nat] False]
      (L1Manager (PoolAllocator [0, 0, 0, 0, 0]))
    in fst (l1_usage l) = int (\<Sum>k \<in> dom (entries l). mo_nbytes (en_obj (the (entries l k))))
      \<and> fst (l1_usage l) = 2)"
proof -
  let ?cs = "[Reserve_write [1, 2] 2 False, Finish_write [1], Delete [1 :: nat] False]"
  have "fst (l1_usage (l1_run ?cs (L1Manager (PoolAllocator [0, 0, 0, 0, 0])))) = 2" by code_simp
  with l1_memory_safe [of ?cs "[0, 0, 0, 0, 0]" "l1_run ?cs (L1Manager (PoolAllocator [0, 0, 0, 0, 0]))"]
  show ?thesis by (simp add: Let_def)
qed

text \<open>A key named twice: the table has one chunk of two bytes, and four bytes stay in use.\<close>

lemma repeated_key_loses_segment:
  "(let l = l1_run [Reserve_write [1 :: nat, 1] 2 False] (L1Manager (PoolAllocator [0, 0, 0, 0, 0]))
    in fst (l1_usage l) = 4 \<and> map_option (mo_nbytes \<circ> en_obj) (entries l 1) = Some 2
      \<and> fst (l1_usage (l1_run [Finish_write [1], Delete [1] False] l)) = 2)"
  by code_simp

end
