(* ===== verification/Protocol.thy ===== *)
theory Protocol
  imports Prelude
begin

text \<open>
  The wire protocol of \<open>mini_llmcache/protocol.py\<close>: the request numbers, the identity of a
  chunk and the payload dataclasses.  Python integers are \<open>int\<close>; sizes, counts and token
  positions, which the code only ever builds from lengths, are \<open>nat\<close>.  Floats (timings) are
  exact rationals: the model does not round.
\<close>

subsection \<open>Request types\<close>

datatype req =
    GET_CHUNK_SIZE
  | REGISTER_KV_CACHE
  | UNREGISTER_KV_CACHE
  | LOOKUP
  | QUERY_PREFETCH_STATUS
  | RETRIEVE
  | STORE
  | FREE_LOOKUP_LOCKS
  | END_SESSION
  | TRANSFER_ACK

text \<open>\<open>Req\<close> is an \<open>IntEnum\<close>: its members are integers and are ordered as such.\<close>

fun req_value :: "req \<Rightarrow> int" where
  "req_value GET_CHUNK_SIZE = 1"
| "req_value REGISTER_KV_CACHE = 2"
| "req_value UNREGISTER_KV_CACHE = 3"
| "req_value LOOKUP = 4"
| "req_value QUERY_PREFETCH_STATUS = 5"
| "req_value RETRIEVE = 6"
| "req_value STORE = 7"
| "req_value FREE_LOOKUP_LOCKS = 8"
| "req_value END_SESSION = 9"
| "req_value TRANSFER_ACK = 10"

lemma req_value_inj [simp]: "req_value a = req_value b \<longleftrightarrow> a = b"
  by (cases a; cases b) simp_all

instantiation req :: linorder
begin

definition less_eq_req :: "req \<Rightarrow> req \<Rightarrow> bool" where
  "less_eq_req a b \<longleftrightarrow> req_value a \<le> req_value b"

definition less_req :: "req \<Rightarrow> req \<Rightarrow> bool" where
  "less_req a b \<longleftrightarrow> req_value a < req_value b"

instance
  by standard (auto simp: less_eq_req_def less_req_def)

end

subsection \<open>Chunk keys\<close>

text \<open>Frozen dataclass: equality and hashing are by the three fields, as record equality is.\<close>

record chunk_key =
  chunk_hash :: "byte list"
  ck_model :: string
  ck_rank :: int

definition ChunkKey :: "byte list \<Rightarrow> string \<Rightarrow> int \<Rightarrow> chunk_key" where
  "ChunkKey h m r = \<lparr>chunk_hash = h, ck_model = m, ck_rank = r\<rparr>"

lemma ChunkKey_eq_iff [simp]: "ChunkKey h m r = ChunkKey h' m' r' \<longleftrightarrow> h = h' \<and> m = m' \<and> r = r'"
  by (simp add: ChunkKey_def)

subsection \<open>Payloads\<close>

type_synonym tokens = "int list"

record load_store_op =
  op_token_ids :: tokens
  op_block_ids :: "nat list"
  op_start :: nat
  op_end :: nat
  op_skip_first_n_tokens :: nat

record req_meta =
  rm_request_id :: string
  rm_req :: req
  rm_op :: load_store_op

record register_payload =
  rp_instance_id :: int
  rp_model :: string
  rp_rank :: int
  rp_world_size :: nat
  rp_block_size :: nat
  rp_chunk_nbytes :: nat

record lookup_payload =
  lp_request_id :: string
  lp_token_ids :: tokens
  lp_model :: string
  lp_world_size :: nat

record transfer_payload =
  tp_request_id :: string
  tp_instance_id :: int
  tp_op :: load_store_op
  tp_chunks :: "byte list list"
  tp_elapsed :: rat
  tp_nbytes :: nat

record ack_payload =
  ap_request_id :: string
  ap_kind :: string
  ap_nbytes :: nat
  ap_elapsed :: rat

record query_payload =
  qp_request_id :: string
  qp_world_size :: nat

record free_locks_payload =
  fp_request_id :: string
  fp_num_chunks :: nat
  fp_world_size :: nat

subsection \<open>Messages and plain results\<close>

text \<open>
  The argument of a request and the value of a reply, as the connector and the server use
  them: every request has a payload of one class, a string, an integer or nothing.
\<close>

datatype payload =
    P_none
  | P_instance int
  | P_request string
  | P_register register_payload
  | P_lookup lookup_payload
  | P_transfer transfer_payload
  | P_ack ack_payload
  | P_query query_payload
  | P_free_locks free_locks_payload

datatype plain = VBool bool | VInt nat

end
