(* ===== verification/L2_Adapters.thy ===== *)
theory L2_Adapters
  imports Protocol Memory
begin

text \<open>
  The L2 adapters: \<open>FSAdapter\<close> (\<open>mini_llmcache/l2/fs.py\<close>) and \<open>MockAdapter\<close>
  (\<open>mini_llmcache/l2/mock.py\<close>).  Their operations read and write the byte views of L1
  objects, so they take the pool.  The disk is the two maps of the directories the adapter
  uses, \<open>base\<close> and \<open>base/tmp\<close>, from file name to contents; the model's disk does not fail.
\<close>

subsection \<open>\<open>MockAdapter\<close>\<close>

type_synonym mock = "chunk_key \<rightharpoonup> byte list"

fun mock_store :: "chunk_key list \<Rightarrow> mem_obj list \<Rightarrow> pool \<Rightarrow> mock \<Rightarrow> mock" where
  "mock_store (k # keys) (ob # objs) p m = mock_store keys objs p (m(k \<mapsto> read_obj p ob))"
| "mock_store _ _ p m = m"

definition mock_lookup :: "chunk_key list \<Rightarrow> mock \<Rightarrow> nat" where
  "mock_lookup keys m = count_prefix (\<lambda>k. k \<in> dom m) keys"

fun mock_load_loop :: "chunk_key list \<Rightarrow> mem_obj list \<Rightarrow> mock \<Rightarrow> nat \<Rightarrow> pool \<Rightarrow> nat res \<times> pool" where
  "mock_load_loop (k # keys) (ob # objs) m loaded p =
     (case m k of
        None \<Rightarrow> (Inr loaded, p)
      | Some data \<Rightarrow>
          (case write_obj ob data p of
             Inl x \<Rightarrow> (Inl x, p)
           | Inr p' \<Rightarrow> mock_load_loop keys objs m (Suc loaded) p'))"
| "mock_load_loop _ _ m loaded p = (Inr loaded, p)"

definition mock_load :: "chunk_key list \<Rightarrow> mem_obj list \<Rightarrow> mock \<Rightarrow> pool \<Rightarrow> nat res \<times> pool" where
  "mock_load keys objs m p = mock_load_loop keys objs m 0 p"

subsection \<open>File names\<close>

text \<open>Lower-case hexadecimal digits: \<open>hex()\<close> of bytes and the format \<open>:x\<close> of integers.\<close>

definition hex_digit :: "nat \<Rightarrow> char" where
  "hex_digit d = ''0123456789abcdef'' ! d"

fun hex_nat :: "nat \<Rightarrow> string" where
  "hex_nat n = (if n < 16 then [hex_digit n] else hex_nat (n div 16) @ [hex_digit (n mod 16)])"

declare hex_nat.simps [simp del]

definition hex_int :: "int \<Rightarrow> string" where
  "hex_int i = (if i < 0 then CHR ''-'' # hex_nat (nat (- i)) else hex_nat (nat i))"

definition hex_bytes :: "byte list \<Rightarrow> string" where
  "hex_bytes bs = concat (map (\<lambda>b. [hex_digit (unat b div 16), hex_digit (unat b mod 16)]) bs)"

text \<open>\<open>model.replace('/', '-')\<close>\<close>

definition sanitize :: "string \<Rightarrow> string" where
  "sanitize m = map (\<lambda>c. if c = CHR ''/'' then CHR ''-'' else c) m"

definition filename :: "chunk_key \<Rightarrow> string" where
  "filename k = sanitize (ck_model k) @ ''@'' @ hex_int (ck_rank k) @ ''@''
     @ hex_bytes (chunk_hash k) @ ''.data''"

subsection \<open>\<open>FSAdapter\<close>\<close>

record fs =
  fs_base :: "string \<rightharpoonup> byte list"
  fs_tmp :: "string \<rightharpoonup> byte list"

text \<open>\<open>mkdir(parents=True, exist_ok=True)\<close> on a base directory with these files.\<close>

definition FSAdapter :: "(string \<rightharpoonup> byte list) \<Rightarrow> (string \<rightharpoonup> byte list) \<Rightarrow> fs" where
  "FSAdapter base tmp = \<lparr>fs_base = base, fs_tmp = tmp\<rparr>"

text \<open>\<open>tmp.write_bytes(data)\<close>, of which a crash may leave any first part; \<open>os.replace\<close>.\<close>

definition write_tmp :: "string \<Rightarrow> byte list \<Rightarrow> fs \<Rightarrow> fs" where
  "write_tmp name data d = d\<lparr>fs_tmp := (fs_tmp d)(name \<mapsto> data)\<rparr>"

definition os_replace :: "string \<Rightarrow> fs \<Rightarrow> fs" where
  "os_replace name d =
     (case fs_tmp d name of
        None \<Rightarrow> d
      | Some data \<Rightarrow> d\<lparr>fs_base := (fs_base d)(name \<mapsto> data), fs_tmp := (fs_tmp d)(name := None)\<rparr>)"

definition fs_exists :: "fs \<Rightarrow> chunk_key \<Rightarrow> bool" where
  "fs_exists d k \<longleftrightarrow> filename k \<in> dom (fs_base d)"

definition fs_store_one :: "chunk_key \<Rightarrow> byte list \<Rightarrow> fs \<Rightarrow> fs" where
  "fs_store_one k data d =
     (if fs_exists d k then d else os_replace (filename k) (write_tmp (filename k) data d))"

fun fs_store :: "chunk_key list \<Rightarrow> mem_obj list \<Rightarrow> pool \<Rightarrow> fs \<Rightarrow> fs" where
  "fs_store (k # keys) (ob # objs) p d = fs_store keys objs p (fs_store_one k (read_obj p ob) d)"
| "fs_store _ _ p d = d"

definition fs_lookup :: "chunk_key list \<Rightarrow> fs \<Rightarrow> nat" where
  "fs_lookup keys d = count_prefix (fs_exists d) keys"

text \<open>
  \<open>f.readinto(obj.byte_array)\<close> fills the object from the front and returns the number of
  bytes read: all of the file, or as much of it as the object holds.
\<close>

definition readinto :: "mem_obj \<Rightarrow> byte list \<Rightarrow> pool \<Rightarrow> nat \<times> pool" where
  "readinto ob data p =
     (let part = take (mo_nbytes ob) data
      in (length part, p\<lparr>pool_mem := write_seg (mo_offset ob) part (pool_mem p)\<rparr>))"

fun fs_load_loop :: "chunk_key list \<Rightarrow> mem_obj list \<Rightarrow> fs \<Rightarrow> nat \<Rightarrow> pool \<Rightarrow> nat \<times> pool" where
  "fs_load_loop (k # keys) (ob # objs) d loaded p =
     (case fs_base d (filename k) of
        None \<Rightarrow> (loaded, p)
      | Some data \<Rightarrow>
          (case readinto ob data p of
             (n, p') \<Rightarrow>
               if n \<noteq> mo_nbytes ob then (loaded, p')
               else fs_load_loop keys objs d (Suc loaded) p'))"
| "fs_load_loop _ _ d loaded p = (loaded, p)"

definition fs_load :: "chunk_key list \<Rightarrow> mem_obj list \<Rightarrow> fs \<Rightarrow> pool \<Rightarrow> nat \<times> pool" where
  "fs_load keys objs d p = fs_load_loop keys objs d 0 p"

subsection \<open>Dispatch\<close>

text \<open>The adapters of the registry, and their three operations as the controllers call them.\<close>

datatype adapter = Fs fs | Mock mock

fun l2_store :: "chunk_key list \<Rightarrow> mem_obj list \<Rightarrow> pool \<Rightarrow> adapter \<Rightarrow> adapter" where
  "l2_store keys objs p (Fs d) = Fs (fs_store keys objs p d)"
| "l2_store keys objs p (Mock m) = Mock (mock_store keys objs p m)"

fun l2_lookup :: "chunk_key list \<Rightarrow> adapter \<Rightarrow> nat" where
  "l2_lookup keys (Fs d) = fs_lookup keys d"
| "l2_lookup keys (Mock m) = mock_lookup keys m"

fun l2_load :: "chunk_key list \<Rightarrow> mem_obj list \<Rightarrow> adapter \<Rightarrow> pool \<Rightarrow> nat res \<times> pool" where
  "l2_load keys objs (Fs d) p = (case fs_load keys objs d p of (n, p') \<Rightarrow> (Inr n, p'))"
| "l2_load keys objs (Mock m) p = mock_load keys objs m p"

end
