(* ===== verification/Storage.thy ===== *)
theory Storage
  imports L1_Calls L2_Adapters
begin

text \<open>
  The storage stack of \<open>mini_llmcache/storage_manager.py\<close>: the L1 manager, the L2 adapters
  and the state of the controllers that run on them.  The store controller's queue and the LRU
  order are the states of the two listeners registered with L1; the prefetch controller's are
  the job queue, the published results and the held keys.
\<close>

subsection \<open>State\<close>

type_synonym job = "string \<times> chunk_key list \<times> nat option"

text \<open>\<open>hits[rid]\<close> is \<open>None\<close> while pending, then (L1 hits, L2 hits, GB/s).\<close>

type_synonym lookup_result = "nat \<times> nat \<times> rat"

record storage =
  st_l1 :: "chunk_key l1"
  st_l2s :: "adapter list"
  st_jobs :: "job list"
  st_hits :: "string \<rightharpoonup> lookup_result option"
  st_held :: "string \<rightharpoonup> chunk_key list"

text \<open>
  The constructors of the controllers: a policy without keys, the listeners two of them register, and
  a prefetch controller without jobs, results and held keys.  The threads they start are those of \<open>Server_Threads\<close>.
\<close>

definition new_policy :: "chunk_key listener" where
  "new_policy = LRUPolicy []"

definition EvictionController :: "chunk_key l1 \<Rightarrow> chunk_key listener \<Rightarrow> chunk_key l1" where
  "EvictionController l policy = register_listener policy l"

definition new_store_controller :: "chunk_key l1 \<Rightarrow> chunk_key l1" where
  "new_store_controller l = register_listener (StoreController []) l"

definition PrefetchController :: "chunk_key l1 \<Rightarrow> adapter list \<Rightarrow> storage" where
  "PrefetchController l l2s = \<lparr>st_l1 = l, st_l2s = l2s, st_jobs = [], st_hits = Map.empty, st_held = Map.empty\<rparr>"

text \<open>
  \<open>StorageManager.__init__\<close>: the store controller exists, and registers itself, only when
  there are adapters; the eviction controller registers its policy after it.
\<close>

definition StorageManager :: "byte list \<Rightarrow> adapter list \<Rightarrow> storage" where
  "StorageManager mem l2s =
     (let l = L1Manager (PoolAllocator mem);
          l = (if l2s \<noteq> [] then new_store_controller l else l);
          s = PrefetchController l l2s
      in s\<lparr>st_l1 := EvictionController (st_l1 s) new_policy\<rparr>)"

declare new_policy_def [simp] EvictionController_def [simp] new_store_controller_def [simp] PrefetchController_def [simp]

subsection \<open>Listeners\<close>

fun lru_order :: "'k listener list \<Rightarrow> 'k list" where
  "lru_order [] = []"
| "lru_order (LRUPolicy order # _) = order"
| "lru_order (_ # ls) = lru_order ls"

fun store_pending :: "'k listener list \<Rightarrow> 'k list list" where
  "store_pending [] = []"
| "store_pending (StoreController pending # _) = pending"
| "store_pending (_ # ls) = store_pending ls"

fun set_store_pending :: "'k list list \<Rightarrow> 'k listener list \<Rightarrow> 'k listener list" where
  "set_store_pending q [] = []"
| "set_store_pending q (StoreController _ # ls) = StoreController q # ls"
| "set_store_pending q (li # ls) = li # set_store_pending q ls"

lemma lru_order_notify:
  "lru_order (map (handle ev keys) ls) =
     (case ev of
        On_created \<Rightarrow> if \<exists>order. LRUPolicy order \<in> set ls
                      then lru_on_created keys (lru_order ls) else []
      | On_touched \<Rightarrow> if \<exists>order. LRUPolicy order \<in> set ls
                      then lru_on_touched keys (lru_order ls) else []
      | On_removed \<Rightarrow> if \<exists>order. LRUPolicy order \<in> set ls
                      then lru_on_removed keys (lru_order ls) else []
      | On_write_finished \<Rightarrow> lru_order ls)"
proof (induction ls)
  case Nil
  then show ?case by (cases ev) simp_all
next
  case (Cons li ls)
  then show ?case by (cases li; cases ev) auto
qed

end
