(* ===== verification/Prefetch.thy ===== *)
theory Prefetch
  imports Storage
begin

text \<open>
  \<open>PrefetchController\<close> of \<open>mini_llmcache/l1/prefetch_controller.py\<close>.  The futures of the
  adapters are waited for at once, so a call of \<open>submit_lookup\<close> or \<open>submit_load\<close> followed
  by \<open>result()\<close> is the adapter's operation.  The elapsed time of the loads is an argument.
\<close>

subsection \<open>Sessions\<close>

definition start_session :: "string \<Rightarrow> chunk_key list \<Rightarrow> nat option \<Rightarrow> storage \<Rightarrow> storage" where
  "start_session rid keys chunk_nbytes s =
     s\<lparr>st_hits := (st_hits s)(rid \<mapsto> None), st_jobs := st_jobs s @ [(rid, keys, chunk_nbytes)]\<rparr>"

text \<open>\<open>self.hits.get(request_id)\<close>: both an unknown and a pending request give \<open>None\<close>.\<close>

definition query :: "string \<Rightarrow> storage \<Rightarrow> lookup_result option" where
  "query rid s = (case st_hits s rid of None \<Rightarrow> None | Some r \<Rightarrow> r)"

text \<open>\<open>for key in released: del held[key]\<close>: the second deletion of a key raises.\<close>

fun del_held :: "chunk_key list \<Rightarrow> chunk_key list \<Rightarrow> unit res \<times> chunk_key list" where
  "del_held [] held = (Inr (), held)"
| "del_held (k # ks) held =
     (if k \<in> set held then del_held ks (filter (\<lambda>x. x \<noteq> k) held) else (Inl KeyError, held))"

definition held_of :: "string \<Rightarrow> storage \<Rightarrow> chunk_key list" where
  "held_of rid s = (case st_held s rid of None \<Rightarrow> [] | Some h \<Rightarrow> h)"

text \<open>
  \<open>held\<close> is the dictionary stored under the request (or a fresh empty one), so deleting from it
  changes the stored one.
\<close>

definition set_held :: "string \<Rightarrow> chunk_key list \<Rightarrow> storage \<Rightarrow> storage" where
  "set_held rid h s =
     (if st_held s rid = None then s else s\<lparr>st_held := (st_held s)(rid \<mapsto> h)\<rparr>)"

definition release :: "string \<Rightarrow> chunk_key list option \<Rightarrow> storage \<Rightarrow> unit res \<times> storage" where
  "release rid keys s =
     (let held = held_of rid s;
          ks = (case keys of None \<Rightarrow> held | Some ks \<Rightarrow> ks);
          released = filter (\<lambda>k. k \<in> set held) ks
      in case del_held released held of
           (Inl x, h) \<Rightarrow> (Inl x, set_held rid h s)
         | (Inr _, h) \<Rightarrow>
             (case finish_read released (st_l1 s) of
                (r, l) \<Rightarrow> (r, set_held rid h s\<lparr>st_l1 := l\<rparr>)))"

definition release_first :: "string \<Rightarrow> nat \<Rightarrow> storage \<Rightarrow> unit res \<times> storage" where
  "release_first rid count s = release rid (Some (take count (held_of rid s))) s"

definition end_session :: "string \<Rightarrow> storage \<Rightarrow> unit res \<times> storage" where
  "end_session rid s =
     (case release rid None s of
        (Inl x, s') \<Rightarrow> (Inl x, s')
      | (Inr _, s') \<Rightarrow>
          (Inr (), s'\<lparr>st_hits := (st_hits s')(rid := None), st_held := (st_held s')(rid := None)\<rparr>))"

text \<open>Publish the result if the session still runs; otherwise give the read holds back.\<close>

definition resolve :: "string \<Rightarrow> chunk_key list \<Rightarrow> chunk_key list \<Rightarrow> rat \<Rightarrow> storage
    \<Rightarrow> unit res \<times> storage" where
  "resolve rid l1_keys loaded_keys gbps s =
     (let hit_keys = l1_keys @ loaded_keys
      in if st_hits s rid \<noteq> None
         then (Inr (), s\<lparr>st_hits := (st_hits s)(rid \<mapsto> Some (length l1_keys, length loaded_keys, gbps)),
                         st_held := (st_held s)(rid \<mapsto> od_fromkeys hit_keys)\<rparr>)
         else (case finish_read hit_keys (st_l1 s) of (r, l) \<Rightarrow> (r, s\<lparr>st_l1 := l\<rparr>)))"

subsection \<open>One lookup\<close>

definition lookup_l2s :: "chunk_key list \<Rightarrow> adapter list \<Rightarrow> nat list" where
  "lookup_l2s missing l2s = (if missing = [] then [] else map (l2_lookup missing) l2s)"

text \<open>The loop over \<open>missing[:l2_hits]\<close> stops at the first key that gets no object.\<close>

fun reserve_load_loop :: "chunk_key list \<Rightarrow> nat \<Rightarrow> chunk_key list \<Rightarrow> mem_obj list \<Rightarrow> chunk_key l1
    \<Rightarrow> (chunk_key list \<times> mem_obj list) \<times> chunk_key l1" where
  "reserve_load_loop [] n load_keys objs l = ((load_keys, objs), l)"
| "reserve_load_loop (k # ks) n load_keys objs l =
     (case reserve_write [k] n True l of
        (res, l') \<Rightarrow>
          (case res k of
             Some (Some ob) \<Rightarrow> reserve_load_loop ks n (load_keys @ [k]) (objs @ [ob]) l'
           | _ \<Rightarrow> ((load_keys, objs), l')))"

definition reserve_load :: "chunk_key list \<Rightarrow> nat \<Rightarrow> nat \<Rightarrow> chunk_key l1
    \<Rightarrow> (chunk_key list \<times> mem_obj list) \<times> chunk_key l1" where
  "reserve_load missing l2_hits n l = reserve_load_loop (take l2_hits missing) n [] [] l"

definition set_pool :: "pool \<Rightarrow> 'k l1 \<Rightarrow> 'k l1" where
  "set_pool p l = l\<lparr>allocator := p\<rparr>"

text \<open>
  The loop over the adapters in the order \<open>is\<close>, best hit first.  An exception of an adapter
  leaves through \<open>result()\<close>.
\<close>

fun load_loop :: "nat list \<Rightarrow> adapter list \<Rightarrow> nat list \<Rightarrow> chunk_key list \<Rightarrow> mem_obj list \<Rightarrow> nat \<Rightarrow> pool
    \<Rightarrow> nat res \<times> pool" where
  "load_loop [] l2s hits load_keys objs loaded p = (Inr loaded, p)"
| "load_loop (i # is) l2s hits load_keys objs loaded p =
     (if loaded = length load_keys \<or> hits ! i \<le> loaded then (Inr loaded, p)
      else (case l2_load (drop loaded load_keys) (drop loaded objs) (l2s ! i) p of
              (Inl x, p') \<Rightarrow> (Inl x, p')
            | (Inr n, p') \<Rightarrow> load_loop is l2s hits load_keys objs (loaded + n) p'))"

text \<open>\<open>sorted(range(len(l2s)), key=lambda i: -l2_hits[i])\<close>; Python's sort is stable, as this is.\<close>

definition by_hits :: "nat \<Rightarrow> nat list \<Rightarrow> nat list" where
  "by_hits n hits = sort_key (\<lambda>i. - int (hits ! i)) [0..<n]"

definition load_from_l2s :: "chunk_key list \<Rightarrow> mem_obj list \<Rightarrow> nat list \<Rightarrow> adapter list \<Rightarrow> pool
    \<Rightarrow> nat res \<times> pool" where
  "load_from_l2s load_keys objs l2_hits l2s p =
     (if load_keys = [] then (Inr 0, p)
      else load_loop (by_hits (length l2s) l2_hits) l2s l2_hits load_keys objs 0 p)"

definition load_gbps :: "nat \<Rightarrow> nat \<Rightarrow> rat \<Rightarrow> rat res" where
  "load_gbps loaded chunk_nbytes elapsed =
     (if loaded = 0 then Inr 0
      else if elapsed = 0 then Inl ZeroDivisionError
      else Inr (of_nat (loaded * chunk_nbytes) / elapsed / 10 ^ 9))"

text \<open>\<open>max(l2_hits, default=0)\<close>\<close>

definition max_hits :: "nat list \<Rightarrow> nat" where
  "max_hits hits = (if hits = [] then 0 else Max (set hits))"

definition prefetch :: "rat \<Rightarrow> string \<Rightarrow> chunk_key list \<Rightarrow> nat option \<Rightarrow> storage \<Rightarrow> unit res \<times> storage" where
  "prefetch elapsed rid keys chunk_nbytes s =
     (case reserve_read_prefix keys (st_l1 s) of
        (l1_hits, l) \<Rightarrow>
          let missing = drop l1_hits keys
          in case chunk_nbytes of
               None \<Rightarrow> resolve rid (take l1_hits keys) [] 0 (s\<lparr>st_l1 := l\<rparr>)
             | Some n \<Rightarrow>
                 let l2_hits = lookup_l2s missing (st_l2s s)
                 in case reserve_load missing (max_hits l2_hits) n l of
                      ((load_keys, objs), l1) \<Rightarrow>
                        (case load_from_l2s load_keys objs l2_hits (st_l2s s) (allocator l1) of
                           (Inl x, p) \<Rightarrow> (Inl x, s\<lparr>st_l1 := set_pool p l1\<rparr>)
                         | (Inr loaded, p) \<Rightarrow>
                             (case finish_write_and_reserve_read (take loaded load_keys)
                                     (set_pool p l1) of
                                (Inl x, l2) \<Rightarrow> (Inl x, s\<lparr>st_l1 := l2\<rparr>)
                              | (Inr _, l2) \<Rightarrow>
                                  (case delete (drop loaded load_keys) True l2 of
                                     (Inl x, l3) \<Rightarrow> (Inl x, s\<lparr>st_l1 := l3\<rparr>)
                                   | (Inr _, l3) \<Rightarrow>
                                       (case load_gbps loaded n elapsed of
                                          Inl x \<Rightarrow> (Inl x, s\<lparr>st_l1 := l3\<rparr>)
                                        | Inr gbps \<Rightarrow>
                                            resolve rid (take l1_hits keys) (take loaded load_keys)
                                              gbps (s\<lparr>st_l1 := l3\<rparr>))))))"

text \<open>
  One turn of the worker thread: blocked (\<open>None\<close>) on an empty queue; an exception of a job is
  not caught and ends the thread.
\<close>

definition prefetch_turn :: "rat \<Rightarrow> storage \<Rightarrow> (unit res \<times> storage) option" where
  "prefetch_turn elapsed s =
     (case st_jobs s of
        [] \<Rightarrow> None
      | (rid, keys, n) # js \<Rightarrow> Some (prefetch elapsed rid keys n (s\<lparr>st_jobs := js\<rparr>)))"

end
