(* ===== verification/Hasher.thy ===== *)
theory Hasher
  imports Prelude
begin

text \<open>
  Prefix-chained chunk hashing of \<open>mini_llmcache/utils/hasher.py\<close>.  BLAKE3 is a third-party
  package: it is the parameter \<open>H\<close> from the hashed bytes to the digest;
  \<open>blake3(a); update(b); digest()\<close> is \<open>H (a @ b)\<close>.  What the theorems need of it is a
  hypothesis where they need it: digests have a fixed length, and no two of the messages
  hashed collide.
\<close>

subsection \<open>\<open>struct.pack(f">{len(tokens)}I", *tokens)\<close>\<close>

definition token_bytes :: "int \<Rightarrow> byte list" where
  "token_bytes t = [word_of_int (t div 2 ^ 24), word_of_int (t div 2 ^ 16),
                    word_of_int (t div 2 ^ 8), word_of_int t]"

definition pack_token :: "int \<Rightarrow> byte list res" where
  "pack_token t = (if 0 \<le> t \<and> t < 2 ^ 32 then Inr (token_bytes t) else Inl StructError)"

fun pack_tokens :: "int list \<Rightarrow> byte list res" where
  "pack_tokens [] = Inr []"
| "pack_tokens (t # ts) =
     (case pack_token t of
        Inl x \<Rightarrow> Inl x
      | Inr b \<Rightarrow> (case pack_tokens ts of Inl x \<Rightarrow> Inl x | Inr bs \<Rightarrow> Inr (b @ bs)))"

subsection \<open>\<open>hash_one\<close>, \<open>NONE_HASH\<close>, \<open>chunk_hashes\<close>\<close>

definition hash_one :: "(byte list \<Rightarrow> byte list) \<Rightarrow> byte list \<Rightarrow> int list \<Rightarrow> byte list res" where
  "hash_one H prefix_hash tokens =
     (case pack_tokens tokens of Inl x \<Rightarrow> Inl x | Inr bs \<Rightarrow> Inr (H (prefix_hash @ bs)))"

definition NONE_HASH :: "(byte list \<Rightarrow> byte list) \<Rightarrow> byte list" where
  "NONE_HASH H = projr (hash_one H (replicate 8 0) [0])"

fun chunk_loop :: "(byte list \<Rightarrow> byte list) \<Rightarrow> nat \<Rightarrow> int list \<Rightarrow> byte list \<Rightarrow> nat list
    \<Rightarrow> byte list list res" where
  "chunk_loop H chunk_size token_ids prefix_hash [] = Inr []"
| "chunk_loop H chunk_size token_ids prefix_hash (i # is) =
     (case hash_one H prefix_hash (slice i (i + chunk_size) token_ids) of
        Inl x \<Rightarrow> Inl x
      | Inr h \<Rightarrow>
          (case chunk_loop H chunk_size token_ids h is of
             Inl x \<Rightarrow> Inl x
           | Inr hashes \<Rightarrow> Inr (h # hashes)))"

definition chunk_hashes :: "(byte list \<Rightarrow> byte list) \<Rightarrow> int list \<Rightarrow> nat \<Rightarrow> byte list list res" where
  "chunk_hashes H token_ids chunk_size =
     (if chunk_size = 0 then Inl ZeroDivisionError
      else chunk_loop H chunk_size token_ids (NONE_HASH H)
             (range_step 0 (length token_ids - length token_ids mod chunk_size) chunk_size))"

subsection \<open>Packing\<close>

definition valid_tokens :: "int list \<Rightarrow> bool" where
  "valid_tokens ts \<longleftrightarrow> (\<forall>t \<in> set ts. 0 \<le> t \<and> t < 2 ^ 32)"

definition packed :: "int list \<Rightarrow> byte list" where
  "packed ts = concat (map token_bytes ts)"

definition valid_token :: "int \<Rightarrow> bool" where
  "valid_token t \<longleftrightarrow> 0 \<le> t \<and> t < 2 ^ 32"

lemma valid_tokens_simps [simp]:
  "valid_tokens []" "valid_tokens (t # ts) \<longleftrightarrow> valid_token t \<and> valid_tokens ts"
  by (auto simp: valid_tokens_def valid_token_def)

lemma packed_simps [simp]: "packed [] = []" "packed (t # ts) = token_bytes t @ packed ts"
  by (simp_all add: packed_def)

lemma pack_token_valid [simp]: "valid_token t \<Longrightarrow> pack_token t = Inr (token_bytes t)"
  unfolding valid_token_def pack_token_def by (rule if_P)

lemma pack_token_invalid [simp]: "\<not> valid_token t \<Longrightarrow> pack_token t = Inl StructError"
  unfolding valid_token_def pack_token_def by (rule if_not_P)

lemma length_token_bytes [simp]: "length (token_bytes t) = 4"
  by (simp add: token_bytes_def)

lemma valid_tokens_take [intro]: "valid_tokens ts \<Longrightarrow> valid_tokens (take n ts)"
  unfolding valid_tokens_def by (meson in_set_takeD)

lemma valid_tokens_slice [intro]: "valid_tokens ts \<Longrightarrow> valid_tokens (slice a b ts)"
  unfolding valid_tokens_def using set_slice by (meson subsetD)

lemma pack_tokens_valid: "valid_tokens ts \<Longrightarrow> pack_tokens ts = Inr (packed ts)"
  by (induction ts) auto

lemma pack_tokens_invalid: "\<not> valid_tokens ts \<Longrightarrow> pack_tokens ts = Inl StructError"
proof (induction ts)
  case Nil
  then show ?case by simp
next
  case (Cons t ts)
  then show ?case by (cases "valid_token t") auto
qed

lemma length_packed [simp]: "length (packed ts) = 4 * length ts"
  by (induction ts) auto

lemma word8_eq_mod: "(word_of_int a :: byte) = word_of_int b \<longleftrightarrow> a mod 256 = b mod 256"
  by (simp add: word_of_int_eq_iff take_bit_eq_mod)

lemma digits_base256:
  fixes a b :: int
  assumes "0 \<le> a" "a < 2 ^ 32" "0 \<le> b" "b < 2 ^ 32"
    and "a div 2 ^ 24 mod 256 = b div 2 ^ 24 mod 256" "a div 2 ^ 16 mod 256 = b div 2 ^ 16 mod 256"
    and "a div 2 ^ 8 mod 256 = b div 2 ^ 8 mod 256" "a mod 256 = b mod 256"
  shows "a = b"
proof -
  have rec: "x = y" if "x div 256 = y div 256" "x mod 256 = y mod 256" for x y :: int
    using that by (metis div_mult_mod_eq)
  have dd: "x div 2 ^ 16 div 256 = x div 2 ^ 24" "x div 2 ^ 8 div 256 = x div 2 ^ 16"
    "x div 256 = x div 2 ^ 8" for x :: int
    by (simp_all add: zdiv_zmult2_eq [symmetric])
  have "a div 2 ^ 24 < 256" "b div 2 ^ 24 < 256" "0 \<le> a div 2 ^ 24" "0 \<le> b div 2 ^ 24"
    using assms(1-4) by (simp_all add: div_less_iff_less_mult)
  then have "a div 2 ^ 24 = b div 2 ^ 24" using assms(5) by (simp add: mod_pos_pos_trivial)
  then have "a div 2 ^ 16 = b div 2 ^ 16" using rec assms(6) dd(1) by metis
  then have "a div 2 ^ 8 = b div 2 ^ 8" using rec assms(7) dd(2) by metis
  then show "a = b" using rec assms(8) dd(3) by metis
qed

lemma token_bytes_inj:
  "valid_token a \<Longrightarrow> valid_token b \<Longrightarrow> token_bytes a = token_bytes b \<Longrightarrow> a = b"
  by (rule digits_base256) (simp_all only: valid_token_def token_bytes_def list.inject word8_eq_mod)

lemma packed_inj:
  "valid_tokens xs \<Longrightarrow> valid_tokens ys \<Longrightarrow> packed xs = packed ys \<Longrightarrow> xs = ys"
proof (induction xs arbitrary: ys)
  case Nil
  then have "length (packed ys) = 0" by simp
  then show ?case by simp
next
  case (Cons x xs)
  then have "length (packed (x # xs)) = length (packed ys)" by simp
  then obtain y ys' where ys: "ys = y # ys'" by (cases ys) auto
  with Cons.prems have "token_bytes x = token_bytes y" and "packed xs = packed ys'"
    by auto
  with Cons ys show ?case by (auto dest: token_bytes_inj)
qed

subsection \<open>The chain\<close>

text \<open>The hash after the first \<open>i\<close> chunks, and the message that is hashed for chunk \<open>i\<close>.\<close>

definition chunk_of :: "int list \<Rightarrow> nat \<Rightarrow> nat \<Rightarrow> int list" where
  "chunk_of ts cs i = slice (i * cs) (i * cs + cs) ts"

fun chain :: "(byte list \<Rightarrow> byte list) \<Rightarrow> int list \<Rightarrow> nat \<Rightarrow> nat \<Rightarrow> byte list" where
  "chain H ts cs 0 = NONE_HASH H"
| "chain H ts cs (Suc i) = H (chain H ts cs i @ packed (chunk_of ts cs i))"

definition chain_msg :: "(byte list \<Rightarrow> byte list) \<Rightarrow> int list \<Rightarrow> nat \<Rightarrow> nat \<Rightarrow> byte list" where
  "chain_msg H ts cs i = chain H ts cs i @ packed (chunk_of ts cs i)"

definition none_msg :: "byte list" where
  "none_msg = replicate 8 0 @ packed [0]"

lemma NONE_HASH_eq: "NONE_HASH H = H none_msg"
  by (simp add: NONE_HASH_def hash_one_def pack_tokens_valid none_msg_def valid_token_def)

lemma hash_one_valid: "valid_tokens ts \<Longrightarrow> hash_one H p ts = Inr (H (p @ packed ts))"
  by (simp add: hash_one_def pack_tokens_valid)

lemma chunk_loop_valid:
  "valid_tokens ts \<Longrightarrow>
   chunk_loop H cs ts (chain H ts cs i) (map (\<lambda>j. j * cs) [i..<i + n]) =
     Inr (map (\<lambda>j. chain H ts cs (Suc j)) [i..<i + n])"
proof (induction n arbitrary: i)
  case 0
  then show ?case by simp
next
  case (Suc n)
  have "hash_one H (chain H ts cs i) (slice (i * cs) (i * cs + cs) ts) = Inr (chain H ts cs (Suc i))"
    using Suc.prems by (simp add: hash_one_valid valid_tokens_slice chunk_of_def)
  with Suc.IH [of "Suc i"] Suc.prems show ?case by (simp add: upt_conv_Cons del: upt_Suc chain.simps)
qed

lemma chunk_hashes_eq:
  assumes "valid_tokens ts" and "0 < cs"
  shows "chunk_hashes H ts cs = Inr (map (\<lambda>i. chain H ts cs (Suc i)) [0..<length ts div cs])"
  using chunk_loop_valid [OF assms(1), of H cs 0 "length ts div cs"] assms(2)
  by (simp add: chunk_hashes_def range_step_whole del: chain.simps(2))

lemma slice_take_eq: "take n xs = take n ys \<Longrightarrow> b \<le> n \<Longrightarrow> slice a b xs = slice a b ys"
  by (metis slice_take)

lemma chain_prefix: "take (i * cs) xs = take (i * cs) ys \<Longrightarrow> chain H xs cs i = chain H ys cs i"
proof (induction i)
  case 0
  then show ?case by simp
next
  case (Suc i)
  have "take (i * cs) (take (Suc i * cs) xs) = take (i * cs) (take (Suc i * cs) ys)"
    using Suc.prems by simp
  then have "take (i * cs) xs = take (i * cs) ys" by (simp add: min_def)
  moreover have "chunk_of xs cs i = chunk_of ys cs i"
    unfolding chunk_of_def using Suc.prems by (intro slice_take_eq) auto
  ultimately show ?case using Suc.IH by simp
qed

lemma length_chunk_of: "(i + 1) * cs \<le> length ts \<Longrightarrow> length (chunk_of ts cs i) = cs"
  by (simp add: chunk_of_def)

lemma take_Suc_chunk: "take (Suc i * cs) ts = take (i * cs) ts @ chunk_of ts cs i"
  by (simp add: chunk_of_def slice_def add.commute [of cs] take_add)

subsection \<open>Closed form\<close>

lemma chunk_hashes_closed:
  "chunk_hashes H ts cs =
    (if cs = 0 then Inl ZeroDivisionError
     else if valid_tokens (take (length ts div cs * cs) ts)
       then Inr (map (\<lambda>i. chain H ts cs (Suc i)) [0..<length ts div cs])
     else Inl StructError)"
proof (cases "cs = 0")
  case True
  then show ?thesis by (simp add: chunk_hashes_def)
next
  case False
  let ?n = "length ts div cs" let ?m = "?n * cs"
  have loop: "chunk_hashes H ts cs = chunk_loop H cs ts (chain H ts cs 0) (map (\<lambda>j. j * cs) [0..<?n])"
    using False by (simp add: chunk_hashes_def range_step_whole)
  have ok: "chunk_loop H cs ts (chain H ts cs i) (map (\<lambda>j. j * cs) [i..<?n]) =
      (if valid_tokens (slice (i * cs) ?m ts) then Inr (map (\<lambda>i. chain H ts cs (Suc i)) [i..<?n])
       else Inl StructError)" if "i \<le> ?n" for i
    using that
  proof (induction "?n - i" arbitrary: i)
    case 0
    then show ?case by (simp add: slice_def)
  next
    case (Suc d)
    then have i: "i < ?n" by simp
    have le: "i * cs + cs \<le> ?m" using i by (metis Suc_leI add.commute mult_Suc mult_le_mono1)
    have sp: "slice (i * cs) ?m ts = chunk_of ts cs i @ slice (Suc i * cs) ?m ts"
      unfolding chunk_of_def using slice_append [of "i * cs" "i * cs + cs" ?m ts] le
      by (simp add: add.commute)
    have va: "valid_tokens (xs @ ys) \<longleftrightarrow> valid_tokens xs \<and> valid_tokens ys" for xs ys
      by (auto simp: valid_tokens_def)
    show ?case
    proof (cases "valid_tokens (chunk_of ts cs i)")
      case False
      then have "hash_one H (chain H ts cs i) (slice (i * cs) (i * cs + cs) ts) = Inl StructError"
        by (simp add: hash_one_def pack_tokens_invalid chunk_of_def)
      with i False sp show ?thesis by (simp add: upt_conv_Cons va del: upt_Suc)
    next
      case True
      then have "hash_one H (chain H ts cs i) (slice (i * cs) (i * cs + cs) ts) = Inr (chain H ts cs (Suc i))"
        by (simp add: hash_one_valid chunk_of_def)
      moreover have "d = ?n - Suc i" "Suc i \<le> ?n" using Suc i by simp_all
      ultimately show ?thesis using Suc.hyps(1) [of "Suc i"] i True sp
        by (simp add: upt_conv_Cons va del: upt_Suc chain.simps)
    qed
  qed
  show ?thesis using loop ok [of 0] False by (simp del: chain.simps)
qed

lemma chunk_hashes_InrD:
  assumes "chunk_hashes H ts cs = Inr hs"
  shows "0 < cs" and "valid_tokens (take (length ts div cs * cs) ts)"
    and "hs = map (\<lambda>i. chain H ts cs (Suc i)) [0..<length ts div cs]"
  using assms by (auto simp: chunk_hashes_closed simp del: chain.simps split: if_splits)

lemma chunk_hashes_take:
  assumes "chunk_hashes H ts cs = Inr hs"
  shows "chunk_hashes H (take e ts) cs = Inr (take (e div cs) hs)"
proof -
  let ?n = "min (length ts) e div cs"
  note d = chunk_hashes_InrD [OF assms]
  have n: "?n = min (length ts div cs) (e div cs)" using div_le_mono [of e "length ts" cs] div_le_mono [of "length ts" e cs] by (auto simp: min_def)
  have le: "?n * cs \<le> e" "?n * cs \<le> length ts div cs * cs"
    unfolding n by (metis div_times_less_eq_dividend le_trans min.cobounded2 mult_le_mono1) simp
  have "take (?n * cs) (take e ts) = take (?n * cs) (take (length ts div cs * cs) ts)" using le by (simp add: min_def)
  then have v: "valid_tokens (take (?n * cs) (take e ts))" using valid_tokens_take [OF d(2)] by simp
  have "chain H (take e ts) cs (Suc i) = chain H ts cs (Suc i)" if "i < ?n" for i
  proof (rule chain_prefix)
    have "Suc i * cs \<le> ?n * cs" using that by (intro mult_le_mono1) simp
    from order_trans [OF this le(1)] show "take (Suc i * cs) (take e ts) = take (Suc i * cs) ts" by (simp add: min_def)
  qed
  moreover have "take (e div cs) [0..<length ts div cs] = [0..<?n]" unfolding n by (simp add: min_def)
  ultimately have "take (e div cs) hs = map (\<lambda>i. chain H (take e ts) cs (Suc i)) [0..<?n]"
    by (simp add: d(3) take_map del: chain.simps)
  then show ?thesis using v d(1) by (simp add: chunk_hashes_closed del: chain.simps)
qed

subsection \<open>Properties\<close>

text \<open>
  C19. The hashes are the chain: one per whole chunk, each the hash of the previous one followed
  by the chunk's tokens as 4-byte big-endian words; a trailing partial chunk does not count.  A
  token that does not fit 32 bits in a whole chunk makes the call raise, and so does chunk
  size 0; tokens beyond the last whole chunk are never looked at.
\<close>

theorem chunk_hashes_correct:
  "chunk_hashes H ts cs =
    (if cs = 0 then Inl ZeroDivisionError
     else if valid_tokens (take (length ts div cs * cs) ts)
       then Inr (map (\<lambda>i. chain H ts cs (Suc i)) [0..<length ts div cs])
     else Inl StructError)"
  by (rule chunk_hashes_closed)

text \<open>
  Sharing: two prompts with a common prefix of \<open>k\<close> whole chunks get the same first \<open>k\<close>
  hashes, whatever follows.
\<close>

theorem chunk_hashes_share_prefix:
  assumes "chunk_hashes H xs cs = Inr hs" and "chunk_hashes H ys cs = Inr gs"
    and "take (k * cs) xs = take (k * cs) ys" and "k \<le> length hs" and "k \<le> length gs"
  shows "take k hs = take k gs"
proof -
  have cs: "0 < cs" using assms(1) by (cases "cs = 0") (auto simp: chunk_hashes_def)
  have hs: "hs = map (\<lambda>i. chain H xs cs (Suc i)) [0..<length xs div cs]"
    and gs: "gs = map (\<lambda>i. chain H ys cs (Suc i)) [0..<length ys div cs]"
    using assms(1,2) chunk_hashes_closed [of H xs cs] chunk_hashes_closed [of H ys cs] cs
    by (auto split: if_splits)
  have "chain H xs cs (Suc i) = chain H ys cs (Suc i)" if "i < k" for i
  proof (rule chain_prefix)
    have "Suc i * cs \<le> k * cs" using that by (intro mult_le_mono1) simp
    then show "take (Suc i * cs) xs = take (Suc i * cs) ys"
      using assms(3) by (metis min.absorb1 take_take)
  qed
  moreover have "k \<le> length xs div cs \<Longrightarrow> take k hs = map (\<lambda>i. chain H xs cs (Suc i)) [0..<k]"
    by (simp add: hs take_map del: chain.simps)
  moreover have "k \<le> length ys div cs \<Longrightarrow> take k gs = map (\<lambda>i. chain H ys cs (Suc i)) [0..<k]"
    by (simp add: gs take_map del: chain.simps)
  ultimately show ?thesis using assms(4,5) by (simp add: hs gs del: chain.simps)
qed

lemma chain_inj:
  assumes dig: "\<forall>m. length (H m) = 32" and vx: "valid_tokens (take (n * cs) xs)"
    and vy: "valid_tokens (take (n' * cs) ys)" and lx: "n * cs \<le> length xs" and ly: "n' * cs \<le> length ys"
    and inj: "inj_on H (insert none_msg (chain_msg H xs cs ` {..<n} \<union> chain_msg H ys cs ` {..<n'}))"
  shows "i \<le> n \<Longrightarrow> j \<le> n' \<Longrightarrow> chain H xs cs i = chain H ys cs j \<Longrightarrow>
    i = j \<and> take (i * cs) xs = take (i * cs) ys"
proof (induction i arbitrary: j)
  have len: "length (chain H ts cs k) = 32" for ts k using dig by (cases k) (simp_all add: NONE_HASH_eq)
  have n12: "length none_msg = 12" by (simp add: none_msg_def)
  {
    case 0
    show ?case
    proof (cases j)
      case 0
      then show ?thesis by simp
    next
      case (Suc j')
      then have "H none_msg = H (chain_msg H ys cs j')" and "j' < n'"
        using "0.prems" by (simp_all add: NONE_HASH_eq chain_msg_def)
      then have "none_msg = chain_msg H ys cs j'" by - (rule inj_onD [OF inj], simp_all)
      then have "length none_msg = length (chain_msg H ys cs j')" by (rule arg_cong)
      then have False using len n12 by (simp add: chain_msg_def)
      then show ?thesis ..
    qed
  next
    case (Suc i)
    show ?case
    proof (cases j)
      case 0
      then have "H none_msg = H (chain_msg H xs cs i)" and "i < n"
        using Suc.prems by (simp_all add: NONE_HASH_eq chain_msg_def)
      then have "none_msg = chain_msg H xs cs i" by - (rule inj_onD [OF inj], simp_all)
      then have "length none_msg = length (chain_msg H xs cs i)" by (rule arg_cong)
      then have False using len n12 by (simp add: chain_msg_def)
      then show ?thesis ..
    next
      case (Suc j')
      have ij: "i < n" "j' < n'" using Suc.prems Suc by simp_all
      have "H (chain_msg H xs cs i) = H (chain_msg H ys cs j')"
        using Suc.prems(3) Suc by (simp add: chain_msg_def)
      then have "chain_msg H xs cs i = chain_msg H ys cs j'"
        using ij by - (rule inj_onD [OF inj], simp_all)
      then have c: "chain H xs cs i = chain H ys cs j'"
        and p: "packed (chunk_of xs cs i) = packed (chunk_of ys cs j')"
        using len by (simp_all add: chain_msg_def)
      from Suc.IH [OF _ _ c] ij have IH: "i = j'" "take (i * cs) xs = take (i * cs) ys" by auto
      have v: "valid_tokens (chunk_of ts cs k)" if "valid_tokens (take (m * cs) ts)" "k < m" for ts k m
      proof -
        have "k * cs + cs \<le> m * cs" using that(2) by (metis Suc_leI add.commute mult_Suc mult_le_mono1)
        then have "chunk_of ts cs k = slice (k * cs) (k * cs + cs) (take (m * cs) ts)"
          by (simp add: chunk_of_def slice_take)
        then show ?thesis using that(1) by (simp add: valid_tokens_slice)
      qed
      from packed_inj [OF v [OF vx ij(1)] v [OF vy ij(2)] p]
      have "chunk_of xs cs i = chunk_of ys cs j'" .
      with IH Suc show ?thesis by (simp only: take_Suc_chunk)
    qed
  }
qed

text \<open>
  C20. A chunk hash identifies the whole token prefix: if BLAKE3 does not collide on the messages
  hashed for two prompts (its digests have 32 bytes), then equal hashes at positions \<open>i\<close> and
  \<open>j\<close> mean that the positions are the same and all tokens up to the end of that chunk agree.
  So a cache hit is never for other tokens, and never for the same tokens at another position.
\<close>

theorem chunk_hash_identifies_prefix:
  assumes "\<forall>m. length (H m) = 32"
    and "inj_on H (insert none_msg (chain_msg H xs cs ` {..<length xs div cs}
                                    \<union> chain_msg H ys cs ` {..<length ys div cs}))"
    and "chunk_hashes H xs cs = Inr hs" and "chunk_hashes H ys cs = Inr gs"
    and "i < length hs" and "j < length gs" and "hs ! i = gs ! j"
  shows "i = j \<and> take ((i + 1) * cs) xs = take ((i + 1) * cs) ys"
proof -
  have hx: "valid_tokens (take (length xs div cs * cs) xs)"
    "hs = map (\<lambda>i. chain H xs cs (Suc i)) [0..<length xs div cs]"
    and hy: "valid_tokens (take (length ys div cs * cs) ys)"
    "gs = map (\<lambda>i. chain H ys cs (Suc i)) [0..<length ys div cs]"
    using assms(3,4) chunk_hashes_closed [of H xs cs] chunk_hashes_closed [of H ys cs]
    by (auto split: if_splits)
  have "chain H xs cs (Suc i) = chain H ys cs (Suc j)"
    using assms(5-7) by (simp add: hx(2) hy(2) del: chain.simps)
  from chain_inj [OF assms(1) hx(1) hy(1) _ _ assms(2) _ _ this] assms(5,6)
  have "Suc i = Suc j \<and> take (Suc i * cs) xs = take (Suc i * cs) ys"
    unfolding hx(2) hy(2) by auto
  then show ?thesis by (metis Suc_eq_plus1 nat.inject)
qed

definition demo_H :: "byte list \<Rightarrow> byte list" where
  "demo_H m = replicate 30 0 @ [last m, of_nat (length m)]"

lemma chunk_hash_identifies_prefix_witness:
  "projr (chunk_hashes demo_H [5, 1] 1) ! 0 = projr (chunk_hashes demo_H [5, 2] 1) ! 0
    \<and> take 1 [5, 1 :: int] = take 1 [5, 2]"
proof -
  let ?xs = "[5, 1 :: int]" and ?ys = "[5, 2 :: int]"
  define hs where "hs = projr (chunk_hashes demo_H ?xs 1)"
  define gs where "gs = projr (chunk_hashes demo_H ?ys 1)"
  have "(case chunk_hashes demo_H ?xs 1 of Inr l \<Rightarrow> length l = 2 | Inl _ \<Rightarrow> False)"
    and "(case chunk_hashes demo_H ?ys 1 of Inr l \<Rightarrow> length l = 2 | Inl _ \<Rightarrow> False)" by code_simp+
  then have h: "chunk_hashes demo_H ?xs 1 = Inr hs" "chunk_hashes demo_H ?ys 1 = Inr gs"
    "length hs = 2" "length gs = 2"
    by (auto simp: hs_def gs_def split: sum.splits)
  have eq: "hs ! 0 = gs ! 0" unfolding hs_def gs_def by code_simp
  let ?ms = "[none_msg, chain_msg demo_H ?xs 1 0, chain_msg demo_H ?xs 1 1, chain_msg demo_H ?ys 1 1]"
  have "distinct (map demo_H ?ms)" by code_simp
  then have "inj_on demo_H (set ?ms)" by (simp only: distinct_map)
  moreover have "chain_msg demo_H ?ys 1 0 = chain_msg demo_H ?xs 1 0" by code_simp
  moreover have "{..<length ?xs div 1} = {0, 1}" "{..<length ?ys div 1} = {0, 1}" by auto
  ultimately have inj: "inj_on demo_H (insert none_msg (chain_msg demo_H ?xs 1 ` {..<length ?xs div 1}
      \<union> chain_msg demo_H ?ys 1 ` {..<length ?ys div 1}))"
    by (simp add: insert_commute)
  have "\<forall>m. length (demo_H m) = 32" by (simp add: demo_H_def)
  from chunk_hash_identifies_prefix [OF this inj h(1,2), of 0 0] h eq show ?thesis
    by (simp add: hs_def gs_def)
qed

end
