(* ===== verification/Server.thy ===== *)
theory Server
  imports Prefetch Hasher
begin

text \<open>
  The request handlers of \<open>CacheServer\<close> (\<open>mini_llmcache/server.py\<close>), one function per
  handler on the server's state.  The hash function is the parameter \<open>H\<close>.  The log lines are
  not modelled, but the divisions they evaluate are, where they can raise.
\<close>

record engine_instance =
  ei_rank :: int
  ei_model :: string
  ei_world_size :: nat
  ei_block_size :: nat
  ei_chunk_nbytes :: nat

record server =
  sv_chunk_size :: nat
  sv_sm :: storage
  sv_deployments :: "string \<times> nat \<rightharpoonup> nat"
  sv_instances :: "int \<rightharpoonup> engine_instance"

definition CacheServer :: "nat \<Rightarrow> byte list \<Rightarrow> adapter list \<Rightarrow> server" where
  "CacheServer chunk_size mem l2s =
     \<lparr>sv_chunk_size = chunk_size, sv_sm = StorageManager mem l2s,
      sv_deployments = Map.empty, sv_instances = Map.empty\<rparr>"

definition get_chunk_size :: "server \<Rightarrow> nat" where
  "get_chunk_size sv = sv_chunk_size sv"

definition register :: "register_payload \<Rightarrow> server \<Rightarrow> bool \<times> server" where
  "register pl sv =
     (True, sv\<lparr>sv_deployments := (sv_deployments sv)((rp_model pl, rp_world_size pl) \<mapsto> rp_chunk_nbytes pl),
               sv_instances := (sv_instances sv)(rp_instance_id pl \<mapsto>
                 \<lparr>ei_rank = rp_rank pl, ei_model = rp_model pl, ei_world_size = rp_world_size pl,
                  ei_block_size = rp_block_size pl, ei_chunk_nbytes = rp_chunk_nbytes pl\<rparr>)\<rparr>)"

definition unregister :: "int \<Rightarrow> server \<Rightarrow> bool \<times> server" where
  "unregister iid sv =
     (sv_instances sv iid \<noteq> None, sv\<lparr>sv_instances := (sv_instances sv)(iid := None)\<rparr>)"

subsection \<open>Chunk keys\<close>

definition keys_for :: "byte list list \<Rightarrow> string \<Rightarrow> int list \<Rightarrow> chunk_key list" where
  "keys_for hashes model ranks =
     concat (map (\<lambda>h. map (\<lambda>r. ChunkKey h model r) ranks) hashes)"

definition op_keys :: "(byte list \<Rightarrow> byte list) \<Rightarrow> load_store_op \<Rightarrow> engine_instance \<Rightarrow> server
    \<Rightarrow> chunk_key list res" where
  "op_keys H op inst sv =
     (case chunk_hashes H (take (op_end op) (op_token_ids op)) (sv_chunk_size sv) of
        Inl x \<Rightarrow> Inl x
      | Inr hashes \<Rightarrow>
          Inr (keys_for (drop (op_start op div sv_chunk_size sv) hashes) (ei_model inst) [ei_rank inst]))"

text \<open>\<open>range(n)\<close> as rank numbers\<close>

definition ranks_upto :: "nat \<Rightarrow> int list" where
  "ranks_upto n = map int [0..<n]"

subsection \<open>Lookup, query, locks, sessions\<close>

definition lookup :: "(byte list \<Rightarrow> byte list) \<Rightarrow> lookup_payload \<Rightarrow> server \<Rightarrow> bool res \<times> server" where
  "lookup H pl sv =
     (let chunk_nbytes = sv_deployments sv (lp_model pl, lp_world_size pl);
          keys = (if chunk_nbytes = None then Inr []
                  else case chunk_hashes H (lp_token_ids pl) (sv_chunk_size sv) of
                         Inl x \<Rightarrow> Inl x
                       | Inr hashes \<Rightarrow> Inr (keys_for hashes (lp_model pl) (ranks_upto (lp_world_size pl))))
      in case keys of
           Inl x \<Rightarrow> (Inl x, sv)
         | Inr ks \<Rightarrow>
             (Inr True, sv\<lparr>sv_sm := start_session (lp_request_id pl) ks chunk_nbytes (sv_sm sv)\<rparr>))"

definition server_query :: "query_payload \<Rightarrow> server \<Rightarrow> nat option res" where
  "server_query pl sv =
     (case query (qp_request_id pl) (sv_sm sv) of
        None \<Rightarrow> Inr None
      | Some (l1_keys, l2_keys, _) \<Rightarrow>
          if qp_world_size pl = 0 then Inl ZeroDivisionError
          else Inr (Some ((l1_keys + l2_keys) div qp_world_size pl * sv_chunk_size sv)))"

definition free_locks :: "free_locks_payload \<Rightarrow> server \<Rightarrow> bool res \<times> server" where
  "free_locks pl sv =
     (case release_first (fp_request_id pl) (fp_num_chunks pl * fp_world_size pl) (sv_sm sv) of
        (Inl x, s) \<Rightarrow> (Inl x, sv\<lparr>sv_sm := s\<rparr>)
      | (Inr _, s) \<Rightarrow> (Inr True, sv\<lparr>sv_sm := s\<rparr>))"

definition server_end_session :: "string \<Rightarrow> server \<Rightarrow> bool res \<times> server" where
  "server_end_session rid sv =
     (case end_session rid (sv_sm sv) of
        (Inl x, s) \<Rightarrow> (Inl x, sv\<lparr>sv_sm := s\<rparr>)
      | (Inr _, s) \<Rightarrow> (Inr True, sv\<lparr>sv_sm := s\<rparr>))"

subsection \<open>Store\<close>

text \<open>
  \<open>for chunk, key in enumerate(keys)\<close>: the keys that were reserved and have a chunk in the
  payload, with their object and their bytes.
\<close>

fun store_plan :: "(chunk_key \<rightharpoonup> mem_obj option) \<Rightarrow> byte list list \<Rightarrow> nat \<Rightarrow> chunk_key list
    \<Rightarrow> (chunk_key \<times> mem_obj \<times> byte list) list" where
  "store_plan reserved chunks chunk [] = []"
| "store_plan reserved chunks chunk (k # keys) =
     (case reserved k of
        Some (Some ob) \<Rightarrow>
          if chunk < length chunks
          then (k, ob, chunks ! chunk) # store_plan reserved chunks (Suc chunk) keys
          else store_plan reserved chunks (Suc chunk) keys
      | _ \<Rightarrow> store_plan reserved chunks (Suc chunk) keys)"

fun write_blobs :: "(mem_obj \<times> byte list) list \<Rightarrow> pool \<Rightarrow> unit res \<times> pool" where
  "write_blobs [] p = (Inr (), p)"
| "write_blobs ((ob, blob) # rest) p =
     (case write_obj ob blob p of Inl x \<Rightarrow> (Inl x, p) | Inr p' \<Rightarrow> write_blobs rest p')"

definition set_l1 :: "chunk_key l1 \<Rightarrow> server \<Rightarrow> server" where
  "set_l1 l sv = sv\<lparr>sv_sm := (sv_sm sv)\<lparr>st_l1 := l\<rparr>\<rparr>"

definition store :: "(byte list \<Rightarrow> byte list) \<Rightarrow> transfer_payload \<Rightarrow> server \<Rightarrow> bool res \<times> server" where
  "store H pl sv =
     (case sv_instances sv (tp_instance_id pl) of
        None \<Rightarrow> (Inl KeyError, sv)
      | Some inst \<Rightarrow>
          (case op_keys H (tp_op pl) inst sv of
             Inl x \<Rightarrow> (Inl x, sv)
           | Inr keys \<Rightarrow>
               (case reserve_write keys (ei_chunk_nbytes inst) False (st_l1 (sv_sm sv)) of
                  (reserved, l1) \<Rightarrow>
                    let plan = store_plan reserved (tp_chunks pl) 0 keys
                    in case write_blobs (map snd plan) (allocator l1) of
                         (Inl x, p) \<Rightarrow> (Inl x, set_l1 (set_pool p l1) sv)
                       | (Inr _, p) \<Rightarrow>
                           (case finish_write (map fst plan) (set_pool p l1) of
                              (Inl x, l2) \<Rightarrow> (Inl x, set_l1 l2 sv)
                            | (Inr _, l2) \<Rightarrow> (Inr True, set_l1 l2 sv)))))"

subsection \<open>Retrieve\<close>

text \<open>
  The handler returns views of the chunks and the callback \<open>post_send\<close>; the transport sends
  the views while the locks are held and then calls it.
\<close>

definition retrieve :: "(byte list \<Rightarrow> byte list) \<Rightarrow> transfer_payload \<Rightarrow> server
    \<Rightarrow> (mem_obj list \<times> chunk_key list) res" where
  "retrieve H pl sv =
     (case sv_instances sv (tp_instance_id pl) of
        None \<Rightarrow> Inl KeyError
      | Some inst \<Rightarrow>
          (case op_keys H (tp_op pl) inst sv of
             Inl x \<Rightarrow> Inl x
           | Inr keys \<Rightarrow>
               (case read keys (st_l1 (sv_sm sv)) of
                  Inl x \<Rightarrow> Inl x
                | Inr objs \<Rightarrow>
                    if ei_world_size inst = 0 then Inl ZeroDivisionError else Inr (objs, keys))))"

definition post_send :: "string \<Rightarrow> chunk_key list \<Rightarrow> server \<Rightarrow> unit res \<times> server" where
  "post_send rid keys sv =
     (case release rid (Some keys) ((sv_sm sv)\<lparr>st_l1 := promote keys (st_l1 (sv_sm sv))\<rparr>) of
        (r, s) \<Rightarrow> (r, sv\<lparr>sv_sm := s\<rparr>))"

text \<open>The bytes of the views at the time of the send.\<close>

definition sent_chunks :: "mem_obj list \<Rightarrow> server \<Rightarrow> byte list list" where
  "sent_chunks objs sv = map (read_obj (allocator (st_l1 (sv_sm sv)))) objs"

definition ack :: "ack_payload \<Rightarrow> server \<Rightarrow> bool" where
  "ack pl sv = True"

end
