(* ===== verification/Store_Controller.thy ===== *)
theory Store_Controller
  imports Storage
begin

text \<open>
  \<open>StoreController.run\<close> of \<open>mini_llmcache/l1/store_controller.py\<close>: one turn takes the
  oldest batch of finished writes, reads what of it is still readable under a read hold,
  stores that in every adapter and gives the holds back.  \<open>None\<close> is a blocked turn.
\<close>

definition objs_for :: "('k \<rightharpoonup> mem_obj option) \<Rightarrow> 'k list \<Rightarrow> mem_obj list" where
  "objs_for reserved ks = map (\<lambda>k. the (the (reserved k))) ks"

definition store_turn :: "storage \<Rightarrow> (unit res \<times> storage) option" where
  "store_turn s =
     (case store_pending (listeners (st_l1 s)) of
        [] \<Rightarrow> None
      | keys # rest \<Rightarrow>
          let l = (st_l1 s)\<lparr>listeners := set_store_pending rest (listeners (st_l1 s))\<rparr>
          in case reserve_read keys l of
               (reserved, l1) \<Rightarrow>
                 let locked = filter (\<lambda>k. reserved k \<noteq> Some None) keys
                 in if locked = [] then Some (Inr (), s\<lparr>st_l1 := l1\<rparr>)
                    else
                      let objs = objs_for reserved locked;
                          l2s = map (l2_store locked objs (allocator l1)) (st_l2s s)
                      in (case finish_read locked l1 of
                            (r, l2) \<Rightarrow> Some (r, s\<lparr>st_l1 := l2, st_l2s := l2s\<rparr>)))"

end
