(* ===== verification/Server_Threads.thy ===== *)
theory Server_Threads
  imports Server Store_Controller
begin

text \<open>
  The threads of the cache server and where they can interleave.  \<open>MQServer\<close> runs every request in
  a thread of its own (\<open>mq.py\<close>), next to the prefetch worker, the store controller and the evictor.
  A thread is interrupted between the regions guarded by \<open>L1Manager.lock\<close> or
  \<open>PrefetchController.lock\<close>, and between single writes to or reads from the memory of the pool; a
  \<open>task\<close> is what a thread still has to do at such a point, \<open>advance\<close> its next atomic step.

  What the adapters answer is left open here: how many keys they find and load, which bytes they write
  into the slots they are given, by assignment (\<open>Fill\<close>) or by \<open>readinto\<close> (\<open>Fill_front\<close>), and whether
  they fail, is the argument \<open>choice\<close> of the step, as are the victims of the LRU policy, which
  are picked without the manager's lock, and the seconds a load took.  A thread whose call raises ends, with
  what it has done so far; one that raises before it touches the storage (an engine that is not registered, a
  payload of another class) is a \<open>Reject\<close>.
\<close>

subsection \<open>Tasks\<close>

datatype task =
    Reject exn
  | Lookup_start string "chunk_key list" "nat option"
  | Lookup_put string "chunk_key list" "nat option"
  | Store_reserve "chunk_key list" nat "byte list list"
  | Store_write "(mem_obj \<times> byte list) list" "chunk_key list"
  | Retrieve_read string "chunk_key list" nat
  | Retrieve_send string "chunk_key list" "mem_obj list"
  | Retrieve_promote string "chunk_key list"
  | Free_first string nat
  | Release string "chunk_key list option" bool
  | Release_finish "chunk_key list" "task option"
  | End_pop string
  | Prefetch_get
  | Prefetch_prefix string "chunk_key list" "nat option"
  | Prefetch_lookup string "chunk_key list" "chunk_key list" nat
  | Prefetch_reserve string "chunk_key list" "chunk_key list" nat "chunk_key list" "mem_obj list"
  | Prefetch_load string "chunk_key list" nat "chunk_key list" "mem_obj list"
  | Prefetch_unlock string "chunk_key list" "chunk_key list" nat "rat res"
  | Prefetch_delete string "chunk_key list" "chunk_key list" nat "rat res"
  | Prefetch_resolve string "chunk_key list" "chunk_key list" "rat res"
  | Back_get
  | Back_reserve "chunk_key list"
  | Back_store "chunk_key list"
  | Back_finish "chunk_key list"
  | Evict_pick
  | Evict_delete "chunk_key list"

datatype choice =
    Go
  | Found nat
  | Fill nat "byte list"
  | Fill_front nat "byte list"
  | Loaded nat rat
  | Failed exn
  | Victims "chunk_key list"

text \<open>The part of \<open>release\<close> under the prefetch lock: what it will give back.\<close>

definition take_held :: "string \<Rightarrow> chunk_key list option \<Rightarrow> storage \<Rightarrow> chunk_key list res \<times> storage" where
  "take_held rid keys s =
     (let held = held_of rid s;
          ks = (case keys of None \<Rightarrow> held | Some ks \<Rightarrow> ks);
          released = filter (\<lambda>k. k \<in> set held) ks
      in case del_held released held of
           (Inl x, h) \<Rightarrow> (Inl x, set_held rid h s)
         | (Inr _, h) \<Rightarrow> (Inr released, set_held rid h s))"

text \<open>The part of \<open>resolve\<close> under the prefetch lock: whether the session still runs.\<close>

definition publish :: "string \<Rightarrow> chunk_key list \<Rightarrow> chunk_key list \<Rightarrow> rat \<Rightarrow> storage \<Rightarrow> bool \<times> storage" where
  "publish rid l1_keys loaded_keys gbps s =
     (if st_hits s rid \<noteq> None
      then (True, s\<lparr>st_hits := (st_hits s)(rid \<mapsto> Some (length l1_keys, length loaded_keys, gbps)),
                    st_held := (st_held s)(rid \<mapsto> od_fromkeys (l1_keys @ loaded_keys))\<rparr>)
      else (False, s))"

definition with_l1 :: "storage \<Rightarrow> ('a res \<times> chunk_key l1) \<Rightarrow> task option \<Rightarrow> task option res \<times> storage" where
  "with_l1 s rl next =
     (case rl of (Inl x, l) \<Rightarrow> (Inl x, s\<lparr>st_l1 := l\<rparr>) | (Inr _, l) \<Rightarrow> (Inr next, s\<lparr>st_l1 := l\<rparr>))"

definition on_l1 :: "('a \<times> chunk_key l1) \<Rightarrow> storage \<Rightarrow> ('a \<Rightarrow> task option) \<Rightarrow> task option res \<times> storage" where
  "on_l1 rl s next = (case rl of (x, l) \<Rightarrow> (Inr (next x), s\<lparr>st_l1 := l\<rparr>))"

subsection \<open>One atomic step\<close>

text \<open>
  The throughput of a load is computed between the deletion of the slots that were not filled and
  \<open>resolve\<close>; without a measurable time it is a division by zero.  RETRIEVE divides by the world size of its engine
  when it has read the table.
\<close>

fun advance :: "choice \<Rightarrow> task \<Rightarrow> storage \<Rightarrow> task option res \<times> storage" where
  "advance ch (Reject x) s = (Inl x, s)"
| "advance ch (Lookup_start rid keys n) s =
     (Inr (Some (Lookup_put rid keys n)), s\<lparr>st_hits := (st_hits s)(rid \<mapsto> None)\<rparr>)"
| "advance ch (Lookup_put rid keys n) s = (Inr None, s\<lparr>st_jobs := st_jobs s @ [(rid, keys, n)]\<rparr>)"
| "advance ch (Store_reserve keys n chunks) s =
     on_l1 (reserve_write keys n False (st_l1 s)) s (\<lambda>reserved.
       let plan = store_plan reserved chunks 0 keys in Some (Store_write (map snd plan) (map fst plan)))"
| "advance ch (Store_write [] written) s = with_l1 s (finish_write written (st_l1 s)) None"
| "advance ch (Store_write ((ob, blob) # rest) written) s =
     (case write_obj ob blob (allocator (st_l1 s)) of
        Inl x \<Rightarrow> (Inl x, s)
      | Inr p \<Rightarrow> (Inr (Some (Store_write rest written)), s\<lparr>st_l1 := set_pool p (st_l1 s)\<rparr>))"
| "advance ch (Retrieve_read rid keys world_size) s =
     (case read keys (st_l1 s) of
        Inl x \<Rightarrow> (Inl x, s)
      | Inr objs \<Rightarrow>
          if world_size = 0 then (Inl ZeroDivisionError, s)
          else (Inr (if objs = [] then None else Some (Retrieve_send rid keys objs)), s))"
| "advance ch (Retrieve_send rid keys []) s = (Inr (Some (Retrieve_promote rid keys)), s)"
| "advance ch (Retrieve_send rid keys (ob # objs)) s = (Inr (Some (Retrieve_send rid keys objs)), s)"
| "advance ch (Retrieve_promote rid keys) s =
     (Inr (Some (Release rid (Some keys) False)), s\<lparr>st_l1 := promote keys (st_l1 s)\<rparr>)"
| "advance ch (Free_first rid count) s = (Inr (Some (Release rid (Some (take count (held_of rid s))) False)), s)"
| "advance ch (Release rid keys ending) s =
     (case take_held rid keys s of
        (Inl x, s') \<Rightarrow> (Inl x, s')
      | (Inr ks, s') \<Rightarrow> (Inr (Some (Release_finish ks (if ending then Some (End_pop rid) else None))), s'))"
| "advance ch (Release_finish ks next) s = with_l1 s (finish_read ks (st_l1 s)) next"
| "advance ch (End_pop rid) s =
     (Inr None, s\<lparr>st_hits := (st_hits s)(rid := None), st_held := (st_held s)(rid := None)\<rparr>)"
| "advance ch Prefetch_get s =
     (case st_jobs s of
        [] \<Rightarrow> (Inr (Some Prefetch_get), s)
      | (rid, keys, n) # js \<Rightarrow> (Inr (Some (Prefetch_prefix rid keys n)), s\<lparr>st_jobs := js\<rparr>))"
| "advance ch (Prefetch_prefix rid keys chunk_nbytes) s =
     on_l1 (reserve_read_prefix keys (st_l1 s)) s (\<lambda>l1_hits.
       Some (case chunk_nbytes of
               None \<Rightarrow> Prefetch_resolve rid (take l1_hits keys) [] (Inr 0)
             | Some n \<Rightarrow> Prefetch_lookup rid (take l1_hits keys) (drop l1_hits keys) n))"
| "advance (Found l2_hits) (Prefetch_lookup rid l1_keys missing n) s =
     (Inr (Some (Prefetch_reserve rid l1_keys (take l2_hits missing) n [] [])), s)"
| "advance (Failed x) (Prefetch_lookup rid l1_keys missing n) s = (Inl x, s)"
| "advance ch (Prefetch_reserve rid l1_keys [] n load_keys objs) s =
     (Inr (Some (Prefetch_load rid l1_keys n load_keys objs)), s)"
| "advance ch (Prefetch_reserve rid l1_keys (k # ks) n load_keys objs) s =
     on_l1 (reserve_write [k] n True (st_l1 s)) s (\<lambda>res.
       Some (case res k of
               Some (Some ob) \<Rightarrow> Prefetch_reserve rid l1_keys ks n (load_keys @ [k]) (objs @ [ob])
             | _ \<Rightarrow> Prefetch_load rid l1_keys n load_keys objs))"
| "advance (Fill i bytes) (Prefetch_load rid l1_keys n load_keys objs) s =
     (if i < length objs
      then (case write_obj (objs ! i) bytes (allocator (st_l1 s)) of
              Inl x \<Rightarrow> (Inl x, s)
            | Inr p \<Rightarrow> (Inr (Some (Prefetch_load rid l1_keys n load_keys objs)), s\<lparr>st_l1 := set_pool p (st_l1 s)\<rparr>))
      else (Inr (Some (Prefetch_load rid l1_keys n load_keys objs)), s))"
| "advance (Fill_front i bytes) (Prefetch_load rid l1_keys n load_keys objs) s =
     (Inr (Some (Prefetch_load rid l1_keys n load_keys objs)),
      if i < length objs
      then s\<lparr>st_l1 := set_pool (snd (readinto (objs ! i) bytes (allocator (st_l1 s)))) (st_l1 s)\<rparr>
      else s)"
| "advance (Failed x) (Prefetch_load rid l1_keys n load_keys objs) s = (Inl x, s)"
| "advance (Loaded loaded elapsed) (Prefetch_load rid l1_keys n load_keys objs) s =
     (Inr (Some (Prefetch_unlock rid l1_keys load_keys loaded (load_gbps loaded n elapsed))), s)"
| "advance ch (Prefetch_unlock rid l1_keys load_keys loaded gbps) s =
     with_l1 s (finish_write_and_reserve_read (take loaded load_keys) (st_l1 s))
       (Some (Prefetch_delete rid l1_keys load_keys loaded gbps))"
| "advance ch (Prefetch_delete rid l1_keys load_keys loaded gbps) s =
     with_l1 s (delete (drop loaded load_keys) True (st_l1 s))
       (Some (Prefetch_resolve rid l1_keys (take loaded load_keys) gbps))"
| "advance ch (Prefetch_resolve rid l1_keys loaded_keys (Inl x)) s = (Inl x, s)"
| "advance ch (Prefetch_resolve rid l1_keys loaded_keys (Inr gbps)) s =
     (case publish rid l1_keys loaded_keys gbps s of
        (published, s') \<Rightarrow>
          (Inr (Some (if published then Prefetch_get else Release_finish (l1_keys @ loaded_keys) (Some Prefetch_get))), s'))"
| "advance ch Back_get s =
     (case store_pending (listeners (st_l1 s)) of
        [] \<Rightarrow> (Inr (Some Back_get), s)
      | keys # rest \<Rightarrow>
          (Inr (Some (Back_reserve keys)),
           s\<lparr>st_l1 := (st_l1 s)\<lparr>listeners := set_store_pending rest (listeners (st_l1 s))\<rparr>\<rparr>))"
| "advance ch (Back_reserve keys) s =
     on_l1 (reserve_read keys (st_l1 s)) s (\<lambda>reserved.
       let locked = filter (\<lambda>k. reserved k \<noteq> Some None) keys
       in Some (if locked = [] then Back_get else Back_store locked))"
| "advance ch (Back_store locked) s =
     ((case ch of Failed x \<Rightarrow> Inl x | _ \<Rightarrow> Inr (Some (Back_finish locked))), s)"
| "advance ch (Back_finish locked) s = with_l1 s (finish_read locked (st_l1 s)) (Some Back_get)"
| "advance ch Evict_pick s =
     ((if capacity (allocator (st_l1 s)) = 0 then Inl ZeroDivisionError
       else Inr (Some (case ch of Victims keys \<Rightarrow> Evict_delete keys | _ \<Rightarrow> Evict_pick))), s)"
| "advance ch (Evict_delete keys) s = with_l1 s (delete keys False (st_l1 s)) (Some Evict_pick)"
| "advance ch task s = (Inr (Some task), s)"

text \<open>The frame a step puts on the wire: the bytes a view shows when it is sent.\<close>

fun frames :: "task \<Rightarrow> storage \<Rightarrow> byte list list" where
  "frames (Retrieve_send rid keys (ob # objs)) s = [read_obj (allocator (st_l1 s)) ob]"
| "frames _ s = []"

subsection \<open>The system\<close>

text \<open>
  Threads by number, the steps that raised, and the frames sent, by thread.  Any
  number of each kind of thread may run, which allows more interleavings than the server has.
\<close>

record threads =
  shared :: storage
  running :: "nat \<rightharpoonup> task"
  raised_by :: "(task \<times> exn) list"
  wire :: "(nat \<times> byte list) list"

text \<open>What a request, or one of the background threads, starts with.\<close>

fun starts :: "task \<Rightarrow> bool" where
  "starts (Reject x) = True"
| "starts (Lookup_start rid keys n) = (n \<noteq> Some 0)"
| "starts (Store_reserve keys n chunks) = (0 < n \<and> distinct keys)"
| "starts (Retrieve_read rid keys world_size) = True"
| "starts (Free_first rid count) = True"
| "starts (Release rid keys ending) = (keys = None \<and> ending)"
| "starts Prefetch_get = True"
| "starts Back_get = True"
| "starts Evict_pick = True"
| "starts _ = False"

definition run_thread :: "nat \<Rightarrow> choice \<Rightarrow> threads \<Rightarrow> threads" where
  "run_thread t ch c =
     (case running c t of
        None \<Rightarrow> c
      | Some task \<Rightarrow>
          (case advance ch task (shared c) of
             (r, s) \<Rightarrow> c\<lparr>shared := s,
               running := (running c)(t := (case r of Inl _ \<Rightarrow> None | Inr next \<Rightarrow> next)),
               raised_by := raised_by c @ (case r of Inl x \<Rightarrow> [(task, x)] | Inr _ \<Rightarrow> []),
               wire := wire c @ map (Pair t) (frames task (shared c))\<rparr>))"

inductive thread_step :: "threads \<Rightarrow> threads \<Rightarrow> bool" where
  spawn: "running c t = None \<Longrightarrow> starts task \<Longrightarrow> thread_step c (c\<lparr>running := (running c)(t \<mapsto> task)\<rparr>)"
| advance: "running c t \<noteq> None \<Longrightarrow> thread_step c (run_thread t ch c)"

text \<open>
  The steps after which a lock is left that nobody will give back: one that raises while the thread has locks (or
  in the middle of a release), a STORE with fewer chunks than keys, a lookup whose result overwrites the
  holds of an earlier one or names a key twice, and the end of a session whose lookup was published
  after its holds were released.
\<close>

fun abandons :: "task \<Rightarrow> storage \<Rightarrow> bool" where
  "abandons (Store_reserve keys n chunks) s = (length chunks < length keys)"
| "abandons (Prefetch_resolve rid l1_keys loaded_keys gbps) s =
     (st_hits s rid \<noteq> None \<and> (held_of rid s \<noteq> [] \<or> \<not> distinct (l1_keys @ loaded_keys)))"
| "abandons (End_pop rid) s = (held_of rid s \<noteq> [])"
| "abandons _ s = False"

fun raises_free :: "task \<Rightarrow> bool" where
  "raises_free (Reject x) = True"
| "raises_free (Retrieve_read rid keys world_size) = True"
| "raises_free Evict_pick = True"
| "raises_free _ = False"

definition leaks :: "choice \<Rightarrow> task \<Rightarrow> storage \<Rightarrow> bool" where
  "leaks ch task s =
     (case fst (advance ch task s) of Inl x \<Rightarrow> \<not> raises_free task | Inr _ \<Rightarrow> abandons task s)"

inductive clean_step :: "threads \<Rightarrow> threads \<Rightarrow> bool" where
  clean_spawn: "running c t = None \<Longrightarrow> starts task \<Longrightarrow> clean_step c (c\<lparr>running := (running c)(t \<mapsto> task)\<rparr>)"
| clean_advance: "running c t = Some task \<Longrightarrow> \<not> leaks ch task (shared c) \<Longrightarrow> clean_step c (run_thread t ch c)"

definition init_threads :: "storage \<Rightarrow> threads" where
  "init_threads s = \<lparr>shared = s, running = Map.empty, raised_by = [], wire = []\<rparr>"

end
