(* ===== verification/Lock_Protocol.thy ===== *)
theory Lock_Protocol
  imports L1_Calls "HOL-Library.Multiset"
begin

text \<open>
  The lock protocol of \<open>mini_llmcache/l1/manager.py\<close>: any number of parties (handler
  threads, the prefetch worker, the store controller, the evictor) call the manager in any
  order.  Two auxiliary components record what each party was granted and has not given back:
  the multiset of read holds and the set of write locks.  The guards are the discipline of the
  callers: a party only finishes writes and reads it was granted, forces deletion only of
  what it is still writing, and writes bytes only through views of chunks it has write-locked.
  The queues of the listeners may change at any time: the store controller takes its batches from one.
\<close>

subsection \<open>The system\<close>

record ('t, 'k) sys =
  sy_l1 :: "'k l1"
  sy_holds :: "('t \<times> 'k) multiset"
  sy_writes :: "('t \<times> 'k) set"

definition init_sys :: "byte list \<Rightarrow> 'k listener list \<Rightarrow> ('t, 'k) sys" where
  "init_sys m ls = \<lparr>sy_l1 = (L1Manager (PoolAllocator m))\<lparr>listeners := ls\<rparr>,
     sy_holds = {#}, sy_writes = {}\<rparr>"

text \<open>The holds of party \<open>t\<close> on the keys of a list, and the number of holds on a key.\<close>

definition holds_of :: "'t \<Rightarrow> 'k list \<Rightarrow> ('t \<times> 'k) multiset" where
  "holds_of t keys = image_mset (Pair t) (mset keys)"

definition hold_count :: "('t \<times> 'k) multiset \<Rightarrow> 'k \<Rightarrow> nat" where
  "hold_count H k = count (image_mset snd H) k"

definition granted :: "('k \<rightharpoonup> mem_obj option) \<Rightarrow> 'k list \<Rightarrow> 'k set" where
  "granted res keys = {k \<in> set keys. \<exists>ob. res k = Some (Some ob)}"

inductive proto_step :: "('t, 'k) sys \<Rightarrow> ('t, 'k) sys \<Rightarrow> bool" where
  step_reserve_write:
    "0 < n \<Longrightarrow> distinct keys \<Longrightarrow> reserve_write keys n temp (sy_l1 s) = (res, l) \<Longrightarrow>
     proto_step s (s\<lparr>sy_l1 := l, sy_writes := sy_writes s \<union> {t} \<times> granted res keys\<rparr>)"
| step_poke:
    "(t, k) \<in> sy_writes s \<Longrightarrow> entries (sy_l1 s) k = Some e \<Longrightarrow>
     length bs \<le> mo_nbytes (en_obj e) \<Longrightarrow>
     p = (allocator (sy_l1 s))\<lparr>pool_mem :=
       write_seg (mo_offset (en_obj e)) bs (pool_mem (allocator (sy_l1 s)))\<rparr> \<Longrightarrow>
     proto_step s (s\<lparr>sy_l1 := (sy_l1 s)\<lparr>allocator := p\<rparr>\<rparr>)"
| step_finish_write:
    "{t} \<times> set keys \<subseteq> sy_writes s \<Longrightarrow>
     \<forall>k \<in> set keys. \<not> is_temporary (the (entries (sy_l1 s) k)) \<Longrightarrow>
     finish_write keys (sy_l1 s) = (r, l) \<Longrightarrow>
     proto_step s (s\<lparr>sy_l1 := l, sy_writes := sy_writes s - {t} \<times> set keys\<rparr>)"
| step_finish_write_and_reserve_read:
    "{t} \<times> set keys \<subseteq> sy_writes s \<Longrightarrow>
     finish_write_and_reserve_read keys (sy_l1 s) = (r, l) \<Longrightarrow>
     proto_step s (s\<lparr>sy_l1 := l, sy_writes := sy_writes s - {t} \<times> set keys,
       sy_holds := sy_holds s + holds_of t keys\<rparr>)"
| step_reserve_read:
    "reserve_read keys (sy_l1 s) = (res, l) \<Longrightarrow>
     proto_step s (s\<lparr>sy_l1 := l,
       sy_holds := sy_holds s + holds_of t (filter (\<lambda>k. res k \<noteq> Some None) keys)\<rparr>)"
| step_reserve_read_prefix:
    "reserve_read_prefix keys (sy_l1 s) = (hit, l) \<Longrightarrow>
     proto_step s (s\<lparr>sy_l1 := l, sy_holds := sy_holds s + holds_of t (take hit keys)\<rparr>)"
| step_pass:
    "(t, k) \<in># sy_holds s \<Longrightarrow>
     proto_step s (s\<lparr>sy_holds := sy_holds s - {#(t, k)#} + {#(t', k)#}\<rparr>)"
| step_finish_read:
    "holds_of t keys \<subseteq># sy_holds s \<Longrightarrow> finish_read keys (sy_l1 s) = (r, l) \<Longrightarrow>
     proto_step s (s\<lparr>sy_l1 := l, sy_holds := sy_holds s - holds_of t keys\<rparr>)"
| step_promote:
    "proto_step s (s\<lparr>sy_l1 := promote keys (sy_l1 s)\<rparr>)"
| step_delete:
    "delete keys False (sy_l1 s) = (r, l) \<Longrightarrow> proto_step s (s\<lparr>sy_l1 := l\<rparr>)"
| step_listeners:
    "proto_step s (s\<lparr>sy_l1 := (sy_l1 s)\<lparr>listeners := ls\<rparr>\<rparr>)"
| step_delete_own:
    "{t} \<times> set keys \<subseteq> sy_writes s \<Longrightarrow> delete keys True (sy_l1 s) = (r, l) \<Longrightarrow>
     proto_step s (s\<lparr>sy_l1 := l, sy_writes := sy_writes s - {t} \<times> set keys\<rparr>)"

subsection \<open>The invariant\<close>

text \<open>
  An entry is well-formed with respect to the parties when its read count is the number of
  holds on it, it is write-locked exactly while somebody writes it and then nobody reads it,
  and it is readable and temporary only while somebody reads it.
\<close>

definition entry_ok :: "('t \<times> 'k) multiset \<Rightarrow> ('t \<times> 'k) set \<Rightarrow> 'k \<Rightarrow> entry \<Rightarrow> bool" where
  "entry_ok H W k e \<longleftrightarrow>
     read_count e = int (hold_count H k) \<and> (write_locked e \<longleftrightarrow> (\<exists>t. (t, k) \<in> W))
     \<and> (write_locked e \<longrightarrow> hold_count H k = 0)
     \<and> (is_temporary e \<and> \<not> write_locked e \<longrightarrow> 0 < hold_count H k)"

definition parties_ok :: "('t \<times> 'k) multiset \<Rightarrow> ('t \<times> 'k) set \<Rightarrow> ('k \<rightharpoonup> entry) \<Rightarrow> bool" where
  "parties_ok H W es \<longleftrightarrow>
     (\<forall>k e. es k = Some e \<longrightarrow> entry_ok H W k e)
     \<and> (\<forall>k. es k = None \<longrightarrow> hold_count H k = 0 \<and> (\<forall>t. (t, k) \<notin> W))
     \<and> (\<forall>t t' k. (t, k) \<in> W \<longrightarrow> (t', k) \<in> W \<longrightarrow> t = t')"

definition proto_inv :: "('t, 'k) sys \<Rightarrow> bool" where
  "proto_inv s \<longleftrightarrow> l1_inv {} (sy_l1 s) \<and> parties_ok (sy_holds s) (sy_writes s) (entries (sy_l1 s))"

lemma hold_count_simps [simp]:
  "hold_count {#} k = 0" "hold_count (H + H') k = hold_count H k + hold_count H' k"
  "hold_count (holds_of t keys) k = count_list keys k"
  "hold_count (add_mset (t, k') H) k = (if k = k' then 1 else 0) + hold_count H k"
  by (simp_all add: hold_count_def holds_of_def image_mset.compositionality comp_def count_mset)

lemma hold_count_minus [simp]: "H' \<subseteq># H \<Longrightarrow> hold_count (H - H') k = hold_count H k - hold_count H' k"
  by (simp add: hold_count_def image_mset_Diff)

lemma hold_count_mono: "H' \<subseteq># H \<Longrightarrow> hold_count H' k \<le> hold_count H k"
  by (simp add: hold_count_def mset_subset_eq_count image_mset_subseteq_mono)

lemma hold_count_pos: "0 < hold_count H k \<longleftrightarrow> (\<exists>t. (t, k) \<in># H)"
  by (force simp: hold_count_def count_greater_zero_iff)

lemma parties_okD:
  assumes "parties_ok H W es"
  shows "es k = Some e \<Longrightarrow> entry_ok H W k e" and "es k = None \<Longrightarrow> hold_count H k = 0"
    and "(t, k) \<in> W \<Longrightarrow> \<exists>e. es k = Some e \<and> write_locked e"
    and "(t, k) \<in> W \<Longrightarrow> (t', k) \<in> W \<Longrightarrow> t = t'"
  using assms unfolding parties_ok_def entry_ok_def by (blast, blast, metis option.exhaust, blast)

subsection \<open>Each step keeps the invariant\<close>

text \<open>What a reservation did, granted or refused.\<close>

lemma reserve_write_effect:
  assumes inv: "l1_inv G l" and n: "0 < n" and rw: "reserve_write keys n temp l = (res, l')"
  shows "res k = Some (Some ob) \<Longrightarrow>
      entries l k = None \<and> entries l' k = Some (Entry ob True temp) \<and> mo_nbytes ob = n"
    and "k \<notin> granted res keys \<Longrightarrow> entries l' k = entries l k"
    and "pool_mem (allocator l') = pool_mem (allocator l)"
proof -
  let ?ks = "missing_keys keys l"
  have "(res k = Some (Some ob) \<longrightarrow>
      entries l k = None \<and> entries l' k = Some (Entry ob True temp) \<and> mo_nbytes ob = n)
    \<and> (k \<notin> granted res keys \<longrightarrow> entries l' k = entries l k)
    \<and> pool_mem (allocator l') = pool_mem (allocator l)"
  proof (cases "enough_room (length ?ks) n (allocator l)")
    case False
    with reserve_write_refused [OF inv n False, of temp] rw show ?thesis
      by (auto simp: granted_def fromkeys_none_def split: if_splits)
  next
    case True
    from reserve_write_granted [OF inv n True, of temp] rw obtain objs where
      es: "entries l' = reserved_entries temp ?ks objs (entries l)"
      and len: "length objs = length ?ks" and sz: "\<forall>ob \<in> set objs. mo_nbytes ob = n"
      and mem: "pool_mem (allocator l') = pool_mem (allocator l)"
      and res: "res = (\<lambda>k. case map_of (rev (zip ?ks objs)) k of
                   None \<Rightarrow> fromkeys_none keys k | Some ob \<Rightarrow> Some (Some ob))"
      by auto
    show ?thesis
    proof (cases "map_of (rev (zip ?ks objs)) k")
      case None
      then show ?thesis using mem by (auto simp: es res reserved_entries_def fromkeys_none_def split: if_splits)
    next
      case (Some x)
      then have "(k, x) \<in> set (zip ?ks objs)" by (auto dest: map_of_SomeD)
      then have "k \<in> set ?ks" "x \<in> set objs" by (auto dest: set_zip_leftD set_zip_rightD)
      with Some mem sz show ?thesis by (auto simp: es res reserved_entries_def granted_def)
    qed
  qed
  then show "res k = Some (Some ob) \<Longrightarrow>
      entries l k = None \<and> entries l' k = Some (Entry ob True temp) \<and> mo_nbytes ob = n"
    and "k \<notin> granted res keys \<Longrightarrow> entries l' k = entries l k"
    and "pool_mem (allocator l') = pool_mem (allocator l)" by blast+
qed

lemma parties_reserve_write:
  assumes "l1_inv G l" and "0 < n" and rw: "reserve_write keys n temp l = (res, l')"
    and ok: "parties_ok H W (entries l)"
  shows "parties_ok H (W \<union> {t} \<times> granted res keys) (entries l')"
proof -
  note eff = reserve_write_effect [OF assms(1,2) rw]
  have new: "entries l k = None \<and> (\<exists>ob. entries l' k = Some (Entry ob True temp))"
    if "k \<in> granted res keys" for k
    using that eff(1) unfolding granted_def by blast
  show ?thesis unfolding parties_ok_def
  proof (intro conjI allI impI)
    fix k e assume e: "entries l' k = Some e"
    show "entry_ok H (W \<union> {t} \<times> granted res keys) k e"
    proof (cases "k \<in> granted res keys")
      case True
      from new [OF True] e parties_okD(2) [OF ok, of k] True show ?thesis
        by (auto simp: entry_ok_def Entry_def)
    next
      case False
      with e eff(2) parties_okD(1) [OF ok, of k e] show ?thesis by (simp add: entry_ok_def)
    qed
  next
    fix k assume e: "entries l' k = None"
    then have "k \<notin> granted res keys" using new by force
    with e eff(2) have "entries l k = None" by simp
    with ok show "hold_count H k = 0" by (rule parties_okD(2))
  next
    fix k u assume e: "entries l' k = None"
    then have "k \<notin> granted res keys" using new by force
    with e eff(2) parties_okD(3) [OF ok, of u k] show "(u, k) \<notin> W \<union> {t} \<times> granted res keys" by auto
  next
    fix u u' k
    assume "(u, k) \<in> W \<union> {t} \<times> granted res keys" "(u', k) \<in> W \<union> {t} \<times> granted res keys"
    then show "u = u'" using new parties_okD(3,4) [OF ok] by fastforce
  qed
qed

lemma parties_unlock:
  assumes ok: "parties_ok H W (entries l)" and own: "{t} \<times> set keys \<subseteq> W"
    and temp: "\<not> hold \<longrightarrow> (\<forall>k \<in> set keys. \<not> is_temporary (the (entries l k)))"
    and es: "entries l' = (\<lambda>k. if k \<in> set keys
           then map_option (unlocked_entry hold (count_list keys k)) (entries l k) else entries l k)"
  shows "parties_ok (if hold then H + holds_of t keys else H) (W - {t} \<times> set keys) (entries l')"
  unfolding parties_ok_def
proof (intro conjI allI impI)
  fix k e assume e: "entries l' k = Some e"
  show "entry_ok (if hold then H + holds_of t keys else H) (W - {t} \<times> set keys) k e"
  proof (cases "k \<in> set keys")
    case True
    then have tk: "(t, k) \<in> W" using own by auto
    from e True obtain e0 where e0: "entries l k = Some e0" "e = unlocked_entry hold (count_list keys k) e0"
      by (auto simp: es)
    have "(u, k) \<notin> W - {t} \<times> set keys" for u using parties_okD(4) [OF ok tk, of u] True by blast
    moreover have "0 < count_list keys k" using True by (metis count_list_0_iff gr0I)
    moreover have "write_locked e0" using parties_okD(3) [OF ok tk] e0(1) by auto
    ultimately show ?thesis
      using parties_okD(1) [OF ok e0(1)] True temp e0(1)
      by (auto simp: entry_ok_def e0(2) unlocked_entry_def)
  next
    case False
    then have "count_list keys k = 0" by simp
    with False e parties_okD(1) [OF ok, of k e] show ?thesis by (auto simp: es entry_ok_def)
  qed
next
  fix k assume "entries l' k = None"
  then have "entries l k = None" by (auto simp: es split: if_splits)
  moreover from this have "k \<notin> set keys" using own parties_okD(3) [OF ok, of t k] by auto
  ultimately show "hold_count (if hold then H + holds_of t keys else H) k = 0"
    using parties_okD(2) [OF ok] by simp
next
  fix k u assume "entries l' k = None"
  then have "entries l k = None" by (auto simp: es split: if_splits)
  then show "(u, k) \<notin> W - {t} \<times> set keys" using parties_okD(3) [OF ok, of u k] by auto
next
  fix u u' k assume "(u, k) \<in> W - {t} \<times> set keys" "(u', k) \<in> W - {t} \<times> set keys"
  then show "u = u'" using parties_okD(4) [OF ok] by blast
qed

lemma parties_reads:
  assumes ok: "parties_ok H W (entries l)" and rd: "\<And>k. k \<in> set keys \<Longrightarrow> is_readable l k"
  shows "parties_ok (H + holds_of t keys) W (entries (fold (add_read 1) keys l))"
  unfolding parties_ok_def
proof (intro conjI allI impI)
  fix k e assume "entries (fold (add_read 1) keys l) k = Some e"
  then obtain e0 where e0: "entries l k = Some e0"
    "e = e0\<lparr>read_count := read_count e0 + int (count_list keys k)\<rparr>"
    by (auto simp: entries_add_reads)
  have "count_list keys k = 0 \<or> \<not> write_locked e0"
    using rd [of k] e0(1) by (auto simp: count_list_0_iff is_readable_iff)
  then show "entry_ok (H + holds_of t keys) W k e"
    using parties_okD(1) [OF ok e0(1)] by (auto simp: entry_ok_def e0(2))
next
  fix k assume none: "entries (fold (add_read 1) keys l) k = None"
  then have "entries l k = None" by (simp add: entries_add_reads)
  with rd [of k] parties_okD(2) [OF ok, of k] show "hold_count (H + holds_of t keys) k = 0"
    by (auto simp: count_list_0_iff is_readable_iff)
next
  fix k u assume "entries (fold (add_read 1) keys l) k = None"
  then show "(u, k) \<notin> W" using parties_okD(3) [OF ok, of u k] by (auto simp: entries_add_reads)
next
  fix u u' k assume "(u, k) \<in> W" "(u', k) \<in> W"
  then show "u = u'" by (rule parties_okD(4) [OF ok])
qed

lemma parties_holds_all:
  assumes ok: "parties_ok H W (entries l)" and sub: "holds_of t keys \<subseteq># H"
  shows "holds_all keys l"
  unfolding holds_all_def
proof
  fix k assume k: "k \<in> set keys"
  have le: "count_list keys k \<le> hold_count H k" using hold_count_mono [OF sub, of k] by simp
  moreover have "0 < count_list keys k" using k by (metis count_list_0_iff gr0I)
  ultimately obtain e where e: "entries l k = Some e"
    using parties_okD(2) [OF ok, of k] by (cases "entries l k") auto
  with parties_okD(1) [OF ok e] le show "\<exists>e. entries l k = Some e \<and> int (count_list keys k) \<le> read_count e"
    by (auto simp: entry_ok_def)
qed

lemma parties_finish_read:
  assumes ok: "parties_ok H W (entries l)" and sub: "holds_of t keys \<subseteq># H"
    and es: "entries l' = released keys (entries l)"
  shows "parties_ok (H - holds_of t keys) W (entries l')"
proof -
  have le: "count_list keys k \<le> hold_count H k" for k using hold_count_mono [OF sub, of k] by simp
  have pos: "k \<in> set keys \<Longrightarrow> 0 < count_list keys k" for k by (metis count_list_0_iff gr0I)
  show ?thesis unfolding parties_ok_def
  proof (intro conjI allI impI)
    fix k e assume "entries l' k = Some e"
    then obtain e0 where e0: "entries l k = Some e0"
      "e = (if k \<notin> set keys then e0 else e0\<lparr>read_count := read_count e0 - int (count_list keys k)\<rparr>)"
      "k \<in> set keys \<longrightarrow> \<not> (read_count e0 - int (count_list keys k) = 0 \<and> is_temporary e0)"
      by (auto simp: es released_def Let_def split: option.splits if_splits)
    with parties_okD(1) [OF ok e0(1)] le [of k] sub pos [of k]
    show "entry_ok (H - holds_of t keys) W k e"
      by (cases "k \<in> set keys") (auto simp: entry_ok_def)
  next
    fix k assume none: "entries l' k = None"
    show "hold_count (H - holds_of t keys) k = 0"
    proof (cases "entries l k")
      case None
      then show ?thesis using parties_okD(2) [OF ok] sub by simp
    next
      case (Some e)
      with none parties_okD(1) [OF ok Some] sub show ?thesis
        by (auto simp: es released_def Let_def entry_ok_def split: if_splits)
    qed
  next
    fix k u assume none: "entries l' k = None"
    show "(u, k) \<notin> W"
    proof
      assume uk: "(u, k) \<in> W"
      from parties_okD(3) [OF ok uk] obtain e where e: "entries l k = Some e" "write_locked e" by blast
      with parties_okD(1) [OF ok e(1)] have "hold_count H k = 0" by (simp add: entry_ok_def)
      with le [of k] pos [of k] have "k \<notin> set keys" by auto
      with none e show False by (simp add: es released_outside)
    qed
  next
    fix u u' k assume "(u, k) \<in> W" "(u', k) \<in> W"
    then show "u = u'" by (rule parties_okD(4) [OF ok])
  qed
qed

lemma parties_promote:
  assumes ok: "parties_ok H W (entries l)"
  shows "parties_ok H W (entries (promote keys l))"
  unfolding parties_ok_def
proof (intro conjI allI impI)
  fix k e assume "entries (promote keys l) k = Some e"
  then obtain e0 where e0: "entries l k = Some e0"
    "e = (if k \<in> set keys then e0\<lparr>is_temporary := False\<rparr> else e0)"
    unfolding entries_promote by (auto split: if_splits)
  with parties_okD(1) [OF ok e0(1)] show "entry_ok H W k e" by (auto simp: entry_ok_def)
next
  fix k assume "entries (promote keys l) k = None"
  then have "entries l k = None" unfolding entries_promote by (simp split: if_splits)
  with ok show "hold_count H k = 0" by (rule parties_okD(2))
next
  fix k u assume "entries (promote keys l) k = None"
  then have "entries l k = None" unfolding entries_promote by (simp split: if_splits)
  then show "(u, k) \<notin> W" using parties_okD(3) [OF ok, of u k] by auto
next
  fix u u' k assume "(u, k) \<in> W" "(u', k) \<in> W"
  then show "u = u'" by (rule parties_okD(4) [OF ok])
qed

lemma parties_delete:
  assumes ok: "parties_ok H W (entries l)" and own: "force \<longrightarrow> {t} \<times> set keys \<subseteq> W"
    and es: "entries l' = (\<lambda>k. if k \<in> set keys \<and> deletable force l k then None else entries l k)"
  shows "parties_ok H (if force then W - {t} \<times> set keys else W) (entries l')"
proof -
  have dead: "hold_count H k = 0 \<and> (u, k) \<notin> (if force then W - {t} \<times> set keys else W)"
    if k: "k \<in> set keys" and d: "deletable force l k" for k u
  proof -
    from d obtain e where e: "entries l k = Some e" by (auto simp: deletable_def)
    note eok = parties_okD(1) [OF ok e]
    show ?thesis
    proof (cases force)
      case True
      then have tk: "(t, k) \<in> W" using own k by blast
      with parties_okD(3) [OF ok tk] e eok have "hold_count H k = 0" by (simp add: entry_ok_def)
      moreover have "(u, k) \<notin> W - {t} \<times> set keys" using parties_okD(4) [OF ok tk, of u] k by auto
      ultimately show ?thesis using True by simp
    next
      case False
      with d e have "\<not> write_locked e" "read_count e = 0" by (auto simp: deletable_def is_evictable_iff)
      with eok False show ?thesis by (simp add: entry_ok_def)
    qed
  qed
  have kept: "(\<exists>u. (u, k) \<in> (if force then W - {t} \<times> set keys else W)) \<longleftrightarrow> (\<exists>u. (u, k) \<in> W)"
    if "\<not> (k \<in> set keys \<and> deletable force l k)" "entries l k = Some e" for k e
    using that by (auto simp: deletable_def)
  show ?thesis unfolding parties_ok_def
  proof (intro conjI allI impI)
    fix k e assume "entries l' k = Some e"
    then have e: "entries l k = Some e" "\<not> (k \<in> set keys \<and> deletable force l k)"
      by (auto simp: es split: if_splits)
    with parties_okD(1) [OF ok e(1)] kept [OF e(2,1)]
    show "entry_ok H (if force then W - {t} \<times> set keys else W) k e" by (simp add: entry_ok_def)
  next
    fix k assume "entries l' k = None"
    then show "hold_count H k = 0"
      using dead parties_okD(2) [OF ok] by (auto simp: es split: if_splits)
  next
    fix k u assume "entries l' k = None"
    then show "(u, k) \<notin> (if force then W - {t} \<times> set keys else W)"
      using dead [of k u] parties_okD(3) [OF ok, of u k] by (cases "k \<in> set keys \<and> deletable force l k") (auto simp: es)
  next
    fix u u' k
    assume "(u, k) \<in> (if force then W - {t} \<times> set keys else W)"
      "(u', k) \<in> (if force then W - {t} \<times> set keys else W)"
    then show "u = u'" using parties_okD(4) [OF ok] by (auto split: if_splits)
  qed
qed

lemma parties_ok_cong: "(\<And>k. hold_count H' k = hold_count H k) \<Longrightarrow> parties_ok H' W es = parties_ok H W es"
  by (simp add: parties_ok_def entry_ok_def)

lemma hold_count_pass: "(t, k) \<in># H \<Longrightarrow> hold_count (H - {#(t, k)#} + {#(t', k)#}) j = hold_count H j"
proof -
  assume "(t, k) \<in># H"
  then obtain H0 where "H = add_mset (t, k) H0" by (metis insert_DiffM)
  then show ?thesis by simp
qed

lemma own_writes_in_dom:
  "parties_ok H W es \<Longrightarrow> {t} \<times> set keys \<subseteq> W \<Longrightarrow> set keys \<subseteq> dom es"
  using parties_okD(3) by (fastforce simp: dom_def)

lemma proto_step_inv:
  assumes step: "proto_step s s'" and inv: "proto_inv s"
  shows "proto_inv s'"
  using step
proof cases
  case (step_reserve_write n keys temp res l t)
  with inv reserve_write_inv(2) [of "{}" "sy_l1 s" n keys temp]
    parties_reserve_write [of "{}" "sy_l1 s" n keys temp res l]
  show ?thesis by (auto simp: proto_inv_def)
next
  case (step_poke t k e bs p)
  have "mo_offset (en_obj e) + length bs \<le> capacity (allocator (sy_l1 s))"
    using l1_inv_within [of "{}" "sy_l1 s" k e] step_poke inv by (auto simp: proto_inv_def)
  then have "length (write_seg (mo_offset (en_obj e)) bs (pool_mem (allocator (sy_l1 s)))) =
      capacity (allocator (sy_l1 s))"
    by (simp add: capacity_def)
  with inv step_poke show ?thesis
    by (simp add: proto_inv_def l1_inv_def owned_def objs_of_def pool_inv_mem)
next
  case (step_finish_write t keys r l)
  have ok: "parties_ok (sy_holds s) (sy_writes s) (entries (sy_l1 s))" using inv by (simp add: proto_inv_def)
  note es = finish_write_ok(2) [OF own_writes_in_dom [OF ok step_finish_write(2)] step_finish_write(4)]
  from parties_unlock [OF ok step_finish_write(2), of False l] es step_finish_write
    l1_inv_finish_write [of "{}" "sy_l1 s" keys] inv
  show ?thesis by (simp add: proto_inv_def)
next
  case (step_finish_write_and_reserve_read t keys r l)
  have ok: "parties_ok (sy_holds s) (sy_writes s) (entries (sy_l1 s))" using inv by (simp add: proto_inv_def)
  note es = finish_write_and_reserve_read_ok(2) [OF own_writes_in_dom
      [OF ok step_finish_write_and_reserve_read(2)] step_finish_write_and_reserve_read(3)]
  from parties_unlock [OF ok step_finish_write_and_reserve_read(2), of True l] es
    step_finish_write_and_reserve_read
    l1_inv_finish_write_and_reserve_read [of "{}" "sy_l1 s" keys] inv
  show ?thesis by (simp add: proto_inv_def)
next
  case (step_reserve_read keys res l t)
  have "filter (\<lambda>k. res k \<noteq> Some None) keys = filter (is_readable (sy_l1 s)) keys"
    using step_reserve_read(2)
    by (auto simp: reserve_read_eq is_readable_iff objs_of_def intro!: filter_cong split: if_splits)
  with step_reserve_read inv
    parties_reads [of "sy_holds s" "sy_writes s" "sy_l1 s" "filter (is_readable (sy_l1 s)) keys" t]
  show ?thesis by (auto simp: proto_inv_def reserve_read_eq)
next
  case (step_reserve_read_prefix keys hit l t)
  then have eq: "take hit keys = takeWhile (is_readable (sy_l1 s)) keys"
    "l = fold (add_read 1) (takeWhile (is_readable (sy_l1 s)) keys) (sy_l1 s)"
    by (auto simp: reserve_read_prefix_eq takeWhile_eq_take [symmetric])
  have rd: "is_readable (sy_l1 s) k" if "k \<in> set (takeWhile (is_readable (sy_l1 s)) keys)" for k
    using that by (rule set_takeWhileD [THEN conjunct2])
  have "parties_ok (sy_holds s) (sy_writes s) (entries (sy_l1 s))" and "l1_inv {} (sy_l1 s)"
    using inv by (simp_all add: proto_inv_def)
  with parties_reads [OF this(1) rd, of _ t] show ?thesis
    unfolding proto_inv_def step_reserve_read_prefix(1) eq by simp
next
  case (step_pass t k t')
  have "parties_ok (sy_holds s - {#(t, k)#} + {#(t', k)#}) (sy_writes s) (entries (sy_l1 s)) =
      parties_ok (sy_holds s) (sy_writes s) (entries (sy_l1 s))"
    by (rule parties_ok_cong) (rule hold_count_pass [OF step_pass(2)])
  with inv show ?thesis unfolding proto_inv_def step_pass(1) by simp
next
  case (step_finish_read t keys r l)
  have ok: "parties_ok (sy_holds s) (sy_writes s) (entries (sy_l1 s))"
    and li: "l1_inv {} (sy_l1 s)" using inv by (simp_all add: proto_inv_def)
  from finish_read_ok [OF li parties_holds_all [OF ok step_finish_read(2)]] step_finish_read(3)
  have "l1_inv {} l" "entries l = released keys (entries (sy_l1 s))" by auto
  with parties_finish_read [OF ok step_finish_read(2), of l] step_finish_read
  show ?thesis by (simp add: proto_inv_def)
next
  case (step_promote keys)
  with inv show ?thesis
    by (simp add: proto_inv_def l1_inv_promote parties_promote)
next
  case (step_delete keys r l)
  with inv delete_ok [of "{}" "sy_l1 s" keys False]
    parties_delete [of "sy_holds s" "sy_writes s" "sy_l1 s" False undefined keys l]
  show ?thesis by (auto simp: proto_inv_def)
next
  case (step_listeners ls)
  with inv l1_inv_cong [of "(sy_l1 s)\<lparr>listeners := ls\<rparr>" "sy_l1 s" "{}"] show ?thesis
    by (simp add: proto_inv_def objs_of_def)
next
  case (step_delete_own t keys r l)
  with inv delete_ok [of "{}" "sy_l1 s" keys True]
    parties_delete [of "sy_holds s" "sy_writes s" "sy_l1 s" True t keys l]
  show ?thesis by (auto simp: proto_inv_def)
qed

lemma proto_inv_init: "proto_inv (init_sys m ls)"
  using l1_inv_init [of m] l1_inv_cong [of "sy_l1 (init_sys m ls)" "L1Manager (PoolAllocator m)" "{}"]
  by (simp add: proto_inv_def init_sys_def parties_ok_def L1Manager_def objs_of_def)

lemma proto_steps_inv: "proto_step\<^sup>*\<^sup>* s s' \<Longrightarrow> proto_inv s \<Longrightarrow> proto_inv s'"
  by (induction rule: rtranclp_induct) (auto intro: proto_step_inv)

text \<open>No step makes an entry temporary.\<close>

lemma proto_step_temporary:
  assumes step: "proto_step s s'" and inv: "proto_inv s"
    and e: "entries (sy_l1 s) k = Some e" and e': "entries (sy_l1 s') k = Some e'" and temp: "is_temporary e'"
  shows "is_temporary e"
  using step
proof cases
  case (step_reserve_write n keys temp res l t)
  then have "k \<notin> granted res keys"
    using inv reserve_write_effect(1) [of "{}" "sy_l1 s" n keys temp res l k] e by (auto simp: proto_inv_def granted_def)
  with step_reserve_write reserve_write_effect(2) [of "{}" "sy_l1 s" n keys temp res l k] inv e e' temp
  show ?thesis by (auto simp: proto_inv_def)
next
  case (step_poke t j e0 bs p)
  then show ?thesis using e e' temp by simp
next
  case (step_finish_write t keys r l)
  have ok: "parties_ok (sy_holds s) (sy_writes s) (entries (sy_l1 s))" using inv by (simp add: proto_inv_def)
  note finish_write_ok(2) [OF own_writes_in_dom [OF ok step_finish_write(2)] step_finish_write(4)]
  then show ?thesis using step_finish_write(1) e e' temp by (auto simp: unlocked_entry_def split: if_splits)
next
  case (step_finish_write_and_reserve_read t keys r l)
  have ok: "parties_ok (sy_holds s) (sy_writes s) (entries (sy_l1 s))" using inv by (simp add: proto_inv_def)
  note finish_write_and_reserve_read_ok(2) [OF own_writes_in_dom
      [OF ok step_finish_write_and_reserve_read(2)] step_finish_write_and_reserve_read(3)]
  then show ?thesis using step_finish_write_and_reserve_read(1) e e' temp
    by (auto simp: unlocked_entry_def split: if_splits)
next
  case (step_reserve_read keys res l t)
  then show ?thesis using e e' temp by (auto simp: reserve_read_eq entries_add_reads)
next
  case (step_reserve_read_prefix keys hit l t)
  then show ?thesis using e e' temp by (auto simp: reserve_read_prefix_eq entries_add_reads)
next
  case (step_pass t j t')
  then show ?thesis using e e' temp by simp
next
  case (step_finish_read t keys r l)
  from inv have "l1_inv {} (sy_l1 s)" "holds_all keys (sy_l1 s)"
    using parties_holds_all step_finish_read(2) by (auto simp: proto_inv_def)
  from finish_read_ok [OF this] step_finish_read have "entries l = released keys (entries (sy_l1 s))" by auto
  then show ?thesis using step_finish_read(1) e e' temp by (auto simp: released_def Let_def split: if_splits)
next
  case (step_promote keys)
  then show ?thesis using e e' temp by (auto simp: entries_promote split: if_splits)
next
  case (step_delete keys r l)
  with inv delete_ok [of "{}" "sy_l1 s" keys False] show ?thesis
    using e e' temp by (auto simp: proto_inv_def split: if_splits)
next
  case (step_listeners ls)
  then show ?thesis using e e' temp by simp
next
  case (step_delete_own t keys r l)
  with inv delete_ok [of "{}" "sy_l1 s" keys True] show ?thesis
    using e e' temp by (auto simp: proto_inv_def split: if_splits)
qed

subsection \<open>A held chunk keeps its bytes\<close>

text \<open>
  A step leaves every key that stays in the table with its object, and changes bytes only
  inside an object that is write-locked.
\<close>

lemma proto_step_frame:
  assumes step: "proto_step s s'" and inv: "proto_inv s"
  shows "(\<forall>k ob. objs_of (sy_l1 s) k = Some ob \<longrightarrow>
      objs_of (sy_l1 s') k = None \<or> objs_of (sy_l1 s') k = Some ob)
    \<and> (pool_mem (allocator (sy_l1 s')) = pool_mem (allocator (sy_l1 s))
       \<or> (\<exists>t k e bs. (t, k) \<in> sy_writes s \<and> entries (sy_l1 s) k = Some e
            \<and> length bs \<le> mo_nbytes (en_obj e)
            \<and> pool_mem (allocator (sy_l1 s')) =
                write_seg (mo_offset (en_obj e)) bs (pool_mem (allocator (sy_l1 s)))))"
  using step
proof cases
  case (step_reserve_write n keys temp res l t)
  then have eff: "res k = Some (Some ob) \<Longrightarrow> entries (sy_l1 s) k = None"
    "k \<notin> granted res keys \<Longrightarrow> entries l k = entries (sy_l1 s) k"
    "pool_mem (allocator l) = pool_mem (allocator (sy_l1 s))" for k ob
    using inv reserve_write_effect [of "{}" "sy_l1 s" n keys temp res l] by (auto simp: proto_inv_def)
  have "objs_of l k = Some ob" if k: "objs_of (sy_l1 s) k = Some ob" for k ob
  proof -
    have "k \<notin> granted res keys" using eff(1) k by (auto simp: granted_def objs_of_def)
    with eff(2) k show ?thesis by (simp add: objs_of_def)
  qed
  with step_reserve_write eff(3) show ?thesis by simp
next
  case (step_poke t k e bs p)
  then show ?thesis by (fastforce simp: objs_of_def)
next
  case (step_finish_write t keys r l)
  with finish_write_frame [OF step_finish_write(4)] show ?thesis by simp
next
  case (step_finish_write_and_reserve_read t keys r l)
  with finish_write_and_reserve_read_frame [OF step_finish_write_and_reserve_read(3)]
  show ?thesis by simp
next
  case (step_reserve_read keys res l t)
  then show ?thesis by (auto simp: reserve_read_eq)
next
  case (step_reserve_read_prefix keys hit l t)
  then show ?thesis by (auto simp: reserve_read_prefix_eq)
next
  case (step_pass t k t')
  then show ?thesis by simp
next
  case (step_finish_read t keys r l)
  from inv have "l1_inv {} (sy_l1 s)" "holds_all keys (sy_l1 s)"
    using parties_holds_all step_finish_read(2) by (auto simp: proto_inv_def)
  from finish_read_ok [OF this] step_finish_read
  have "entries l = released keys (entries (sy_l1 s))"
    "pool_mem (allocator l) = pool_mem (allocator (sy_l1 s))" by auto
  then show ?thesis using step_finish_read(1)
    by (auto simp: objs_of_def released_def Let_def split: option.splits if_splits)
next
  case (step_promote keys)
  then show ?thesis by (simp add: objs_of_promote)
next
  case (step_delete keys r l)
  with inv delete_ok [of "{}" "sy_l1 s" keys False] show ?thesis
    by (auto simp: proto_inv_def objs_of_def)
next
  case (step_listeners ls)
  then show ?thesis by (simp add: objs_of_def)
next
  case (step_delete_own t keys r l)
  with inv delete_ok [of "{}" "sy_l1 s" keys True] show ?thesis
    by (auto simp: proto_inv_def objs_of_def)
qed

lemma held_entry:
  "proto_inv s \<Longrightarrow> 0 < hold_count (sy_holds s) k \<Longrightarrow>
   \<exists>e. entries (sy_l1 s) k = Some e \<and> \<not> write_locked e \<and> 0 < read_count e"
  unfolding proto_inv_def using parties_okD(1,2)
  by (metis entry_ok_def not_gr0 of_nat_0_less_iff option.exhaust)

lemma proto_step_held:
  assumes step: "proto_step s s'" and inv: "proto_inv s"
    and before: "0 < hold_count (sy_holds s) k" and after: "0 < hold_count (sy_holds s') k"
  shows "\<exists>ob. objs_of (sy_l1 s) k = Some ob \<and> objs_of (sy_l1 s') k = Some ob
    \<and> read_obj (allocator (sy_l1 s')) ob = read_obj (allocator (sy_l1 s)) ob"
proof -
  from held_entry [OF inv before] obtain e where e: "entries (sy_l1 s) k = Some e" "\<not> write_locked e"
    by blast
  from held_entry [OF proto_step_inv [OF step inv] after] obtain e' where
    e': "entries (sy_l1 s') k = Some e'" by blast
  note frame = proto_step_frame [OF step inv]
  have ob: "objs_of (sy_l1 s) k = Some (en_obj e)" using e by (simp add: objs_of_def)
  moreover have "objs_of (sy_l1 s') k \<noteq> None" using e' by (simp add: objs_of_def)
  ultimately have ob': "objs_of (sy_l1 s') k = Some (en_obj e)" using frame by metis
  have "read_obj (allocator (sy_l1 s')) (en_obj e) = read_obj (allocator (sy_l1 s)) (en_obj e)"
    using frame [THEN conjunct2]
  proof
    assume "pool_mem (allocator (sy_l1 s')) = pool_mem (allocator (sy_l1 s))"
    then show ?thesis by (simp add: read_obj_def)
  next
    assume "\<exists>t k e bs. (t, k) \<in> sy_writes s \<and> entries (sy_l1 s) k = Some e
            \<and> length bs \<le> mo_nbytes (en_obj e)
            \<and> pool_mem (allocator (sy_l1 s')) =
                write_seg (mo_offset (en_obj e)) bs (pool_mem (allocator (sy_l1 s)))"
    then obtain t j f bs where tj: "(t, j) \<in> sy_writes s" and f: "entries (sy_l1 s) j = Some f"
      and bs: "length bs \<le> mo_nbytes (en_obj f)"
      and mem: "pool_mem (allocator (sy_l1 s')) =
                write_seg (mo_offset (en_obj f)) bs (pool_mem (allocator (sy_l1 s)))" by blast
    have li: "l1_inv {} (sy_l1 s)" and ok: "parties_ok (sy_holds s) (sy_writes s) (entries (sy_l1 s))"
      using inv by (simp_all add: proto_inv_def)
    have "j \<noteq> k" using parties_okD(3) [OF ok tj] e by auto
    from l1_inv_disjoint [OF li f e(1) this] l1_inv_within [OF li f] bs
    show ?thesis
      by (auto simp: read_obj_def mem seg_disjoint_def seg_of_def capacity_def
          intro!: slice_write_seg_other)
  qed
  with ob ob' show ?thesis by blast
qed

text \<open>Runs during which somebody always holds \<open>k\<close>.\<close>

definition holding_step :: "'k \<Rightarrow> ('t, 'k) sys \<Rightarrow> ('t, 'k) sys \<Rightarrow> bool" where
  "holding_step k s s' \<longleftrightarrow> proto_step s s' \<and> 0 < hold_count (sy_holds s') k"

lemma holding_steps_keep:
  "(holding_step k)\<^sup>*\<^sup>* s s' \<Longrightarrow> proto_inv s \<Longrightarrow> 0 < hold_count (sy_holds s) k \<Longrightarrow>
   proto_inv s' \<and> 0 < hold_count (sy_holds s') k \<and>
   (\<exists>ob. objs_of (sy_l1 s) k = Some ob \<and> objs_of (sy_l1 s') k = Some ob
      \<and> read_obj (allocator (sy_l1 s')) ob = read_obj (allocator (sy_l1 s)) ob)"
proof (induction rule: rtranclp_induct)
  case base
  then show ?case using held_entry [OF base] by (auto simp: objs_of_def)
next
  case (step s1 s2)
  then have st: "proto_step s1 s2" and after: "0 < hold_count (sy_holds s2) k"
    by (simp_all add: holding_step_def)
  from step obtain ob where IH: "proto_inv s1" "0 < hold_count (sy_holds s1) k"
    "objs_of (sy_l1 s) k = Some ob" "objs_of (sy_l1 s1) k = Some ob"
    "read_obj (allocator (sy_l1 s1)) ob = read_obj (allocator (sy_l1 s)) ob" by blast
  from proto_step_held [OF st IH(1,2) after] IH(3-5) proto_step_inv [OF st IH(1)] after
  show ?case by auto
qed

subsection \<open>A concrete run\<close>

text \<open>
  Party 0 reserves, and finishes, one chunk of two bytes; party 1 takes a read hold; the evictor
  then tries to delete it.
\<close>

definition demo_calls :: "nat l1_call list" where
  "demo_calls = [Reserve_write [7] 2 False, Finish_write [7], Reserve_read [7], Delete [7] False]"

definition demo_l1 :: "nat \<Rightarrow> nat l1" where
  "demo_l1 n = l1_run (take n demo_calls) (L1Manager (PoolAllocator [1, 2, 3, 4]))"

definition demo_sys :: "nat \<Rightarrow> (nat, nat) sys" where
  "demo_sys n = \<lparr>sy_l1 = demo_l1 n, sy_holds = (if n \<le> 2 then {#} else {#(1, 7)#}),
     sy_writes = (if n = 1 then {(0, 7)} else {})\<rparr>"

lemma demo_granted: "granted (fst (reserve_write [7] 2 False (demo_l1 0))) [7] = {7}"
proof -
  have "fst (reserve_write [7] 2 False (demo_l1 0)) 7 = Some (Some (MemoryObj 2 0))" by code_simp
  then show ?thesis by (auto simp: granted_def)
qed

lemma demo_read: "fst (reserve_read [7] (demo_l1 2)) 7 = Some (Some (MemoryObj 2 0))"
  by code_simp

lemma demo_temp: "\<not> is_temporary (the (entries (demo_l1 1) 7))"
  by code_simp

lemma demo_l1_Suc: "n < 4 \<Longrightarrow> demo_l1 (Suc n) = l1_exec (demo_calls ! n) (demo_l1 n)"
proof -
  have "length demo_calls = 4" by (simp add: demo_calls_def)
  then show "n < 4 \<Longrightarrow> ?thesis"
    by (simp add: demo_l1_def l1_run_def take_Suc_conv_app_nth)
qed

lemma demo_steps:
  "proto_step (init_sys [1, 2, 3, 4] []) (demo_sys 1)" "proto_step (demo_sys 1) (demo_sys 2)"
  "proto_step (demo_sys 2) (demo_sys 3)" "proto_step (demo_sys 3) (demo_sys 4)"
proof -
  have d0: "demo_l1 0 = L1Manager (PoolAllocator [1, 2, 3, 4])" by (simp add: demo_l1_def l1_run_def)
  have "sy_l1 (init_sys [1, 2, 3, 4] []) = demo_l1 0" by (simp add: d0 init_sys_def L1Manager_def)
  with step_reserve_write [of 2 "[7]" False "init_sys [1, 2, 3, 4] [] :: (nat, nat) sys"
      "fst (reserve_write [7] 2 False (demo_l1 0))" "snd (reserve_write [7] 2 False (demo_l1 0))" 0]
  show "proto_step (init_sys [1, 2, 3, 4] []) (demo_sys 1)"
    using demo_l1_Suc [of 0] by (simp add: demo_granted demo_sys_def init_sys_def demo_calls_def)
  show "proto_step (demo_sys 1) (demo_sys 2)"
    using step_finish_write [of 0 "[7]" "demo_sys 1" "fst (finish_write [7] (demo_l1 1))"
        "snd (finish_write [7] (demo_l1 1))"] demo_l1_Suc [of 1] demo_temp
    by (simp add: demo_sys_def demo_calls_def numeral_2_eq_2)
  show "proto_step (demo_sys 2) (demo_sys 3)"
    using step_reserve_read [of "[7]" "demo_sys 2" "fst (reserve_read [7] (demo_l1 2))"
        "snd (reserve_read [7] (demo_l1 2))" 1] demo_l1_Suc [of 2] demo_read
    by (simp add: demo_sys_def demo_calls_def numeral_3_eq_3 holds_of_def)
  show "proto_step (demo_sys 3) (demo_sys 4)"
    using step_delete [of "[7]" "demo_sys 3" "fst (delete [7] False (demo_l1 3))"
        "snd (delete [7] False (demo_l1 3))"] demo_l1_Suc [of 3]
    by (simp add: demo_sys_def demo_calls_def)
qed

lemma demo_reach:
  "proto_step\<^sup>*\<^sup>* (init_sys [1, 2, 3, 4] []) (demo_sys 1)"
  "proto_step\<^sup>*\<^sup>* (init_sys [1, 2, 3, 4] []) (demo_sys 3)"
  "proto_step\<^sup>*\<^sup>* (init_sys [1, 2, 3, 4] []) (demo_sys 4)"
  using demo_steps by (meson rtranclp.rtrancl_refl rtranclp.rtrancl_into_rtrancl)+

subsection \<open>Properties\<close>

text \<open>
  C1. Cache safety: in every state the parties can bring the manager to, a chunk on which some
  party has a read hold stays in the table with the same memory, and the bytes of that memory
  do not change, through any further calls of any parties (stores, L2 loads, evictions,
  forced deletions, releases by others) for as long as somebody holds it.
\<close>

theorem held_chunk_is_stable:
  assumes "proto_step\<^sup>*\<^sup>* (init_sys m ls) s" and "(t, k) \<in># sy_holds s"
    and "(holding_step k)\<^sup>*\<^sup>* s s'"
  shows "\<exists>ob. objs_of (sy_l1 s) k = Some ob \<and> objs_of (sy_l1 s') k = Some ob
    \<and> read_obj (allocator (sy_l1 s')) ob = read_obj (allocator (sy_l1 s)) ob"
proof -
  have "0 < hold_count (sy_holds s) k" using assms(2) hold_count_pos by fast
  with holding_steps_keep [OF assms(3) proto_steps_inv [OF assms(1) proto_inv_init]]
  show ?thesis by blast
qed

lemma held_chunk_is_stable_witness:
  "\<exists>ob. objs_of (demo_l1 3) 7 = Some ob \<and> objs_of (demo_l1 4) 7 = Some ob
    \<and> read_obj (allocator (demo_l1 4)) ob = read_obj (allocator (demo_l1 3)) ob"
proof -
  have "holding_step 7 (demo_sys 3) (demo_sys 4)"
    using demo_steps(4) by (simp add: holding_step_def) (simp add: demo_sys_def)
  then have "(holding_step 7)\<^sup>*\<^sup>* (demo_sys 3) (demo_sys 4)" by blast
  moreover have "(1, 7) \<in># sy_holds (demo_sys 3)" by (simp add: demo_sys_def)
  ultimately show ?thesis
    using held_chunk_is_stable [OF demo_reach(2)] by (force simp: demo_sys_def)
qed

text \<open>
  C5. The invariant of the lock protocol holds in every state the parties can reach: the
  entries own disjoint live segments and nothing is lost; an entry's read count is exactly the
  number of outstanding read holds on it; it is write-locked exactly while one party (and one
  only) writes it, and then nobody reads it; a readable temporary entry is always held.
\<close>

theorem protocol_invariant:
  assumes "proto_step\<^sup>*\<^sup>* (init_sys m ls) s"
  shows "l1_inv {} (sy_l1 s) \<and> parties_ok (sy_holds s) (sy_writes s) (entries (sy_l1 s))"
  using proto_steps_inv [OF assms proto_inv_init] by (simp add: proto_inv_def)

lemma protocol_invariant_witness:
  "parties_ok {#(1 :: nat, 7)#} {} (entries (demo_l1 4)) \<and> entries (demo_l1 4) 7 \<noteq> None"
proof -
  have "parties_ok (sy_holds (demo_sys 4)) (sy_writes (demo_sys 4)) (entries (sy_l1 (demo_sys 4)))"
    using protocol_invariant [OF demo_reach(3)] by (rule conjunct2)
  then have ok: "parties_ok {#(1 :: nat, 7)#} {} (entries (demo_l1 4))" by (simp add: demo_sys_def del: One_nat_def)
  with parties_okD(2) [OF ok, of 7] show ?thesis by auto
qed

text \<open>
  A chunk that is being written is invisible: until its writer finishes, \<open>reserve_read\<close>
  gives no object for it, the prefix search stops in front of it, it is not evictable and an
  unforced \<open>delete\<close> leaves it alone.
\<close>

theorem chunk_being_written_is_invisible:
  assumes "proto_step\<^sup>*\<^sup>* (init_sys m ls) s" and "(t, k) \<in> sy_writes s" and "k \<in> set keys"
  shows "fst (reserve_read keys (sy_l1 s)) k = Some None
    \<and> k \<notin> set (take (fst (reserve_read_prefix keys (sy_l1 s))) keys)
    \<and> \<not> is_evictable (sy_l1 s) k
    \<and> (\<exists>l'. snd (delete keys False (sy_l1 s)) = l' \<and> entries l' k = entries (sy_l1 s) k)"
proof -
  have inv: "l1_inv {} (sy_l1 s)" "parties_ok (sy_holds s) (sy_writes s) (entries (sy_l1 s))"
    using proto_steps_inv [OF assms(1) proto_inv_init] by (simp_all add: proto_inv_def)
  obtain e where e: "entries (sy_l1 s) k = Some e" "write_locked e"
    using parties_okD(3) [OF inv(2) assms(2)] by blast
  then have nr: "\<not> is_readable (sy_l1 s) k" "\<not> is_evictable (sy_l1 s) k"
    by (simp_all add: is_readable_iff is_evictable_iff)
  have "k \<notin> set (takeWhile (is_readable (sy_l1 s)) keys)" using nr(1) by (auto dest: set_takeWhileD)
  moreover have "entries (snd (delete keys False (sy_l1 s))) k = entries (sy_l1 s) k"
    using delete_ok [OF inv(1), of keys False] nr(2) by (auto simp: deletable_def)
  ultimately show ?thesis
    using nr assms(3) by (simp add: reserve_read_eq reserve_read_prefix_eq takeWhile_eq_take [symmetric])
qed

lemma chunk_being_written_is_invisible_witness:
  "fst (reserve_read [7] (demo_l1 1)) 7 = Some None \<and> \<not> is_evictable (demo_l1 1) 7"
  using chunk_being_written_is_invisible [OF demo_reach(1), of 0 7 "[7]"] by (simp add: demo_sys_def)

text \<open>
  Giving back the last read hold of a chunk frees it at once, memory included, when it is a
  temporary (prefetched) entry, and otherwise leaves it in the cache, where it becomes
  evictable.
\<close>

theorem last_release:
  assumes "proto_step\<^sup>*\<^sup>* (init_sys m ls) s" and "(t, k) \<in># sy_holds s"
    and "hold_count (sy_holds s) k = 1" and "entries (sy_l1 s) k = Some e"
    and "finish_read [k] (sy_l1 s) = (r, l)"
  shows "r = Inr () \<and> (if is_temporary e
    then entries l k = None \<and> fst (l1_usage l) = fst (l1_usage (sy_l1 s)) - int (mo_nbytes (en_obj e))
    else entries l k = Some (e\<lparr>read_count := 0\<rparr>) \<and> is_evictable l k
         \<and> fst (l1_usage l) = fst (l1_usage (sy_l1 s)))"
proof -
  have inv: "l1_inv {} (sy_l1 s)" and ok: "parties_ok (sy_holds s) (sy_writes s) (entries (sy_l1 s))"
    using proto_steps_inv [OF assms(1) proto_inv_init] by (simp_all add: proto_inv_def)
  have "holds_of t [k] \<subseteq># sy_holds s" using assms(2) by (simp add: holds_of_def)
  from finish_read_ok [OF inv parties_holds_all [OF ok this]] assms(5)
  have l: "r = Inr ()" "l1_inv {} l" "entries l = released [k] (entries (sy_l1 s))" by auto
  have rc: "read_count e = 1" "\<not> write_locked e"
    using parties_okD(1) [OF ok assms(4)] assms(3) by (auto simp: entry_ok_def)
  have es: "entries l = (if is_temporary e then (entries (sy_l1 s))(k := None)
      else (entries (sy_l1 s))(k \<mapsto> e\<lparr>read_count := 0\<rparr>))"
    unfolding l(3) using assms(4) rc(1)
    by (intro ext) (auto simp: released_def Let_def split: option.splits)
  have fin: "finite (dom (entries (sy_l1 s)))" by (rule l1_inv_finite [OF inv])
  let ?w = "\<lambda>es k. mo_nbytes (en_obj (the (es k)))"
  have u: "fst (l1_usage l) = int (\<Sum>j \<in> dom (entries l). ?w (entries l) j)"
    "fst (l1_usage (sy_l1 s)) = int (\<Sum>j \<in> dom (entries (sy_l1 s)). ?w (entries (sy_l1 s)) j)"
    using l1_inv_usage [OF l(2)] l1_inv_usage [OF inv] by simp_all
  show ?thesis
  proof (cases "is_temporary e")
    case True
    have "(\<Sum>j \<in> dom (entries (sy_l1 s)). ?w (entries (sy_l1 s)) j) =
        mo_nbytes (en_obj e) + (\<Sum>j \<in> dom (entries (sy_l1 s)) - {k}. ?w (entries (sy_l1 s)) j)"
      using fin assms(4) by (subst sum.remove [of _ k]) auto
    moreover have "(\<Sum>j \<in> dom (entries (sy_l1 s)) - {k}. ?w (entries (sy_l1 s)) j) =
        (\<Sum>j \<in> dom (entries l). ?w (entries l) j)"
      unfolding es if_P [OF True] by (intro sum.cong) auto
    moreover have "entries l k = None" unfolding es by (simp add: True)
    ultimately show ?thesis using True l(1) u by simp
  next
    case False
    have "(\<Sum>j \<in> dom (entries l). ?w (entries l) j) =
        (\<Sum>j \<in> dom (entries (sy_l1 s)). ?w (entries (sy_l1 s)) j)"
      unfolding es if_not_P [OF False] using assms(4) by (intro sum.cong) (auto split: if_splits)
    moreover have "entries l k = Some (e\<lparr>read_count := 0\<rparr>)" unfolding es by (simp add: False)
    ultimately show ?thesis using False l(1) u rc(2) by (simp add: is_evictable_iff)
  qed
qed

lemma last_release_witness:
  "fst (finish_read [7] (demo_l1 3)) = Inr () \<and> is_evictable (snd (finish_read [7] (demo_l1 3))) 7"
proof -
  obtain e where e: "entries (demo_l1 3) 7 = Some e" "\<not> is_temporary e"
  proof -
    have "entries (demo_l1 3) 7 = Some ((Entry (MemoryObj 2 0) False False)\<lparr>read_count := 1\<rparr>)"
      by code_simp
    then show ?thesis using that by (simp add: Entry_def)
  qed
  with last_release [OF demo_reach(2), of 1 7 e "fst (finish_read [7] (demo_l1 3))"
      "snd (finish_read [7] (demo_l1 3))"]
  show ?thesis by (simp add: demo_sys_def)
qed

end
