(* ===== verification/L2_Contract.thy ===== *)
theory L2_Contract
  imports L2_Adapters
begin

text \<open>
  What the controllers rely on when they talk to an L2 adapter: the interface
  \<open>l2_backend\<close>.  An adapter keeps contents under names of keys; \<open>name\<close> is the identity for
  the mock adapter and the file name for the filesystem adapter.  The interface is interpreted
  on both adapters and on their dispatch.
\<close>

subsection \<open>Objects\<close>

definition obj_in :: "pool \<Rightarrow> mem_obj \<Rightarrow> bool" where
  "obj_in p ob \<longleftrightarrow> mo_offset ob + mo_nbytes ob \<le> capacity p"

definition apart :: "mem_obj \<Rightarrow> mem_obj \<Rightarrow> bool" where
  "apart a b \<longleftrightarrow> seg_disjoint (seg_of a) (seg_of b)"

definition objs_ok :: "pool \<Rightarrow> mem_obj list \<Rightarrow> bool" where
  "objs_ok p objs \<longleftrightarrow> (\<forall>ob \<in> set objs. obj_in p ob) \<and> sorted_wrt apart objs"

text \<open>\<open>only_objs objs p p'\<close>: the pools agree but for bytes inside the objects.\<close>

definition only_objs :: "mem_obj list \<Rightarrow> pool \<Rightarrow> pool \<Rightarrow> bool" where
  "only_objs objs p p' \<longleftrightarrow>
     p' = p\<lparr>pool_mem := pool_mem p'\<rparr> \<and> length (pool_mem p') = length (pool_mem p)
     \<and> (\<forall>x. (\<forall>ob \<in> set objs. apart ob x) \<longrightarrow> read_obj p' x = read_obj p x)"

lemma apart_sym: "apart a b \<Longrightarrow> apart b a"
  by (auto simp: apart_def seg_disjoint_def)

lemma only_objs_refl [simp]: "only_objs objs p p"
  by (simp add: only_objs_def)

lemma only_objs_trans: "only_objs objs p p1 \<Longrightarrow> only_objs objs p1 p2 \<Longrightarrow> only_objs objs p p2"
  unfolding only_objs_def by (metis pool.surjective pool.update_convs(1))

lemma only_objs_mono: "only_objs objs p p' \<Longrightarrow> set objs \<subseteq> set objs' \<Longrightarrow> only_objs objs' p p'"
  unfolding only_objs_def by blast

lemma only_objs_in: "only_objs objs p p' \<Longrightarrow> obj_in p' ob = obj_in p ob"
  unfolding only_objs_def obj_in_def capacity_def by metis

lemma only_objs_ok: "only_objs objs p p' \<Longrightarrow> objs_ok p' xs = objs_ok p xs"
  by (simp add: objs_ok_def only_objs_in)

lemma objs_ok_tail: "objs_ok p (ob # objs) \<Longrightarrow> only_objs xs p p1 \<Longrightarrow> objs_ok p1 objs"
  using only_objs_ok [of xs p p1 objs] by (simp add: objs_ok_def)

lemma write_part:
  assumes "obj_in p ob" and "length bs \<le> mo_nbytes ob"
  shows "only_objs [ob] p (p\<lparr>pool_mem := write_seg (mo_offset ob) bs (pool_mem p)\<rparr>)"
    and "length bs = mo_nbytes ob \<Longrightarrow>
      read_obj (p\<lparr>pool_mem := write_seg (mo_offset ob) bs (pool_mem p)\<rparr>) ob = bs"
proof -
  have le: "mo_offset ob + length bs \<le> length (pool_mem p)"
    using assms by (simp add: obj_in_def capacity_def)
  then show "only_objs [ob] p (p\<lparr>pool_mem := write_seg (mo_offset ob) bs (pool_mem p)\<rparr>)"
    unfolding only_objs_def
  proof (intro conjI allI impI)
    fix x assume "\<forall>ob' \<in> set [ob]. apart ob' x"
    then have "mo_offset x + mo_nbytes x \<le> mo_offset ob \<or> mo_offset ob + length bs \<le> mo_offset x"
      using assms(2) by (auto simp: apart_def seg_disjoint_def seg_of_def)
    from slice_write_seg_other [OF le this]
    show "read_obj (p\<lparr>pool_mem := write_seg (mo_offset ob) bs (pool_mem p)\<rparr>) x = read_obj p x"
      by (simp add: read_obj_def)
  qed (use le in simp_all)
  show "read_obj (p\<lparr>pool_mem := write_seg (mo_offset ob) bs (pool_mem p)\<rparr>) ob = bs"
    if "length bs = mo_nbytes ob"
    using slice_write_seg_same [OF le] that by (simp add: read_obj_def)
qed

lemma only_objs_read: "only_objs objs p p' \<Longrightarrow> (\<And>ob. ob \<in> set objs \<Longrightarrow> apart ob x) \<Longrightarrow> read_obj p' x = read_obj p x"
  by (simp add: only_objs_def)

subsection \<open>The interface\<close>

text \<open>
  \<open>loaded_ok\<close> is the result a correct \<open>load\<close> may have: the first \<open>n\<close> objects hold what is
  stored under the first \<open>n\<close> keys, and nothing outside the objects changed.  Stored contents
  that are longer than the object are cut (the filesystem adapter reads as much as fits).
\<close>

definition loaded_ok :: "('n \<rightharpoonup> byte list) \<Rightarrow> (chunk_key \<Rightarrow> 'n) \<Rightarrow> chunk_key list \<Rightarrow> mem_obj list
    \<Rightarrow> pool \<Rightarrow> nat \<Rightarrow> pool \<Rightarrow> bool" where
  "loaded_ok v name keys objs p n p' \<longleftrightarrow>
     n \<le> length keys \<and> n \<le> length objs \<and> only_objs objs p p'
     \<and> (\<forall>i < n. \<exists>bs. v (name (keys ! i)) = Some bs
          \<and> read_obj p' (objs ! i) = take (mo_nbytes (objs ! i)) bs)"

definition loadable :: "('n \<rightharpoonup> byte list) \<Rightarrow> (chunk_key \<Rightarrow> 'n) \<Rightarrow> chunk_key list \<Rightarrow> mem_obj list \<Rightarrow> bool" where
  "loadable v name keys objs \<longleftrightarrow>
     list_all2 (\<lambda>k ob. \<exists>bs. v (name k) = Some bs \<and> length bs = mo_nbytes ob) keys objs"

locale l2_backend =
  fixes name :: "chunk_key \<Rightarrow> 'n"
    and view :: "'s \<Rightarrow> 'n \<rightharpoonup> byte list"
    and store :: "chunk_key list \<Rightarrow> mem_obj list \<Rightarrow> pool \<Rightarrow> 's \<Rightarrow> 's"
    and lookup :: "chunk_key list \<Rightarrow> 's \<Rightarrow> nat"
    and load :: "chunk_key list \<Rightarrow> mem_obj list \<Rightarrow> 's \<Rightarrow> pool \<Rightarrow> nat res \<times> pool"
  assumes store_other: "(\<And>k ob. (k, ob) \<in> set (zip keys objs) \<Longrightarrow> name k \<noteq> x) \<Longrightarrow>
      view (store keys objs p s) x = view s x"
    and store_in: "(k, ob) \<in> set (zip keys objs) \<Longrightarrow>
      \<exists>v. view (store keys objs p s) (name k) = Some v \<and>
        (view s (name k) = Some v \<or>
         (\<exists>k' ob'. (k', ob') \<in> set (zip keys objs) \<and> name k' = name k \<and> v = read_obj p ob'))"
    and lookup_prefix: "lookup keys s = count_prefix (\<lambda>k. view s (name k) \<noteq> None) keys"
    and load_correct: "objs_ok p objs \<Longrightarrow> load keys objs s p = (Inr n, p') \<Longrightarrow>
      loaded_ok (view s) name keys objs p n p'"
    and load_complete: "objs_ok p objs \<Longrightarrow> loadable (view s) name keys objs \<Longrightarrow>
      \<exists>p'. load keys objs s p = (Inr (length keys), p')"
begin

text \<open>Storing never makes anything disappear, and what was stored is found.\<close>

lemma view_kept: "view s x \<noteq> None \<Longrightarrow> view (store keys objs p s) x \<noteq> None"
proof (cases "\<exists>k ob. (k, ob) \<in> set (zip keys objs) \<and> name k = x")
  case True
  then obtain k ob where "(k, ob) \<in> set (zip keys objs)" "name k = x" by blast
  with store_in [OF this(1), of p s] show "view s x \<noteq> None \<Longrightarrow> ?thesis" by auto
next
  case False
  then show "view s x \<noteq> None \<Longrightarrow> ?thesis" using store_other [of keys objs x p s] by fastforce
qed

lemma count_prefix_mono: "(\<And>x. P x \<Longrightarrow> Q x) \<Longrightarrow> count_prefix P xs \<le> count_prefix Q xs"
  by (induction xs) auto

lemma lookup_mono: "lookup ks s \<le> lookup ks (store keys objs p s)"
  unfolding lookup_prefix by (rule count_prefix_mono) (rule view_kept)

lemma lookup_le: "lookup keys s \<le> length keys"
  by (simp add: lookup_prefix)

lemma stored_found:
  assumes "length keys \<le> length objs"
  shows "lookup keys (store keys objs p s) = length keys"
proof -
  have "view (store keys objs p s) (name k) \<noteq> None" if "k \<in> set keys" for k
  proof -
    from that obtain i where "i < length keys" "keys ! i = k" by (auto simp: in_set_conv_nth)
    with assms have "(k, objs ! i) \<in> set (zip keys objs)" by (force simp: set_zip)
    from store_in [OF this] show ?thesis by (metis option.distinct(1))
  qed
  then have "length keys \<le> lookup keys (store keys objs p s)"
    unfolding lookup_prefix by (intro count_prefix_maximal) auto
  with lookup_le [of keys "store keys objs p s"] show ?thesis by simp
qed

text \<open>New chunks come back byte for byte.\<close>

lemma store_view:
  assumes "length keys = length objs" and "distinct (map name keys)"
    and "i < length keys" and "view s (name (keys ! i)) = None"
  shows "view (store keys objs p s) (name (keys ! i)) = Some (read_obj p (objs ! i))"
proof -
  have "(keys ! i, objs ! i) \<in> set (zip keys objs)" using assms(1,3) by (auto simp: set_zip)
  from store_in [OF this, of p s] obtain v where
    v: "view (store keys objs p s) (name (keys ! i)) = Some v"
    "view s (name (keys ! i)) = Some v \<or>
       (\<exists>k' ob'. (k', ob') \<in> set (zip keys objs) \<and> name k' = name (keys ! i) \<and> v = read_obj p ob')"
    by blast
  from v(2) assms(4) obtain k' ob' where kk: "(k', ob') \<in> set (zip keys objs)" "name k' = name (keys ! i)"
    "v = read_obj p ob'" by auto
  then obtain j where j: "j < length keys" "k' = keys ! j" "ob' = objs ! j" by (auto simp: set_zip)
  with kk(2) assms(2,3) have "j = i" by (metis length_map nth_eq_iff_index_eq nth_map)
  with v(1) kk(3) j show ?thesis by simp
qed

lemma store_load:
  assumes "length keys = length objs" and "distinct (map name keys)"
    and "\<And>k. k \<in> set keys \<Longrightarrow> view s (name k) = None"
    and "objs_ok p objs" and "objs_ok q outs" and "map mo_nbytes outs = map mo_nbytes objs"
  shows "\<exists>q'. load keys outs (store keys objs p s) q = (Inr (length keys), q')
    \<and> map (read_obj q') outs = map (read_obj p) objs \<and> only_objs outs q q'"
proof -
  have view: "view (store keys objs p s) (name (keys ! i)) = Some (read_obj p (objs ! i))"
    if "i < length keys" for i
    by (rule store_view) (use assms that in auto)
  have len: "length outs = length objs" using assms(6) by (metis length_map)
  have sz: "length (read_obj p ob) = mo_nbytes ob" if "ob \<in> set objs" for ob
    using assms(4) that by (simp add: objs_ok_def obj_in_def read_obj_def capacity_def)
  have "loadable (view (store keys objs p s)) name keys outs"
    unfolding loadable_def list_all2_conv_all_nth
  proof (intro conjI allI impI)
    fix i assume i: "i < length keys"
    then have "mo_nbytes (outs ! i) = mo_nbytes (objs ! i)"
      using assms(1,6) len by (metis nth_map)
    with view [OF i] sz [of "objs ! i"] i assms(1)
    show "\<exists>bs. view (store keys objs p s) (name (keys ! i)) = Some bs \<and> length bs = mo_nbytes (outs ! i)"
      by simp
  qed (simp add: len assms(1))
  from load_complete [OF assms(5) this] obtain q' where
    ld: "load keys outs (store keys objs p s) q = (Inr (length keys), q')" by blast
  from load_correct [OF assms(5) ld] have ok: "loaded_ok (view (store keys objs p s)) name keys outs q (length keys) q'" .
  have "read_obj q' (outs ! i) = read_obj p (objs ! i)" if i: "i < length keys" for i
  proof -
    have "mo_nbytes (outs ! i) = mo_nbytes (objs ! i)" using assms(1,6) len i by (metis nth_map)
    with ok view [OF i] sz [of "objs ! i"] i assms(1) show ?thesis by (auto simp: loaded_ok_def)
  qed
  then have "map (read_obj q') outs = map (read_obj p) objs"
    using len assms(1) by (intro nth_equalityI) simp_all
  with ld ok show ?thesis by (auto simp: loaded_ok_def)
qed

end

subsection \<open>Loads, one object at a time\<close>

lemma loaded_ok_0: "only_objs objs p p' \<Longrightarrow> loaded_ok v name keys objs p 0 p'"
  by (simp add: loaded_ok_def)

lemma loaded_ok_Cons:
  assumes "objs_ok p (ob # objs)" and "only_objs [ob] p p1" and "v (name k) = Some bs"
    and "read_obj p1 ob = take (mo_nbytes ob) bs" and "loaded_ok v name keys objs p1 d p'"
  shows "loaded_ok v name (k # keys) (ob # objs) p (Suc d) p'"
proof -
  have oo: "only_objs objs p1 p'" using assms(5) by (simp add: loaded_ok_def)
  have "read_obj p' ob = read_obj p1 ob"
    using assms(1) by (intro only_objs_read [OF oo]) (auto simp: objs_ok_def intro: apart_sym)
  moreover have "only_objs (ob # objs) p p'"
    using only_objs_mono [OF assms(2), of "ob # objs"] only_objs_mono [OF oo, of "ob # objs"]
    by (auto intro: only_objs_trans)
  ultimately show ?thesis
    using assms(3-5) by (auto simp: loaded_ok_def less_Suc_eq_0_disj)
qed

subsection \<open>The mock adapter\<close>

lemma mock_store_eq:
  "mock_store keys objs p m k =
    (case map_of (rev (zip keys objs)) k of None \<Rightarrow> m k | Some ob \<Rightarrow> Some (read_obj p ob))"
proof (induction keys objs p m rule: mock_store.induct)
  case (1 k' keys ob objs p m)
  show ?case unfolding mock_store.simps 1 by (auto simp: map_add_def split: option.splits)
qed auto

lemma mock_load_loop_ok:
  "objs_ok p objs \<Longrightarrow> mock_load_loop keys objs m loaded p = (Inr n, p') \<Longrightarrow>
   \<exists>d. n = loaded + d \<and> loaded_ok m (\<lambda>k. k) keys objs p d p'"
proof (induction keys objs m loaded p rule: mock_load_loop.induct)
  case (1 k keys ob objs m loaded p)
  show ?case
  proof (cases "m k")
    case None
    with 1 show ?thesis by (auto intro: loaded_ok_0)
  next
    case (Some bs)
    with "1.prems" obtain p1 where w: "write_obj ob bs p = Inr p1"
      and rest: "mock_load_loop keys objs m (Suc loaded) p1 = (Inr n, p')"
      by (auto split: sum.splits)
    then have p1: "length bs = mo_nbytes ob"
      "p1 = p\<lparr>pool_mem := write_seg (mo_offset ob) bs (pool_mem p)\<rparr>"
      by (auto simp: write_obj_def split: if_splits)
    have "obj_in p ob" using "1.prems"(1) by (simp add: objs_ok_def)
    from write_part [OF this, of bs] p1 have w1: "only_objs [ob] p p1" "read_obj p1 ob = bs" by simp_all
    have "objs_ok p1 objs" by (rule objs_ok_tail [OF "1.prems"(1) w1(1)])
    from "1.IH" [OF Some w this rest] obtain d where d: "n = Suc loaded + d"
      "loaded_ok m (\<lambda>k. k) keys objs p1 d p'" by blast
    with loaded_ok_Cons [OF "1.prems"(1) w1(1), of m "\<lambda>k. k" k bs keys d p'] Some w1(2) p1(1)
    show ?thesis by (intro exI [of _ "Suc d"]) simp
  qed
qed (auto intro: loaded_ok_0)

lemma mock_load_loop_complete:
  "loadable m (\<lambda>k. k) keys objs \<Longrightarrow> \<exists>p'. mock_load_loop keys objs m loaded p = (Inr (loaded + length keys), p')"
  by (induction keys objs m loaded p rule: mock_load_loop.induct)
    (fastforce simp: loadable_def write_obj_def)+

interpretation mock_l2: l2_backend "\<lambda>k. k" "\<lambda>m. m" mock_store mock_lookup mock_load
proof unfold_locales
  fix keys objs p m k ob x s
  show "(\<And>k ob. (k, ob) \<in> set (zip keys objs) \<Longrightarrow> k \<noteq> x) \<Longrightarrow> mock_store keys objs p s x = s x"
  proof -
    assume "\<And>k ob. (k, ob) \<in> set (zip keys objs) \<Longrightarrow> k \<noteq> x"
    then have "x \<notin> fst ` set (zip keys objs)" by fastforce
    then have "map_of (rev (zip keys objs)) x = None" by (simp add: map_of_eq_None_iff)
    then show ?thesis by (simp add: mock_store_eq)
  qed
  show "(k, ob) \<in> set (zip keys objs) \<Longrightarrow> \<exists>v. mock_store keys objs p s k = Some v \<and>
      (s k = Some v \<or> (\<exists>k' ob'. (k', ob') \<in> set (zip keys objs) \<and> k' = k \<and> v = read_obj p ob'))"
  proof -
    assume "(k, ob) \<in> set (zip keys objs)"
    then have "k \<in> fst ` set (rev (zip keys objs))" by force
    then have "map_of (rev (zip keys objs)) k \<noteq> None" by (subst map_of_eq_None_iff) simp
    then obtain ob' where "map_of (rev (zip keys objs)) k = Some ob'" by blast
    moreover from map_of_SomeD [OF this] have "(k, ob') \<in> set (zip keys objs)" by simp
    ultimately show ?thesis by (auto simp: mock_store_eq)
  qed
  show "mock_lookup keys s = count_prefix (\<lambda>k. s k \<noteq> None) keys"
    by (simp add: mock_lookup_def dom_def)
  show "loaded_ok s (\<lambda>k. k) keys objs p n p'" if "objs_ok p objs" "mock_load keys objs s p = (Inr n, p')" for n p'
    using mock_load_loop_ok [OF that(1), of keys s 0 n p'] that(2) by (simp add: mock_load_def)
  show "\<exists>p'. mock_load keys objs s p = (Inr (length keys), p')" if "loadable s (\<lambda>k. k) keys objs"
    using mock_load_loop_complete [OF that, of 0 p] by (simp add: mock_load_def)
qed

subsection \<open>The filesystem adapter\<close>

lemma fs_store_one_base:
  "fs_base (fs_store_one k data d) =
    (if filename k \<in> dom (fs_base d) then fs_base d else (fs_base d)(filename k \<mapsto> data))"
  by (auto simp: fs_store_one_def fs_exists_def write_tmp_def os_replace_def)

text \<open>The first chunk stored under a name stays.\<close>

lemma fs_store_base:
  "fs_base (fs_store keys objs p d) x =
    (case fs_base d x of
       Some v \<Rightarrow> Some v
     | None \<Rightarrow> map_option (read_obj p) (map_of (map (\<lambda>(k, ob). (filename k, ob)) (zip keys objs)) x))"
  by (induction keys objs p d rule: fs_store.induct)
    (auto simp: fs_store_one_base split: option.splits)

lemma fs_load_loop_ok:
  "objs_ok p objs \<Longrightarrow> fs_load_loop keys objs d loaded p = (n, p') \<Longrightarrow>
   \<exists>m. n = loaded + m \<and> loaded_ok (fs_base d) filename keys objs p m p'"
proof (induction keys objs d loaded p rule: fs_load_loop.induct)
  case (1 k keys ob objs d loaded p)
  show ?case
  proof (cases "fs_base d (filename k)")
    case None
    with 1 show ?thesis by (auto intro: loaded_ok_0)
  next
    case (Some bs)
    define part where "part = take (mo_nbytes ob) bs"
    define p1 where "p1 = p\<lparr>pool_mem := write_seg (mo_offset ob) part (pool_mem p)\<rparr>"
    have r: "readinto ob bs p = (length part, p1)" by (simp add: readinto_def part_def p1_def Let_def)
    have ob: "obj_in p ob" using "1.prems"(1) by (simp add: objs_ok_def)
    have lp: "length part \<le> mo_nbytes ob" by (simp add: part_def)
    note w1 = write_part [OF ob lp, folded p1_def]
    have ok1: "objs_ok p1 objs" by (rule objs_ok_tail [OF "1.prems"(1) w1(1)])
    show ?thesis
    proof (cases "length part = mo_nbytes ob")
      case False
      then have "n = loaded" "p' = p1" using "1.prems"(2) Some r by auto
      with w1(1) only_objs_mono [of "[ob]" p p1 "ob # objs"] show ?thesis
        by (intro exI [of _ 0]) (simp add: loaded_ok_0)
    next
      case True
      then have rest: "fs_load_loop keys objs d (Suc loaded) p1 = (n, p')"
        using "1.prems"(2) Some r by simp
      from "1.IH" [OF Some r [symmetric] _ ok1 rest] True obtain m where
        m: "n = Suc loaded + m" "loaded_ok (fs_base d) filename keys objs p1 m p'" by auto
      have "read_obj p1 ob = take (mo_nbytes ob) bs" using w1(2) [OF True] by (simp add: part_def)
      from loaded_ok_Cons [OF "1.prems"(1) w1(1) Some this m(2)] m(1) show ?thesis
        by (intro exI [of _ "Suc m"]) simp
    qed
  qed
qed (auto intro: loaded_ok_0)

lemma fs_load_loop_complete:
  "loadable (fs_base d) filename keys objs \<Longrightarrow>
   \<exists>p'. fs_load_loop keys objs d loaded p = (loaded + length keys, p')"
  by (induction keys objs d loaded p rule: fs_load_loop.induct)
    (fastforce simp: loadable_def readinto_def Let_def)+

text \<open>The file-system adapter with its load as the controllers see it.\<close>

definition fs_load_res :: "chunk_key list \<Rightarrow> mem_obj list \<Rightarrow> fs \<Rightarrow> pool \<Rightarrow> nat res \<times> pool" where
  "fs_load_res keys objs d p = l2_load keys objs (Fs d) p"

interpretation fs_l2: l2_backend filename fs_base fs_store fs_lookup fs_load_res
proof unfold_locales
  fix keys objs p m k ob x s
  show "(\<And>k ob. (k, ob) \<in> set (zip keys objs) \<Longrightarrow> filename k \<noteq> x) \<Longrightarrow> fs_base (fs_store keys objs p s) x = fs_base s x"
  proof -
    assume "\<And>k ob. (k, ob) \<in> set (zip keys objs) \<Longrightarrow> filename k \<noteq> x"
    then have "x \<notin> fst ` set (map (\<lambda>(k, ob). (filename k, ob)) (zip keys objs))" by fastforce
    then have "map_of (map (\<lambda>(k, ob). (filename k, ob)) (zip keys objs)) x = None"
      by (subst map_of_eq_None_iff)
    then show ?thesis by (simp add: fs_store_base split: option.split)
  qed
  show "(k, ob) \<in> set (zip keys objs) \<Longrightarrow> \<exists>v. fs_base (fs_store keys objs p s) (filename k) = Some v \<and>
      (fs_base s (filename k) = Some v \<or>
       (\<exists>k' ob'. (k', ob') \<in> set (zip keys objs) \<and> filename k' = filename k \<and> v = read_obj p ob'))"
  proof (cases "fs_base s (filename k)")
    case None
    assume "(k, ob) \<in> set (zip keys objs)"
    then have "filename k \<in> fst ` set (map (\<lambda>(k, ob). (filename k, ob)) (zip keys objs))" by force
    then have "map_of (map (\<lambda>(k, ob). (filename k, ob)) (zip keys objs)) (filename k) \<noteq> None"
      by (subst map_of_eq_None_iff) (rule notI, erule notE)
    then obtain ob' where ob': "map_of (map (\<lambda>(k, ob). (filename k, ob)) (zip keys objs)) (filename k) = Some ob'"
      by blast
    from map_of_SomeD [OF this] obtain k' where "(k', ob') \<in> set (zip keys objs)" "filename k' = filename k"
      by auto
    with None ob' show ?thesis by (auto simp: fs_store_base)
  next
    case (Some v)
    then show ?thesis by (simp add: fs_store_base)
  qed
  show "fs_lookup keys s = count_prefix (\<lambda>k. fs_base s (filename k) \<noteq> None) keys"
    by (auto simp: fs_lookup_def fs_exists_def dom_def intro!: count_prefix_cong)
  show "loaded_ok (fs_base s) filename keys objs p n p'"
    if "objs_ok p objs" "fs_load_res keys objs s p = (Inr n, p')" for n p'
    using fs_load_loop_ok [OF that(1), of keys s 0 n p'] that(2)
    by (simp add: fs_load_res_def fs_load_def split: prod.splits)
  show "\<exists>p'. fs_load_res keys objs s p = (Inr (length keys), p')" if "loadable (fs_base s) filename keys objs"
    using fs_load_loop_complete [OF that, of 0 p] by (auto simp: fs_load_res_def fs_load_def)
qed

subsection \<open>File names\<close>

definition digit_val :: "char \<Rightarrow> nat" where
  "digit_val c = length (takeWhile (\<lambda>x. x \<noteq> c) ''0123456789abcdef'')"

lemma digit_val_hex_digit: "d < 16 \<Longrightarrow> digit_val (hex_digit d) = d"
proof -
  have "list_all (\<lambda>d. digit_val (hex_digit d) = d) [0..<16]" by code_simp
  then show "d < 16 \<Longrightarrow> ?thesis" by (simp add: list_all_iff)
qed

lemma hex_digit_inj: "a < 16 \<Longrightarrow> b < 16 \<Longrightarrow> hex_digit a = hex_digit b \<Longrightarrow> a = b"
  using digit_val_hex_digit by metis

lemma hex_digit_plain: "d < 16 \<Longrightarrow> hex_digit d \<noteq> CHR ''@'' \<and> hex_digit d \<noteq> CHR ''-''"
proof -
  have "list_all (\<lambda>d. hex_digit d \<noteq> CHR ''@'' \<and> hex_digit d \<noteq> CHR ''-'') [0..<16]" by code_simp
  then show "d < 16 \<Longrightarrow> ?thesis" by (simp add: list_all_iff)
qed

lemma hex_nat_plain: "c \<in> set (hex_nat n) \<Longrightarrow> c \<noteq> CHR ''@'' \<and> c \<noteq> CHR ''-''"
proof (induction n rule: hex_nat.induct)
  case (1 n)
  show ?case
  proof (cases "n < 16")
    case True
    with 1 show ?thesis by (simp add: hex_nat.simps [of n] hex_digit_plain)
  next
    case False
    then have "hex_nat n = hex_nat (n div 16) @ [hex_digit (n mod 16)]"
      by (simp add: hex_nat.simps [of n])
    with 1 False show ?thesis using hex_digit_plain [of "n mod 16"] by auto
  qed
qed

lemma hex_nat_nonempty: "hex_nat n \<noteq> []"
  by (subst hex_nat.simps) simp

lemma hex_nat_inj: "hex_nat m = hex_nat n \<Longrightarrow> m = n"
proof (induction m arbitrary: n rule: hex_nat.induct)
  case (1 m)
  have small: "hex_nat k = [hex_digit k]" if "k < 16" for k using that by (simp add: hex_nat.simps [of k])
  have big: "hex_nat k = hex_nat (k div 16) @ [hex_digit (k mod 16)]" if "\<not> k < 16" for k
    using that by (simp add: hex_nat.simps [of k])
  show ?case
  proof (cases "m < 16"; cases "n < 16")
    assume "m < 16" "n < 16"
    with 1 show ?thesis by (auto simp: small intro: hex_digit_inj)
  next
    assume "m < 16" "\<not> n < 16"
    with 1 show ?thesis by (auto simp: small big hex_nat_nonempty [symmetric])
  next
    assume "\<not> m < 16" "n < 16"
    with 1 show ?thesis by (auto simp: small big hex_nat_nonempty)
  next
    assume mn: "\<not> m < 16" "\<not> n < 16"
    with "1.prems" have eq: "hex_nat (m div 16) = hex_nat (n div 16)"
      "hex_digit (m mod 16) = hex_digit (n mod 16)" by (simp_all add: big)
    from hex_digit_inj [OF _ _ eq(2)] "1.IH" [OF mn(1) eq(1)] show ?thesis
      by (metis div_mod_decomp mod_less_divisor zero_less_numeral)
  qed
qed

lemma hex_int_inj: "hex_int i = hex_int j \<Longrightarrow> i = j"
proof -
  assume eq: "hex_int i = hex_int j"
  have no: "hex_nat n \<noteq> CHR ''-'' # xs" for n xs using hex_nat_plain [of "CHR ''-''" n] by force
  show "i = j"
  proof (cases "i < 0"; cases "j < 0")
    assume "i < 0" "j < 0"
    with eq show ?thesis using hex_nat_inj [of "nat (- i)" "nat (- j)"] by (simp add: hex_int_def)
  next
    assume "i < 0" "\<not> j < 0"
    with eq show ?thesis using no [of "nat j"] by (simp add: hex_int_def) metis
  next
    assume "\<not> i < 0" "j < 0"
    with eq show ?thesis using no [of "nat i"] by (simp add: hex_int_def)
  next
    assume "\<not> i < 0" "\<not> j < 0"
    with eq show ?thesis using hex_nat_inj [of "nat i" "nat j"] by (simp add: hex_int_def)
  qed
qed

lemma hex_int_plain: "CHR ''@'' \<notin> set (hex_int i)"
  using hex_nat_plain by (auto simp: hex_int_def)

lemma hex_bytes_Cons:
  "hex_bytes (b # bs) = hex_digit (unat b div 16) # hex_digit (unat b mod 16) # hex_bytes bs"
  by (simp add: hex_bytes_def)

lemma byte_digits: "unat (b :: byte) div 16 < 16" "unat b mod 16 < 16"
proof -
  have "unat b < 256" using unsigned_less [of b] by simp
  then show "unat b div 16 < 16" "unat b mod 16 < 16" by (simp_all add: div_less_iff_less_mult)
qed

lemma hex_bytes_plain: "CHR ''@'' \<notin> set (hex_bytes bs)"
proof (induction bs)
  case Nil
  then show ?case by (simp add: hex_bytes_def)
next
  case (Cons b bs)
  then show ?case using hex_digit_plain [OF byte_digits(1), of b] hex_digit_plain [OF byte_digits(2), of b]
    by (auto simp: hex_bytes_Cons)
qed

lemma hex_bytes_inj: "hex_bytes bs = hex_bytes cs \<Longrightarrow> bs = cs"
proof (induction bs arbitrary: cs)
  case Nil
  then show ?case by (cases cs) (simp_all add: hex_bytes_Cons, simp add: hex_bytes_def)
next
  case (Cons b bs)
  then obtain c cs' where cs: "cs = c # cs'"
    by (cases cs) (simp_all add: hex_bytes_Cons, simp add: hex_bytes_def)
  with Cons.prems have "hex_digit (unat b div 16) = hex_digit (unat c div 16)"
    "hex_digit (unat b mod 16) = hex_digit (unat c mod 16)" "hex_bytes bs = hex_bytes cs'"
    by (simp_all add: hex_bytes_Cons)
  then have "unat b div 16 = unat c div 16" "unat b mod 16 = unat c mod 16" "bs = cs'"
    using hex_digit_inj byte_digits Cons.IH by blast+
  then have "unat b = unat c" by (metis div_mod_decomp)
  then show ?case using cs \<open>bs = cs'\<close> by (simp add: word_unat_eq_iff)
qed

lemma split_at_first:
  "xs @ c # ys = xs' @ c # ys' \<Longrightarrow> c \<notin> set xs \<Longrightarrow> c \<notin> set xs' \<Longrightarrow> xs = xs' \<and> ys = ys'"
proof (induction xs arbitrary: xs')
  case Nil
  then show ?case by (cases xs') auto
next
  case (Cons x xs)
  then show ?case by (cases xs') auto
qed

lemma split_at_last:
  assumes "xs @ c # ys = xs' @ c # ys'" and "c \<notin> set ys" and "c \<notin> set ys'"
  shows "xs = xs' \<and> ys = ys'"
proof -
  have "rev (xs @ c # ys) = rev (xs' @ c # ys')" using assms(1) by simp
  then have "rev ys @ c # rev xs = rev ys' @ c # rev xs'" by simp
  from split_at_first [OF this] assms(2,3) show ?thesis by simp
qed

subsection \<open>Crashes\<close>

text \<open>
  The states a crash in the middle of \<open>store\<close> can leave on disk: the writes of
  \<open>tmp.write_bytes\<close> may have reached the temporary file in part, \<open>os.replace\<close> happens or not.
\<close>

inductive fs_crash :: "chunk_key list \<Rightarrow> mem_obj list \<Rightarrow> pool \<Rightarrow> fs \<Rightarrow> fs \<Rightarrow> bool" where
  crash_before: "fs_crash keys objs p d d"
| crash_tmp: "\<not> fs_exists d k \<Longrightarrow>
    fs_crash (k # keys) (ob # objs) p d (write_tmp (filename k) (take n (read_obj p ob)) d)"
| crash_later: "fs_crash keys objs p (fs_store_one k (read_obj p ob) d) d' \<Longrightarrow>
    fs_crash (k # keys) (ob # objs) p d d'"

lemma fs_store_base_cong: "fs_base d = fs_base d' \<Longrightarrow> fs_base (fs_store keys objs p d) = fs_base (fs_store keys objs p d')"
  by (simp add: fs_store_base fun_eq_iff)

subsection \<open>Properties\<close>

text \<open>
  C25. What an adapter of either kind stores for new keys it finds and gives back byte for byte:
  the lookup counts all of them, and a load into any objects of the same sizes, in the same pool
  or another, fills each with the bytes its chunk had.
\<close>

theorem l2_store_load:
  assumes "length keys = length objs" and "distinct (map filename keys)"
    and "\<forall>k \<in> set keys. l2_lookup [k] a = 0"
    and "objs_ok p objs" and "objs_ok q outs" and "map mo_nbytes outs = map mo_nbytes objs"
  shows "l2_lookup keys (l2_store keys objs p a) = length keys \<and>
    (\<exists>q'. l2_load keys outs (l2_store keys objs p a) q = (Inr (length keys), q')
       \<and> map (read_obj q') outs = map (read_obj p) objs)"
proof (cases a)
  case (Fs d)
  have "fs_base d (filename k) = None" if "k \<in> set keys" for k
    using assms(3) that Fs fs_l2.lookup_prefix [of "[k]" d] by (auto split: if_splits)
  from fs_l2.store_load [OF assms(1,2) this assms(4-6)] fs_l2.stored_found [of keys objs p d] assms(1)
  show ?thesis by (auto simp: Fs fs_load_res_def)
next
  case (Mock m)
  have dist: "distinct (map (\<lambda>k. k) keys)" using assms(2) by (simp add: distinct_map)
  have "m k = None" if "k \<in> set keys" for k
    using assms(3) that Mock mock_l2.lookup_prefix [of "[k]" m] by (auto split: if_splits)
  from mock_l2.store_load [where s = m and keys = keys and objs = objs, OF assms(1) dist this assms(4-6)]
    mock_l2.stored_found [of keys objs p m] assms(1)
  show ?thesis by (auto simp: Mock)
qed

lemma l2_store_load_witness:
  "(let k = ChunkKey [171, 5] ''org/m'' 0; p = PoolAllocator [1, 2, 3, 4];
        a = l2_store [k] [MemoryObj 2 1] p (Fs (FSAdapter Map.empty Map.empty))
    in l2_lookup [k] a = 1 \<and> (\<exists>q'. l2_load [k] [MemoryObj 2 0] a p = (Inr 1, q') \<and> read_obj q' (MemoryObj 2 0) = [2, 3]))"
proof -
  let ?k = "ChunkKey [171, 5] ''org/m'' 0" and ?p = "PoolAllocator [1, 2, 3, 4]"
  have "objs_ok ?p [MemoryObj 2 1]" "objs_ok ?p [MemoryObj 2 0]"
    by (simp_all add: objs_ok_def obj_in_def PoolAllocator_def capacity_def)
  moreover have "\<forall>k \<in> set [?k]. l2_lookup [k] (Fs (FSAdapter Map.empty Map.empty)) = 0"
    by (simp add: fs_lookup_def fs_exists_def FSAdapter_def)
  ultimately have "l2_lookup [?k] (l2_store [?k] [MemoryObj 2 1] ?p (Fs (FSAdapter Map.empty Map.empty))) = 1 \<and>
      (\<exists>q'. l2_load [?k] [MemoryObj 2 0] (l2_store [?k] [MemoryObj 2 1] ?p (Fs (FSAdapter Map.empty Map.empty))) ?p = (Inr 1, q')
        \<and> read_obj q' (MemoryObj 2 0) = read_obj ?p (MemoryObj 2 1))"
    using l2_store_load [of "[?k]" "[MemoryObj 2 1]" "Fs (FSAdapter Map.empty Map.empty)" ?p ?p "[MemoryObj 2 0]"]
    by (simp del: l2_lookup.simps l2_store.simps l2_load.simps)
  moreover have "read_obj ?p (MemoryObj 2 1) = [2, 3]" by code_simp
  ultimately show ?thesis unfolding Let_def by simp
qed

text \<open>
  File names identify chunks up to the spelling of the model: two keys share a file exactly
  when hash and rank agree and the model names are equal after \<open>/\<close> has become \<open>-\<close>.
\<close>

theorem filename_identity:
  "filename k = filename k' \<longleftrightarrow>
    chunk_hash k = chunk_hash k' \<and> ck_rank k = ck_rank k' \<and> sanitize (ck_model k) = sanitize (ck_model k')"
proof
  assume "filename k = filename k'"
  then have "(sanitize (ck_model k) @ CHR ''@'' # hex_int (ck_rank k)) @ CHR ''@'' # (hex_bytes (chunk_hash k) @ ''.data'') =
      (sanitize (ck_model k') @ CHR ''@'' # hex_int (ck_rank k')) @ CHR ''@'' # (hex_bytes (chunk_hash k') @ ''.data'')"
    by (simp add: filename_def)
  from split_at_last [OF this] hex_bytes_plain
  have "sanitize (ck_model k) @ CHR ''@'' # hex_int (ck_rank k) = sanitize (ck_model k') @ CHR ''@'' # hex_int (ck_rank k')"
    and h: "hex_bytes (chunk_hash k) = hex_bytes (chunk_hash k')" by auto
  from split_at_last [OF this(1) hex_int_plain hex_int_plain]
  have "sanitize (ck_model k) = sanitize (ck_model k')" "hex_int (ck_rank k) = hex_int (ck_rank k')" by auto
  with h show "chunk_hash k = chunk_hash k' \<and> ck_rank k = ck_rank k' \<and> sanitize (ck_model k) = sanitize (ck_model k')"
    by (simp add: hex_bytes_inj hex_int_inj)
qed (simp add: filename_def)

text \<open>
  Different models whose names differ only in \<open>/\<close> against \<open>-\<close> share files: after a chunk
  of model \<open>a/b\<close> was stored, a lookup for model \<open>a-b\<close> counts a hit and the load gives it
  the other model's bytes.
\<close>

theorem models_share_files:
  "(let k = ChunkKey [1] ''a/b'' 0; k' = ChunkKey [1] ''a-b'' 0;
        p = PoolAllocator [7, 9, 0, 0];
        d = fs_store [k] [MemoryObj 2 0] p (FSAdapter Map.empty Map.empty)
    in k \<noteq> k' \<and> fs_lookup [k'] d = 1
       \<and> read_obj (snd (fs_load [k'] [MemoryObj 2 2] d p)) (MemoryObj 2 2) = [7, 9])"
proof -
  have "ChunkKey [1] ''a/b'' 0 \<noteq> ChunkKey [1] ''a-b'' 0" by simp
  moreover have "fs_lookup [ChunkKey [1] ''a-b'' 0] (fs_store [ChunkKey [1] ''a/b'' 0] [MemoryObj 2 0]
      (PoolAllocator [7, 9, 0, 0]) (FSAdapter Map.empty Map.empty)) = 1"
    by code_simp
  moreover have "read_obj (snd (fs_load [ChunkKey [1] ''a-b'' 0] [MemoryObj 2 2]
      (fs_store [ChunkKey [1] ''a/b'' 0] [MemoryObj 2 0] (PoolAllocator [7, 9, 0, 0])
        (FSAdapter Map.empty Map.empty)) (PoolAllocator [7, 9, 0, 0]))) (MemoryObj 2 2) = [7, 9]"
    by code_simp
  ultimately show ?thesis unfolding Let_def by blast
qed

text \<open>
  C37. A crash in the middle of a store never leaves a half-written chunk that a later lookup would
  trust: every file in the base directory is as before or holds all the bytes of its chunk, none
  is lost, and running the same store again after the restart gives exactly the contents the
  uninterrupted store would have given, leftovers in \<open>tmp\<close> notwithstanding.
\<close>

theorem store_is_crash_safe:
  assumes "fs_crash keys objs p d d'"
  shows "(\<forall>x v. fs_base d' x = Some v \<longrightarrow> fs_base d x = Some v \<or>
      (\<exists>k ob. (k, ob) \<in> set (zip keys objs) \<and> filename k = x \<and> v = read_obj p ob))
    \<and> (\<forall>x v. fs_base d x = Some v \<longrightarrow> fs_base d' x = Some v)
    \<and> fs_base (fs_store keys objs p d') = fs_base (fs_store keys objs p d)"
  using assms
proof (induction rule: fs_crash.induct)
  case (crash_before keys objs p d)
  then show ?case by simp
next
  case (crash_tmp d k keys ob objs p n)
  have "fs_base (write_tmp (filename k) (take n (read_obj p ob)) d) = fs_base d" by (simp add: write_tmp_def)
  then show ?case using fs_store_base_cong by metis
next
  case (crash_later keys objs p k ob d d')
  let ?d1 = "fs_store_one k (read_obj p ob) d"
  have old: "fs_base d x = Some v \<Longrightarrow> fs_base ?d1 x = Some v" for x v
    by (auto simp: fs_store_one_base)
  have new: "fs_base ?d1 x = Some v \<Longrightarrow> fs_base d x = Some v \<or> (x = filename k \<and> v = read_obj p ob)" for x v
    by (auto simp: fs_store_one_base split: if_splits)
  have "fs_base ?d1 (filename k) \<noteq> None" by (auto simp: fs_store_one_base)
  then obtain w where "fs_base ?d1 (filename k) = Some w" by blast
  with crash_later.IH have "fs_exists d' k" by (auto simp: fs_exists_def)
  then have again: "fs_store (k # keys) (ob # objs) p d' = fs_store keys objs p d'" by (simp add: fs_store_one_def)
  have "fs_base d' x = Some v \<longrightarrow> fs_base d x = Some v \<or>
      (\<exists>k' ob'. (k', ob') \<in> set (zip (k # keys) (ob # objs)) \<and> filename k' = x \<and> v = read_obj p ob')" for x v
    using crash_later.IH new [of x v] by auto
  moreover have "fs_base d x = Some v \<longrightarrow> fs_base d' x = Some v" for x v
    using crash_later.IH old by blast
  ultimately show ?case using crash_later.IH again by simp
qed

lemma store_is_crash_safe_witness:
  "(let k = ChunkKey [1] ''m'' 0; p = PoolAllocator [7, 9, 0, 0]; d = FSAdapter Map.empty Map.empty;
        d' = write_tmp (filename k) [7] d
    in fs_base (fs_store [k] [MemoryObj 2 0] p d') = fs_base (fs_store [k] [MemoryObj 2 0] p d))"
proof -
  let ?k = "ChunkKey [1] ''m'' 0" and ?p = "PoolAllocator [7, 9, 0, 0]" and ?d = "FSAdapter Map.empty Map.empty"
  have "\<not> fs_exists ?d ?k" by (simp add: fs_exists_def FSAdapter_def)
  from crash_tmp [OF this, of "[]" "MemoryObj 2 0" "[]" ?p 1]
  have "fs_crash [?k] [MemoryObj 2 0] ?p ?d (write_tmp (filename ?k) (take 1 (read_obj ?p (MemoryObj 2 0))) ?d)" .
  moreover have "take 1 (read_obj ?p (MemoryObj 2 0)) = [7]" by code_simp
  ultimately have "fs_crash [?k] [MemoryObj 2 0] ?p ?d (write_tmp (filename ?k) [7] ?d)" by simp
  from store_is_crash_safe [OF this] show ?thesis unfolding Let_def by (elim conjE)
qed

end
