(* ===== verification/Prefetch_Laws.thy ===== *)
theory Prefetch_Laws
  imports Prefetch L2_Contract
begin

text \<open>
  What one lookup of the prefetch controller does to L1 and to the session: the reservation of
  the slots, the loads from the adapters, the publication of the hits, and the release of the
  holds.
\<close>

subsection \<open>Writing bytes under the manager\<close>

lemma set_pool_sel [simp]:
  "entries (set_pool p l) = entries l" "allocator (set_pool p l) = p" "listeners (set_pool p l) = listeners l"
  "objs_of (set_pool p l) = objs_of l" "is_readable (set_pool p l) = is_readable l"
  by (simp_all add: set_pool_def objs_of_def is_readable_def fun_eq_iff)

lemma l1_inv_set_pool:
  assumes "only_objs objs (allocator l) p"
  shows "l1_inv G (set_pool p l) = l1_inv G l"
proof -
  have p: "p = (allocator l)\<lparr>pool_mem := pool_mem p\<rparr>" "length (pool_mem p) = capacity (allocator l)"
    using assms by (simp_all add: only_objs_def capacity_def)
  have "pool_inv p L = pool_inv (allocator l) L" for L
    by (subst p(1)) (rule pool_inv_mem [OF p(2)])
  then show ?thesis by (simp add: l1_inv_def owned_def)
qed

text \<open>The objects of entries of distinct keys are fit for a load.\<close>

lemma l1_objs_ok:
  assumes inv: "l1_inv G l" and "distinct ks" and "map (objs_of l) ks = map Some objs"
  shows "objs_ok (allocator l) objs"
proof -
  have len: "length objs = length ks" using assms(3) by (metis length_map)
  have ob: "\<exists>e. entries l (ks ! i) = Some e \<and> en_obj e = objs ! i" if "i < length ks" for i
    using assms(3) that len by (auto simp: objs_of_def list_eq_iff_nth_eq)
  have "obj_in (allocator l) (objs ! i)" if "i < length ks" for i
    using ob [OF that] l1_inv_within [OF inv] by (fastforce simp: obj_in_def)
  moreover have "apart (objs ! i) (objs ! j)" if "i < j" "j < length ks" for i j
  proof -
    have "ks ! i \<noteq> ks ! j" using assms(2) that by (simp add: nth_eq_iff_index_eq)
    moreover from that have "i < length ks" by simp
    note ob [OF this] ob [OF that(2)]
    ultimately show ?thesis using l1_inv_disjoint [OF inv] unfolding apart_def by metis
  qed
  ultimately show ?thesis
    using len by (auto simp: objs_ok_def sorted_wrt_iff_nth_less in_set_conv_nth)
qed

subsection \<open>Reserving the slots\<close>

text \<open>One key: either a fresh temporary entry, write-locked, or no change of the table.\<close>

lemma reserve_one:
  assumes inv: "l1_inv {} l" and n: "0 < n" and rw: "reserve_write [k] n temp l = (res, l')"
  shows "l1_inv {} l'" and "pool_mem (allocator l') = pool_mem (allocator l)"
    and "listeners l' = listeners l"
    and "res k = Some (Some ob) \<Longrightarrow> entries l k = None \<and> mo_nbytes ob = n
      \<and> entries l' = (entries l)(k \<mapsto> Entry ob True temp)"
    and "\<nexists>ob. res k = Some (Some ob) \<Longrightarrow> entries l' = entries l"
proof -
  show "l1_inv {} l'" using reserve_write_inv(2) [OF inv n, of "[k]" temp] rw by simp
  have ks: "missing_keys [k] l = (if entries l k = None then [k] else [])" by (simp add: missing_keys_def)
  have "pool_mem (allocator l') = pool_mem (allocator l) \<and> listeners l' = listeners l
    \<and> (\<forall>ob. res k = Some (Some ob) \<longrightarrow> entries l k = None \<and> mo_nbytes ob = n
        \<and> entries l' = (entries l)(k \<mapsto> Entry ob True temp))
    \<and> ((\<nexists>ob. res k = Some (Some ob)) \<longrightarrow> entries l' = entries l)"
  proof (cases "enough_room (length (missing_keys [k] l)) n (allocator l)")
    case False
    with reserve_write_refused [OF inv n False, of temp] rw show ?thesis
      by (auto simp: fromkeys_none_def)
  next
    case True
    from reserve_write_granted [OF inv n True, of temp] rw obtain objs a where
      l': "l' = l\<lparr>allocator := a, entries := reserved_entries temp (missing_keys [k] l) objs (entries l)\<rparr>"
      and len: "length objs = length (missing_keys [k] l)" and sz: "\<forall>ob \<in> set objs. mo_nbytes ob = n"
      and mem: "pool_mem a = pool_mem (allocator l)"
      and res: "res = (\<lambda>j. case map_of (rev (zip (missing_keys [k] l) objs)) j of
                   None \<Rightarrow> fromkeys_none [k] j | Some ob \<Rightarrow> Some (Some ob))"
      by auto
    show ?thesis
    proof (cases "entries l k")
      case None
      then obtain ob where "objs = [ob]" using len ks by (auto simp: length_Suc_conv)
      with None show ?thesis
        using sz mem by (auto simp: l' res ks reserved_entries_def fun_eq_iff)
    next
      case (Some e)
      then show ?thesis
        using mem len by (auto simp: l' res ks reserved_entries_def fromkeys_none_def)
    qed
  qed
  then show "pool_mem (allocator l') = pool_mem (allocator l)" "listeners l' = listeners l"
    "res k = Some (Some ob) \<Longrightarrow> entries l k = None \<and> mo_nbytes ob = n
      \<and> entries l' = (entries l)(k \<mapsto> Entry ob True temp)"
    "\<nexists>ob. res k = Some (Some ob) \<Longrightarrow> entries l' = entries l" by blast+
qed

text \<open>
  The loop reserves a prefix of the keys, each of them new.
\<close>

definition put_entries :: "chunk_key list \<Rightarrow> mem_obj list \<Rightarrow> (chunk_key \<rightharpoonup> entry) \<Rightarrow> (chunk_key \<rightharpoonup> entry)" where
  "put_entries ks objs es = es ++ map_of (zip ks (map (\<lambda>ob. Entry ob True True) objs))"

lemma reserve_load_loop_ok:
  assumes "l1_inv {} l" and "0 < n" and "distinct ks"
  shows "\<exists>m objs' l'. reserve_load_loop ks n lk objs l = ((lk @ take m ks, objs @ objs'), l')
    \<and> m \<le> length ks \<and> length objs' = m \<and> l1_inv {} l'
    \<and> pool_mem (allocator l') = pool_mem (allocator l) \<and> listeners l' = listeners l
    \<and> (\<forall>k \<in> set (take m ks). entries l k = None) \<and> (\<forall>ob \<in> set objs'. mo_nbytes ob = n)
    \<and> entries l' = put_entries (take m ks) objs' (entries l)"
  using assms
proof (induction ks arbitrary: l lk objs)
  case Nil
  then show ?case by (simp add: put_entries_def)
next
  case (Cons k ks)
  obtain res l1 where rw: "reserve_write [k] n True l = (res, l1)" by fastforce
  note one = reserve_one [OF Cons.prems(1,2) rw]
  show ?case
  proof (cases "\<exists>ob. res k = Some (Some ob)")
    case False
    then have "reserve_load_loop (k # ks) n lk objs l = ((lk, objs), l1)"
      using rw by (auto split: option.split)
    with one(1-3) one(5) [OF False] show ?thesis
      by (intro exI [of _ 0] exI [of _ "[]"] exI [of _ l1]) (simp add: put_entries_def)
  next
    case True
    then obtain ob where ob: "res k = Some (Some ob)" by blast
    note new = one(4) [OF ob]
    from Cons.IH [OF one(1) Cons.prems(2), of "lk @ [k]" "objs @ [ob]"] Cons.prems(3)
    obtain m objs' l' where IH:
      "reserve_load_loop ks n (lk @ [k]) (objs @ [ob]) l1 = ((lk @ k # take m ks, objs @ ob # objs'), l')"
      "m \<le> length ks" "length objs' = m" "l1_inv {} l'"
      "pool_mem (allocator l') = pool_mem (allocator l1)" "listeners l' = listeners l1"
      "\<forall>k \<in> set (take m ks). entries l1 k = None" "\<forall>ob \<in> set objs'. mo_nbytes ob = n"
      "entries l' = put_entries (take m ks) objs' (entries l1)"
      by auto
    have kn: "k \<notin> set (take m ks)" using Cons.prems(3) by (auto dest: in_set_takeD)
    have es: "entries l' = put_entries (k # take m ks) (ob # objs') (entries l)"
    proof -
      have "map_of (zip (take m ks) (map (\<lambda>ob. Entry ob True True) objs')) k = None"
        using kn by (auto simp: map_of_eq_None_iff dest: set_zip_leftD)
      then show ?thesis
        unfolding IH(9) new [THEN conjunct2, THEN conjunct2] put_entries_def
        by (auto simp: fun_eq_iff map_add_def split: option.splits)
    qed
    have "\<forall>j \<in> set (k # take m ks). entries l j = None"
      using IH(7) new kn by (auto split: if_splits)
    moreover have "reserve_load_loop (k # ks) n lk objs l = ((lk @ take (Suc m) (k # ks), objs @ ob # objs'), l')"
      using rw ob IH(1) by simp
    ultimately show ?thesis
      using IH(2-6,8) one(2,3) new es
      by (intro exI [of _ "Suc m"] exI [of _ "ob # objs'"] exI [of _ l']) simp
  qed
qed

text \<open>One granted chunk leaves room for the others.\<close>

lemma allocate_one:
  assumes "0 < n" and "brk p \<le> capacity p" and "enough_room (Suc c) n p"
  shows "\<exists>ob p'. allocate 1 n p = (Some [ob], p') \<and> enough_room c n p'"
proof -
  let ?q = "free_list p n"
  have one: "enough_room 1 n p" using assms(3) by (simp add: enough_room_def)
  show ?thesis
  proof (cases "?q = []")
    case True
    then have room: "Suc c \<le> (capacity p - brk p) div n" using assms(3) by (simp add: enough_room_def)
    then have "bumped 1 n p = 1" by (simp add: bumped_def True)
    moreover have "(capacity p - brk p) div n = Suc ((capacity p - (brk p + n)) div n)"
    proof -
      have "n \<le> capacity p - brk p" using room assms(1) by (metis Suc_le_D div_less less_Suc_eq_0_disj not_less zero_less_Suc old.nat.distinct(2))
      then show ?thesis using assms(1) by (simp add: le_div_geq)
    qed
    ultimately show ?thesis
      using allocate_eq [OF assms(1,2), of 1] one room True
      by (simp add: Let_def from_free_def from_brk_def enough_room_def free_list_def capacity_def)
  next
    case False
    then obtain q x where q: "?q = q @ [x]" by (cases ?q rule: rev_cases) auto
    have b: "bumped 1 n p = 0" by (simp add: bumped_def q)
    have "from_free 1 n p = [x]" by (simp add: from_free_def q)
    then show ?thesis
      using allocate_eq [OF assms(1,2), of 1] one assms(3) q b
      by (simp add: Let_def from_brk_def enough_room_def free_list_def capacity_def)
  qed
qed

lemma reserve_one_granted:
  assumes "l1_inv {} l" and "0 < n" and "entries l k = None" and "enough_room (Suc c) n (allocator l)"
    and "reserve_write [k] n temp l = (res, l')"
  shows "\<exists>ob. res k = Some (Some ob)" and "enough_room c n (allocator l')"
proof -
  from allocate_one [OF assms(2) l1_inv_brk [OF assms(1)] assms(4)] obtain ob a where
    "allocate (Suc 0) n (allocator l) = (Some [ob], a)" "enough_room c n a" by auto
  with assms(3,5) show "\<exists>ob. res k = Some (Some ob)" "enough_room c n (allocator l')"
    by (auto simp: reserve_write_def Let_def)
qed

text \<open>With room for all of them, and none resident, the loop reserves a slot for every key.\<close>

lemma reserve_load_loop_all:
  assumes "l1_inv {} l" and "0 < n" and "distinct ks"
    and "\<forall>k \<in> set ks. entries l k = None" and "enough_room (length ks) n (allocator l)"
  shows "fst (fst (reserve_load_loop ks n lk objs l)) = lk @ ks"
  using assms
proof (induction ks arbitrary: l lk objs)
  case Nil
  then show ?case by simp
next
  case (Cons k ks)
  obtain res l1 where rw: "reserve_write [k] n True l = (res, l1)" by fastforce
  note one = reserve_one [OF Cons.prems(1,2) rw]
  from Cons.prems(4,5) have "entries l k = None" "enough_room (Suc (length ks)) n (allocator l)" by simp_all
  from reserve_one_granted [OF Cons.prems(1,2) this rw] obtain ob where
    ob: "res k = Some (Some ob)" and room: "enough_room (length ks) n (allocator l1)" by blast
  have "\<forall>j \<in> set ks. entries l1 j = None" using one(4) [OF ob] Cons.prems(3,4) by auto
  from Cons.IH [OF one(1) Cons.prems(2) _ this room] Cons.prems(3) rw ob show ?case by simp
qed

subsection \<open>Loading from the adapters\<close>

definition adapter_view :: "adapter \<Rightarrow> chunk_key \<rightharpoonup> byte list" where
  "adapter_view a k = (case a of Fs d \<Rightarrow> fs_base d (filename k) | Mock m \<Rightarrow> m k)"

text \<open>What a load may have done: the first \<open>n\<close> objects hold contents some adapter has for the key.\<close>

definition filled :: "adapter list \<Rightarrow> chunk_key list \<Rightarrow> mem_obj list \<Rightarrow> nat \<Rightarrow> pool \<Rightarrow> bool" where
  "filled l2s keys objs n p \<longleftrightarrow> (\<forall>i < n. \<exists>a \<in> set l2s. \<exists>bs.
     adapter_view a (keys ! i) = Some bs \<and> read_obj p (objs ! i) = take (mo_nbytes (objs ! i)) bs)"

lemma l2_load_ok:
  assumes "objs_ok p objs" and "l2_load keys objs a p = (Inr n, p')"
  shows "n \<le> length keys \<and> n \<le> length objs \<and> only_objs objs p p'
    \<and> (\<forall>i < n. \<exists>bs. adapter_view a (keys ! i) = Some bs
         \<and> read_obj p' (objs ! i) = take (mo_nbytes (objs ! i)) bs)"
proof (cases a)
  case (Fs d)
  with assms fs_l2.load_correct [OF assms(1), of keys d n p'] show ?thesis
    by (auto simp: fs_load_res_def loaded_ok_def adapter_view_def)
next
  case (Mock m)
  with assms mock_l2.load_correct [OF assms(1), of keys m n p'] show ?thesis
    by (auto simp: loaded_ok_def adapter_view_def)
qed

lemma load_loop_ok:
  "objs_ok p objs \<Longrightarrow> length objs = length keys \<Longrightarrow> loaded \<le> length keys \<Longrightarrow>
   set is \<subseteq> {..<length l2s} \<Longrightarrow> filled l2s keys objs loaded p \<Longrightarrow>
   load_loop is l2s hits keys objs loaded p = (Inr n, p') \<Longrightarrow>
   n \<le> length keys \<and> only_objs objs p p' \<and> filled l2s keys objs n p'"
proof (induction "is" l2s hits keys objs loaded p rule: load_loop.induct)
  case (1 l2s hits keys objs loaded p)
  then show ?case by simp
next
  case (2 i "is" l2s hits keys objs loaded p)
  show ?case
  proof (cases "loaded = length keys \<or> hits ! i \<le> loaded")
    case True
    with "2.prems" show ?thesis by simp
  next
    case False
    with "2.prems"(6) obtain m p1 where
      ld: "l2_load (drop loaded keys) (drop loaded objs) (l2s ! i) p = (Inr m, p1)"
      and rest: "load_loop is l2s hits keys objs (loaded + m) p1 = (Inr n, p')"
      by (auto split: prod.splits sum.splits)
    have sub: "set (drop loaded objs) \<subseteq> set objs" by (rule set_drop_subset)
    have okd: "objs_ok p (drop loaded objs)"
      using "2.prems"(1) sub by (auto simp: objs_ok_def sorted_wrt_drop)
    note one = l2_load_ok [OF okd ld]
    have oo: "only_objs objs p p1" using one sub only_objs_mono by blast
    have ai: "l2s ! i \<in> set l2s" using "2.prems"(4) by simp
    have kept: "read_obj p1 (objs ! j) = read_obj p (objs ! j)" if j: "j < loaded" for j
    proof (rule only_objs_read)
      show "only_objs (drop loaded objs) p p1" using one by blast
      fix ob assume "ob \<in> set (drop loaded objs)"
      then obtain q where "q < length objs - loaded" "ob = objs ! (loaded + q)"
        by (auto simp: in_set_conv_nth)
      with j "2.prems"(1) show "apart ob (objs ! j)"
        by (auto simp: objs_ok_def sorted_wrt_iff_nth_less intro!: apart_sym [of "objs ! j"])
    qed
    have "filled l2s keys objs (loaded + m) p1"
      unfolding filled_def
    proof (intro allI impI)
      fix j assume j: "j < loaded + m"
      show "\<exists>a \<in> set l2s. \<exists>bs. adapter_view a (keys ! j) = Some bs
          \<and> read_obj p1 (objs ! j) = take (mo_nbytes (objs ! j)) bs"
      proof (cases "j < loaded")
        case True
        with "2.prems"(5) kept show ?thesis by (simp add: filled_def)
      next
        case False
        with j one have "j - loaded < m" by simp
        with one obtain bs where "adapter_view (l2s ! i) (drop loaded keys ! (j - loaded)) = Some bs"
          "read_obj p1 (drop loaded objs ! (j - loaded)) = take (mo_nbytes (drop loaded objs ! (j - loaded))) bs"
          by blast
        moreover have "drop loaded keys ! (j - loaded) = keys ! j" "drop loaded objs ! (j - loaded) = objs ! j"
          using False j one "2.prems"(2) by auto
        ultimately show ?thesis using ai by auto
      qed
    qed
    moreover have "loaded + m \<le> length keys" using one "2.prems"(3) by auto
    ultimately have "n \<le> length keys \<and> only_objs objs p1 p' \<and> filled l2s keys objs n p'"
      using "2.IH" [OF False ld [symmetric] refl] "2.prems" rest only_objs_ok [OF oo] by simp
    with oo show ?thesis using only_objs_trans by blast
  qed
qed

lemma load_from_l2s_ok:
  assumes "objs_ok p objs" and "length objs = length keys"
    and "load_from_l2s keys objs hits l2s p = (Inr n, p')"
  shows "n \<le> length keys \<and> only_objs objs p p' \<and> filled l2s keys objs n p'"
proof (cases "keys = []")
  case True
  with assms show ?thesis by (simp add: load_from_l2s_def filled_def)
next
  case False
  have "set (by_hits (length l2s) hits) \<subseteq> {..<length l2s}" by (auto simp: by_hits_def)
  with load_loop_ok [OF assms(1,2), of 0 "by_hits (length l2s) hits" l2s hits n p'] assms(3) False
  show ?thesis by (simp add: load_from_l2s_def filled_def)
qed

text \<open>
  The longest prefix of the keys that one adapter has, and what it takes to fetch all of it: room in the
  pool, no entry (not even a write-locked one) of those keys in the table, and contents of the chunk size.
\<close>

definition in_l2 :: "adapter list \<Rightarrow> chunk_key list \<Rightarrow> nat" where
  "in_l2 l2s keys = Max (insert 0 ((\<lambda>a. count_prefix (\<lambda>k. adapter_view a k \<noteq> None) keys) ` set l2s))"

definition fetchable :: "nat \<Rightarrow> adapter list \<Rightarrow> chunk_key list \<Rightarrow> chunk_key l1 \<Rightarrow> bool" where
  "fetchable n l2s keys l \<longleftrightarrow>
     (let ks = take (in_l2 l2s keys) keys
      in enough_room (length ks) n (allocator l) \<and> list_all (\<lambda>k. entries l k = None) ks
         \<and> list_all (\<lambda>a. list_all (\<lambda>k. case adapter_view a k of None \<Rightarrow> True | Some bs \<Rightarrow> length bs = n) ks) l2s)"

lemma l2_lookup_prefix: "l2_lookup keys a = count_prefix (\<lambda>k. adapter_view a k \<noteq> None) keys"
  by (cases a) (simp_all add: adapter_view_def fs_l2.lookup_prefix mock_l2.lookup_prefix)

lemma in_l2_max_hits: "max_hits (lookup_l2s keys l2s) = in_l2 l2s keys"
proof (cases "keys = [] \<or> l2s = []")
  case True
  have "(\<lambda>a. 0 :: nat) ` set l2s \<subseteq> {0}" by auto
  then have zero: "insert 0 ((\<lambda>a. 0 :: nat) ` set l2s) = {0}" by auto
  have "Max (insert 0 ((\<lambda>a. 0 :: nat) ` set l2s)) = 0" by (subst zero) simp
  with True show ?thesis by (auto simp: max_hits_def lookup_l2s_def in_l2_def)
next
  case False
  then show ?thesis by (simp add: max_hits_def lookup_l2s_def in_l2_def l2_lookup_prefix [abs_def])
qed

lemma in_l2_le: "in_l2 l2s keys \<le> length keys"
  by (auto simp: in_l2_def count_prefix_takeWhile length_takeWhile_le)

text \<open>The adapter that is asked first has the longest prefix.\<close>

lemma by_hits_first:
  assumes "keys \<noteq> []" and "0 < in_l2 l2s keys"
  shows "\<exists>i is. by_hits (length l2s) (lookup_l2s keys l2s) = i # is \<and> i < length l2s
    \<and> lookup_l2s keys l2s ! i = in_l2 l2s keys"
proof -
  let ?h = "lookup_l2s keys l2s" and ?b = "by_hits (length l2s) (lookup_l2s keys l2s)"
  have "l2s \<noteq> []" using assms(2) by (auto simp: in_l2_def)
  have h: "?h = map (l2_lookup keys) l2s" using assms(1) by (simp add: lookup_l2s_def)
  have st: "set ?b = {..<length l2s}" by (auto simp: by_hits_def)
  then obtain i "is" where b: "?b = i # is" using \<open>l2s \<noteq> []\<close> by (cases ?b) auto
  have "sorted (map (\<lambda>i. - int (?h ! i)) ?b)" by (simp add: by_hits_def)
  then have least: "?h ! j \<le> ?h ! i" if "j < length l2s" for j using that st b by auto
  have i: "i < length l2s" using st b by auto
  have mh: "in_l2 l2s keys = Max (set ?h)" using \<open>l2s \<noteq> []\<close> h by (simp add: in_l2_max_hits [symmetric] max_hits_def)
  have "Max (set ?h) = ?h ! i"
  proof (rule Max_eqI)
    show "y \<le> ?h ! i" if "y \<in> set ?h" for y using that least h by (auto simp: in_set_conv_nth)
    show "?h ! i \<in> set ?h" using i h by (intro nth_mem) simp
  qed simp
  with b i mh show ?thesis by simp
qed

lemma l2_load_all:
  assumes "objs_ok p objs" and "length objs = length keys"
    and "\<forall>i < length keys. \<exists>bs. adapter_view a (keys ! i) = Some bs \<and> length bs = mo_nbytes (objs ! i)"
  shows "\<exists>p'. l2_load keys objs a p = (Inr (length keys), p')"
proof (cases a)
  case (Fs d)
  then have "loadable (fs_base d) filename keys objs"
    using assms(2,3) by (simp add: loadable_def list_all2_conv_all_nth adapter_view_def)
  from fs_l2.load_complete [OF assms(1) this] show ?thesis by (simp add: Fs fs_load_res_def)
next
  case (Mock m)
  then have "loadable m (\<lambda>k. k) keys objs"
    using assms(2,3) by (simp add: loadable_def list_all2_conv_all_nth adapter_view_def)
  from mock_l2.load_complete [OF assms(1) this] show ?thesis by (simp add: Mock)
qed

lemma takeWhile_has: "i < length (takeWhile P xs) \<Longrightarrow> P (xs ! i)"
  by (metis nth_mem set_takeWhileD takeWhile_nth)

lemma load_from_l2s_all:
  assumes "objs_ok p objs" and "length objs = length ks" and "\<forall>ob \<in> set objs. mo_nbytes ob = n"
    and ks: "ks = take (in_l2 l2s keys) keys"
    and sz: "list_all (\<lambda>a. list_all (\<lambda>k. case adapter_view a k of None \<Rightarrow> True | Some bs \<Rightarrow> length bs = n) ks) l2s"
  shows "\<exists>p'. load_from_l2s ks objs (lookup_l2s keys l2s) l2s p = (Inr (length ks), p')"
proof (cases "ks = []")
  case True
  then show ?thesis by (simp add: load_from_l2s_def)
next
  case False
  then have ne: "keys \<noteq> []" and pos: "0 < in_l2 l2s keys" using ks by (auto intro: gr0I)
  from by_hits_first [OF ne pos] obtain i "is" where
    i: "by_hits (length l2s) (lookup_l2s keys l2s) = i # is" "i < length l2s"
    "lookup_l2s keys l2s ! i = in_l2 l2s keys" by blast
  have len: "length ks = in_l2 l2s keys" using in_l2_le [of l2s keys] by (simp add: ks)
  have "l2_lookup keys (l2s ! i) = in_l2 l2s keys" using i(2,3) ne by (simp add: lookup_l2s_def)
  then have tw: "length (takeWhile (\<lambda>k. adapter_view (l2s ! i) k \<noteq> None) keys) = length ks"
    by (simp add: l2_lookup_prefix count_prefix_takeWhile len)
  have "\<exists>bs. adapter_view (l2s ! i) (ks ! j) = Some bs \<and> length bs = mo_nbytes (objs ! j)"
    if j: "j < length ks" for j
  proof -
    have "adapter_view (l2s ! i) (keys ! j) \<noteq> None"
      by (rule takeWhile_has) (use tw j in simp)
    moreover have "ks ! j = keys ! j" using j ks by simp
    moreover have "mo_nbytes (objs ! j) = n" using assms(2,3) j by simp
    moreover have "list_all (\<lambda>k. case adapter_view (l2s ! i) k of None \<Rightarrow> True | Some bs \<Rightarrow> length bs = n) ks"
      using sz i(2) by (simp add: list_all_iff)
    then have "case adapter_view (l2s ! i) (ks ! j) of None \<Rightarrow> True | Some bs \<Rightarrow> length bs = n"
      using j by (simp add: list_all_length)
    ultimately show ?thesis by auto
  qed
  with l2_load_all [OF assms(1,2), of "l2s ! i"] obtain p' where
    "l2_load ks objs (l2s ! i) p = (Inr (length ks), p')" by blast
  moreover have "load_loop js l2s hits ks objs (length ks) p' = (Inr (length ks), p')" for js hits
    by (cases js) simp_all
  ultimately show ?thesis using False pos i(1,3) by (simp add: load_from_l2s_def)
qed

lemma read_obj_cong: "pool_mem p = pool_mem p' \<Longrightarrow> read_obj p ob = read_obj p' ob"
  by (simp add: read_obj_def)

subsection \<open>One lookup up to its publication\<close>

definition one_more :: "entry \<Rightarrow> entry" where
  "one_more e = e\<lparr>read_count := read_count e + 1\<rparr>"

text \<open>A chunk pulled in from an adapter and held for the request.\<close>

definition fetched :: "adapter list \<Rightarrow> nat \<Rightarrow> pool \<Rightarrow> chunk_key \<Rightarrow> entry \<Rightarrow> bool" where
  "fetched l2s n p k e \<longleftrightarrow> \<not> write_locked e \<and> read_count e = 1 \<and> is_temporary e
     \<and> mo_nbytes (en_obj e) = n
     \<and> (\<exists>a \<in> set l2s. \<exists>bs. adapter_view a k = Some bs \<and> read_obj p (en_obj e) = take n bs)"

text \<open>
  What the lookup leaves in L1: one more hold on the \<open>a\<close> keys found there, the next \<open>b\<close> keys
  fetched and held, everything else as before.
\<close>

definition looked_up :: "adapter list \<Rightarrow> nat \<Rightarrow> chunk_key list \<Rightarrow> nat \<Rightarrow> nat \<Rightarrow> chunk_key l1 \<Rightarrow> chunk_key l1 \<Rightarrow> bool" where
  "looked_up l2s n keys a b l l' \<longleftrightarrow> l1_inv {} l' \<and> a + b \<le> length keys
     \<and> (\<forall>k \<in> set (take a keys). is_readable l k \<and> entries l' k = map_option one_more (entries l k))
     \<and> (\<forall>k \<in> set (take b (drop a keys)). entries l k = None \<and>
          (\<exists>e. entries l' k = Some e \<and> fetched l2s n (allocator l') k e))
     \<and> (\<forall>k. k \<notin> set (take (a + b) keys) \<longrightarrow> entries l' k = entries l k)"

lemma l1_hold_prefix:
  assumes "distinct keys"
  shows "entries (fold (add_read 1) (takeWhile P keys) l) k =
    (if k \<in> set (takeWhile P keys) then map_option one_more (entries l k) else entries l k)"
proof -
  have "distinct (takeWhile P keys)" using assms by simp
  then have "count_list (takeWhile P keys) k = (if k \<in> set (takeWhile P keys) then 1 else 0)"
    by (simp add: distinct_count_list)
  then show ?thesis by (cases "entries l k") (auto simp: entries_add_reads one_more_def)
qed

lemma map_of_put:
  "distinct ks \<Longrightarrow> length objs = length ks \<Longrightarrow> i < length ks \<Longrightarrow>
   put_entries ks objs es (ks ! i) = Some (Entry (objs ! i) True True)"
proof -
  assume "distinct ks" "length objs = length ks" "i < length ks"
  then have "map_of (zip ks (map (\<lambda>ob. Entry ob True True) objs)) (ks ! i) = Some (Entry (objs ! i) True True)"
    using map_of_zip_nth [of ks "map (\<lambda>ob. Entry ob True True) objs" i] by simp
  then show ?thesis by (simp add: put_entries_def)
qed

lemma put_other: "k \<notin> set ks \<Longrightarrow> put_entries ks objs es k = es k"
  by (auto simp: put_entries_def map_add_def dest!: map_of_SomeD set_zip_leftD split: option.split)

text \<open>After the slots are filled: the loaded ones are opened and held, the others are dropped.\<close>

lemma finish_load_entries:
  assumes inv: "l1_inv {} l" and ks: "distinct ks" and "length objs = length ks" and "loaded \<le> length ks"
    and es: "entries l = put_entries ks objs es0" and none: "\<forall>k \<in> set ks. es0 k = None"
    and fw: "finish_write_and_reserve_read (take loaded ks) l = (r, l2)"
    and del: "delete (drop loaded ks) True l2 = (r', l3)"
  shows "r = Inr ()" and "r' = Inr (length ks - loaded)" and "l1_inv {} l3"
    and "pool_mem (allocator l3) = pool_mem (allocator l)"
    and "i < loaded \<Longrightarrow> entries l3 (ks ! i) = Some ((Entry (objs ! i) False True)\<lparr>read_count := 1\<rparr>)"
    and "k \<notin> set (take loaded ks) \<Longrightarrow> entries l3 k = es0 k"
proof -
  let ?A = "take loaded ks" and ?B = "drop loaded ks"
  have AB: "set ?A \<inter> set ?B = {}" "set ks = set ?A \<union> set ?B"
    using distinct_take_drop_disjoint [OF ks, of loaded] by (auto simp flip: set_append)
  have at: "entries l (ks ! j) = Some (Entry (objs ! j) True True)" if "j < length ks" for j
    using map_of_put [OF ks assms(3) that] by (simp add: es)
  have dom: "set ks \<subseteq> dom (entries l)" using at by (auto simp: in_set_conv_nth)
  then have "set ?A \<subseteq> dom (entries l)" using AB(2) by blast
  from unlock_writes_ok [OF this, of True] fw have r: "r = Inr ()"
    and al: "allocator l2 = allocator l"
    and es2: "entries l2 = (\<lambda>k. if k \<in> set ?A
      then map_option (unlocked_entry True (count_list ?A k)) (entries l k) else entries l k)"
    by (auto simp: finish_write_and_reserve_read_def)
  have inv2: "l1_inv {} l2" using l1_inv_finish_write_and_reserve_read [OF inv, of ?A] fw by simp
  have dom2: "dom (entries l2) = dom (entries l)" by (auto simp: es2 split: if_splits)
  have D: "{k \<in> set ?B. deletable True l2 k} = set ?B"
    using dom dom2 AB(2) by (auto simp: deletable_def)
  from delete_ok [OF inv2, of ?B True] del have
    r': "r' = Inr (card {k \<in> set ?B. deletable True l2 k})" and inv3: "l1_inv {} l3"
    and mem: "pool_mem (allocator l3) = pool_mem (allocator l2)"
    and es3: "entries l3 = (\<lambda>k. if k \<in> set ?B \<and> deletable True l2 k then None else entries l2 k)"
    by auto
  show "r = Inr ()" by (rule r)
  show "r' = Inr (length ks - loaded)" using r' D distinct_card [of ?B] ks by simp
  show "l1_inv {} l3" by (rule inv3)
  show "pool_mem (allocator l3) = pool_mem (allocator l)" using mem al by simp
  show "entries l3 (ks ! i) = Some ((Entry (objs ! i) False True)\<lparr>read_count := 1\<rparr>)" if i: "i < loaded"
  proof -
    have "ks ! i \<in> set ?A" using i assms(4) by (auto simp: in_set_conv_nth)
    moreover from this have "count_list ?A (ks ! i) = 1" using ks by (simp add: distinct_count_list)
    moreover have "ks ! i \<notin> set ?B" using calculation(1) AB(1) by blast
    ultimately show ?thesis using at [of i] i assms(4)
      by (simp add: es3 es2 unlocked_entry_def Entry_def)
  qed
  show "entries l3 k = es0 k" if k: "k \<notin> set ?A"
  proof (cases "k \<in> set ?B")
    case True
    then have "deletable True l2 k" using D by blast
    with True none AB(2) show ?thesis by (simp add: es3)
  next
    case False
    with k AB(2) have "k \<notin> set ks" by blast
    with False k show ?thesis by (simp add: es3 es2 es put_other)
  qed
qed

lemma prefetch_steps:
  assumes inv: "l1_inv {} (st_l1 s)" and dist: "distinct keys" and n: "0 < n"
    and run: "prefetch dt rid keys (Some n) s = (Inr (), s')"
  shows "\<exists>a b g l. a = length (takeWhile (is_readable (st_l1 s)) keys)
    \<and> looked_up (st_l2s s) n keys a b (st_l1 s) l
    \<and> resolve rid (take a keys) (take b (drop a keys)) g (s\<lparr>st_l1 := l\<rparr>) = (Inr (), s')
    \<and> b \<le> in_l2 (st_l2s s) (drop a keys)
    \<and> (fetchable n (st_l2s s) (drop a keys) (st_l1 s) \<longrightarrow> b = in_l2 (st_l2s s) (drop a keys))"
proof -
  let ?P = "is_readable (st_l1 s)" and ?l2s = "st_l2s s"
  define a where "a = length (takeWhile ?P keys)"
  define l0 where "l0 = fold (add_read 1) (takeWhile ?P keys) (st_l1 s)"
  define missing where "missing = drop a keys"
  have tw: "takeWhile ?P keys = take a keys" by (simp add: a_def takeWhile_eq_take [symmetric])
  have rp: "reserve_read_prefix keys (st_l1 s) = (a, l0)" by (simp add: reserve_read_prefix_eq a_def l0_def)
  have inv0: "l1_inv {} l0" using inv by (simp add: l0_def)
  have es0: "entries l0 k = (if k \<in> set (take a keys) then map_option one_more (entries (st_l1 s) k)
      else entries (st_l1 s) k)" for k
    unfolding l0_def using l1_hold_prefix [OF dist, of ?P] by (simp only: tw)
  define hits where "hits = lookup_l2s missing ?l2s"
  have dm: "distinct (take (max_hits hits) missing)" using dist by (simp add: missing_def)
  from reserve_load_loop_ok [OF inv0 n dm, of "[]" "[]"] obtain m objs l1 where
    rl: "reserve_load missing (max_hits hits) n l0 = ((take m (take (max_hits hits) missing), objs), l1)"
    and m: "m \<le> length (take (max_hits hits) missing)" and lo: "length objs = m" and inv1: "l1_inv {} l1"
    and none: "\<forall>k \<in> set (take m (take (max_hits hits) missing)). entries l0 k = None"
    and sz: "\<forall>ob \<in> set objs. mo_nbytes ob = n"
    and es1: "entries l1 = put_entries (take m (take (max_hits hits) missing)) objs (entries l0)"
    by (auto simp: reserve_load_def)
  define ks where "ks = take m missing"
  have ks: "take m (take (max_hits hits) missing) = ks" "length ks = m" "distinct ks"
  proof -
    have mm: "m \<le> max_hits hits" "m \<le> length missing" using m by simp_all
    then show "take m (take (max_hits hits) missing) = ks" "length ks = m" by (simp_all add: ks_def min_def)
    show "distinct ks" using dist by (simp add: ks_def missing_def)
  qed
  note rl = rl [unfolded ks(1)] and none = none [unfolded ks(1)] and es1 = es1 [unfolded ks(1)]
  have "map (objs_of l1) ks = map Some objs"
    using map_of_put [OF ks(3)] lo ks(2)
    by (auto simp: list_eq_iff_nth_eq objs_of_def es1 Entry_def)
  from l1_objs_ok [OF inv1 ks(3) this] have ok: "objs_ok (allocator l1) objs" .
  from run rp rl obtain loaded p where
    ld: "load_from_l2s ks objs hits ?l2s (allocator l1) = (Inr loaded, p)"
    by (auto simp: prefetch_def Let_def hits_def missing_def split: prod.splits sum.splits)
  from load_from_l2s_ok [OF ok _ ld] lo ks(2) have
    lle: "loaded \<le> length ks" and oo: "only_objs objs (allocator l1) p" and fill: "filled ?l2s ks objs loaded p"
    by auto
  have inv2: "l1_inv {} (set_pool p l1)" using inv1 l1_inv_set_pool [OF oo] by simp
  obtain r1 l2 where fw: "finish_write_and_reserve_read (take loaded ks) (set_pool p l1) = (r1, l2)" by fastforce
  obtain r2 l3 where del: "delete (drop loaded ks) True l2 = (r2, l3)" by fastforce
  have "length objs = length ks" using lo ks(2) by simp
  note fin = finish_load_entries [OF inv2 ks(3) this lle _ none fw del, unfolded set_pool_sel, OF es1]
  have rest: "\<exists>g. resolve rid (take a keys) (take loaded ks) g (s\<lparr>st_l1 := l3\<rparr>) = (Inr (), s')"
    using run rp rl ld fw del fin(1,2)
    by (auto simp: prefetch_def Let_def hits_def missing_def split: sum.splits)
  have tk: "take loaded ks = take loaded (drop a keys)"
    using lle ks(2) by (simp add: ks_def missing_def min_def)
  have len: "a + loaded \<le> length keys"
  proof -
    have "length ks \<le> length keys - a" by (simp add: ks_def missing_def)
    moreover have "a \<le> length keys" by (simp add: a_def length_takeWhile_le)
    ultimately show ?thesis using lle by simp
  qed
  have AB: "set (take a keys) \<inter> set (take loaded ks) = {}"
    using distinct_take_drop_disjoint [OF dist, of a] set_take_subset [of loaded "drop a keys"]
    unfolding tk by blast
  have "looked_up ?l2s n keys a loaded (st_l1 s) l3"
    unfolding looked_up_def
  proof (intro conjI ballI allI impI)
    show "l1_inv {} l3" by (rule fin(3))
    show "a + loaded \<le> length keys" by (rule len)
    fix k assume k: "k \<in> set (take a keys)"
    then show "is_readable (st_l1 s) k" unfolding tw [symmetric] by (auto dest: set_takeWhileD)
    have "k \<notin> set (take loaded ks)" using k AB by blast
    then show "entries l3 k = map_option one_more (entries (st_l1 s) k)" using fin(6) k es0 by simp
  next
    fix k assume k: "k \<in> set (take loaded (drop a keys))"
    then obtain i where i: "i < loaded" "ks ! i = k" "i < length ks"
      unfolding tk [symmetric] using lle by (auto simp: in_set_conv_nth)
    have "k \<notin> set (take a keys)" using k AB unfolding tk by blast
    moreover have "entries l0 k = None" using none i by auto
    ultimately show "entries (st_l1 s) k = None" using es0 by simp
    have e: "entries l3 k = Some ((Entry (objs ! i) False True)\<lparr>read_count := 1\<rparr>)"
      using fin(5) [OF i(1)] i(2) by (simp only:)
    have "read_obj (allocator l3) (objs ! i) = read_obj p (objs ! i)"
      using fin(4) by (intro read_obj_cong) simp
    moreover have "mo_nbytes (objs ! i) = n" using sz i lo ks(2) by simp
    ultimately have "fetched ?l2s n (allocator l3) k ((Entry (objs ! i) False True)\<lparr>read_count := 1\<rparr>)"
      using fill i by (auto simp: fetched_def Entry_def filled_def)
    with e show "\<exists>e. entries l3 k = Some e \<and> fetched ?l2s n (allocator l3) k e" by blast
  next
    fix k assume "k \<notin> set (take (a + loaded) keys)"
    then have "k \<notin> set (take a keys)" "k \<notin> set (take loaded ks)" by (auto simp: tk take_add)
    then show "entries l3 k = entries (st_l1 s) k" using fin(6) es0 by simp
  qed
  moreover have "loaded \<le> in_l2 ?l2s missing"
    using lle ks(2) m by (simp add: hits_def in_l2_max_hits)
  moreover have "loaded = in_l2 ?l2s missing" if "fetchable n ?l2s missing (st_l1 s)"
  proof -
    let ?ks = "take (in_l2 ?l2s missing) missing"
    from that have room: "enough_room (length ?ks) n (allocator l0)"
      and free: "list_all (\<lambda>k. entries (st_l1 s) k = None) ?ks"
      and sizes: "list_all (\<lambda>a. list_all (\<lambda>k. case adapter_view a k of None \<Rightarrow> True | Some bs \<Rightarrow> length bs = n) ?ks) ?l2s"
      by (simp_all add: fetchable_def Let_def l0_def)
    have "\<forall>k \<in> set ?ks. entries l0 k = None"
    proof
      fix k assume k: "k \<in> set ?ks"
      with free have "entries (st_l1 s) k = None" by (simp add: list_all_iff)
      then show "entries l0 k = None" by (simp add: es0)
    qed
    moreover have "distinct ?ks" using dist by (simp add: missing_def)
    ultimately have "fst (fst (reserve_load_loop ?ks n [] [] l0)) = ?ks"
      using reserve_load_loop_all [OF inv0 n _ _ room] by simp
    then have eq: "ks = ?ks" using rl by (simp add: reserve_load_def hits_def in_l2_max_hits)
    from load_from_l2s_all [OF ok _ sz, of ?ks ?l2s missing] lo ks(2) eq sizes ld
    have "loaded = length ks" by (auto simp: hits_def)
    then show ?thesis using in_l2_le [of ?l2s missing] eq by simp
  qed
  ultimately show ?thesis using rest unfolding missing_def [symmetric] tk by (metis a_def missing_def)
qed

subsection \<open>Releasing\<close>

text \<open>
  The table is at rest when no read count is negative and every readable temporary entry is
  held (both hold in every state the parties of the lock protocol can reach).
\<close>

definition at_rest :: "'k l1 \<Rightarrow> bool" where
  "at_rest l \<longleftrightarrow> (\<forall>k e. entries l k = Some e \<longrightarrow>
     0 \<le> read_count e \<and> (is_temporary e \<and> \<not> write_locked e \<longrightarrow> 0 < read_count e))"

lemma take_add_parts: "set (take (a + b) keys) = set (take a keys) \<union> set (take b (drop a keys))"
  by (simp add: take_add)

lemma looked_up_released:
  assumes lu: "looked_up l2s n keys a b l l'" and rest: "at_rest l" and dist: "distinct keys"
  shows "\<exists>l''. finish_read (take (a + b) keys) l' = (Inr (), l'') \<and> l1_inv {} l'' \<and> entries l'' = entries l"
proof -
  let ?ks = "take (a + b) keys"
  have inv: "l1_inv {} l'" using lu by (simp add: looked_up_def)
  have one: "k \<in> set ?ks \<Longrightarrow> count_list ?ks k = 1" for k using dist by (simp add: distinct_count_list)
  have held: "k \<in> set (take a keys) \<Longrightarrow> \<exists>e. entries l k = Some e \<and> \<not> write_locked e \<and> entries l' k = Some (one_more e)" for k
    using lu unfolding looked_up_def is_readable_iff by (metis option.simps(9))
  have new: "k \<in> set (take b (drop a keys)) \<Longrightarrow> entries l k = None
      \<and> (\<exists>e. entries l' k = Some e \<and> read_count e = 1 \<and> is_temporary e)" for k
    using lu unfolding looked_up_def fetched_def by blast
  have all: "holds_all ?ks l'"
    unfolding holds_all_def
  proof
    fix k assume k: "k \<in> set ?ks"
    then consider "k \<in> set (take a keys)" | "k \<in> set (take b (drop a keys))" by (auto simp: take_add)
    then show "\<exists>e. entries l' k = Some e \<and> int (count_list ?ks k) \<le> read_count e"
    proof cases
      case 1
      with held [OF 1] rest one [OF k] show ?thesis by (fastforce simp: one_more_def at_rest_def)
    next
      case 2
      with new [OF 2] one [OF k] show ?thesis by auto
    qed
  qed
  have es: "released ?ks (entries l') k = entries l k" for k
  proof (cases "k \<in> set ?ks")
    case False
    then show ?thesis using lu by (simp add: released_outside looked_up_def)
  next
    case True
    then consider "k \<in> set (take a keys)" | "k \<in> set (take b (drop a keys))" by (auto simp: take_add)
    then show ?thesis
    proof cases
      case 1
      then obtain e where e: "entries l k = Some e" "\<not> write_locked e" "entries l' k = Some (one_more e)"
        using held by blast
      with rest have "\<not> (read_count e = 0 \<and> is_temporary e)" by (fastforce simp: at_rest_def)
      with e True one [OF True] show ?thesis by (simp add: released_def one_more_def Let_def)
    next
      case 2
      with new [OF 2] True one [OF True] show ?thesis by (auto simp: released_def Let_def)
    qed
  qed
  have "released ?ks (entries l') = entries l" by (rule ext) (rule es)
  with finish_read_ok [OF inv all] show ?thesis by auto
qed

lemma del_held_all: "distinct ks \<Longrightarrow> set ks \<subseteq> set held \<Longrightarrow> del_held ks held = (Inr (), filter (\<lambda>k. k \<notin> set ks) held)"
proof (induction ks arbitrary: held)
  case Nil
  then show ?case by simp
next
  case (Cons k ks)
  then have "set ks \<subseteq> set (filter (\<lambda>x. x \<noteq> k) held)" by auto
  with Cons show ?case by (auto simp: conj_commute intro!: filter_cong)
qed

subsection \<open>Publication\<close>

lemma prefetch_publishes_all:
  assumes "l1_inv {} (st_l1 s)" and "distinct keys" and "0 < n" and "st_hits s rid \<noteq> None"
    and "prefetch dt rid keys (Some n) s = (Inr (), s')"
  shows "\<exists>b g. let a = count_prefix (is_readable (st_l1 s)) keys; missing = drop a keys in
    query rid s' = Some (a, b, g) \<and> st_held s' rid = Some (take (a + b) keys)
    \<and> looked_up (st_l2s s) n keys a b (st_l1 s) (st_l1 s')
    \<and> b \<le> in_l2 (st_l2s s) missing
    \<and> (fetchable n (st_l2s s) missing (st_l1 s) \<longrightarrow> b = in_l2 (st_l2s s) missing)"
proof -
  from prefetch_steps [OF assms(1-3,5)] obtain a b g l where
    a: "a = length (takeWhile (is_readable (st_l1 s)) keys)"
    and lu: "looked_up (st_l2s s) n keys a b (st_l1 s) l"
    and res: "resolve rid (take a keys) (take b (drop a keys)) g (s\<lparr>st_l1 := l\<rparr>) = (Inr (), s')"
    and b: "b \<le> in_l2 (st_l2s s) (drop a keys)"
      "fetchable n (st_l2s s) (drop a keys) (st_l1 s) \<longrightarrow> b = in_l2 (st_l2s s) (drop a keys)" by blast
  have "od_fromkeys (take (a + b) keys) = take (a + b) keys" using assms(2) by simp
  moreover have "length (take a keys) = a" "length (take b (drop a keys)) = b" "a + b \<le> length keys"
    using lu by (auto simp: looked_up_def)
  ultimately have "s' = s\<lparr>st_l1 := l, st_hits := (st_hits s)(rid \<mapsto> Some (a, b, g)),
      st_held := (st_held s)(rid \<mapsto> take (a + b) keys)\<rparr>"
    using res assms(4) by (auto simp: resolve_def take_add)
  then show ?thesis
    using lu a b by (intro exI [of _ b] exI [of _ g]) (simp add: Let_def query_def count_prefix_takeWhile)
qed

lemma prefetch_publishes:
  assumes "l1_inv {} (st_l1 s)" and "distinct keys" and "0 < n" and "st_hits s rid \<noteq> None"
    and "prefetch dt rid keys (Some n) s = (Inr (), s')"
  shows "\<exists>b g. let a = count_prefix (is_readable (st_l1 s)) keys in
    query rid s' = Some (a, b, g) \<and> st_held s' rid = Some (take (a + b) keys)
    \<and> looked_up (st_l2s s) n keys a b (st_l1 s) (st_l1 s')"
  using prefetch_publishes_all [OF assms] by (auto simp: Let_def)

subsection \<open>Properties\<close>

text \<open>
  C7. One lookup of a running session publishes \<open>(a, b)\<close>, where \<open>a\<close> is the longest prefix of
  the keys that was readable in L1 and \<open>b\<close> the number fetched from L2 behind it.  Of the missing keys
  never more are fetched than the longest prefix one adapter has, and exactly that prefix is fetched
  when the pool has room for it, none of its keys is in the table and the contents have the chunk
  size.  The \<open>a + b\<close> hit keys are a contiguous prefix; all of them are now readable in L1 with one more
  hold each, recorded as held by the session; the fetched ones are temporary entries of the chunk size
  that contain the bytes an adapter has stored for that key; and no other entry changed: slots
  that were reserved but not filled are gone.
\<close>

theorem lookup_holds_hit_prefix:
  assumes "l1_inv {} (st_l1 s)" and "distinct keys" and "0 < n" and "st_hits s rid \<noteq> None"
    and "prefetch dt rid keys (Some n) s = (Inr (), s')"
  shows "\<exists>b g. let a = count_prefix (is_readable (st_l1 s)) keys; missing = drop a keys in
    query rid s' = Some (a, b, g) \<and> st_held s' rid = Some (take (a + b) keys)
    \<and> looked_up (st_l2s s) n keys a b (st_l1 s) (st_l1 s')
    \<and> b \<le> in_l2 (st_l2s s) missing
    \<and> (fetchable n (st_l2s s) missing (st_l1 s) \<longrightarrow> b = in_l2 (st_l2s s) missing)"
  using assms by (rule prefetch_publishes_all)

text \<open>
  C18. A session leaves no trace in L1: ending it after its lookup releases every hold, frees the
  temporary chunks that were fetched for it, and forgets the request; the table is then
  exactly what it was before the lookup, and so is the memory in use.
\<close>

theorem session_leaves_no_trace:
  assumes "l1_inv {} (st_l1 s)" and "at_rest (st_l1 s)" and "distinct keys" and "0 < n"
    and "st_hits s rid \<noteq> None" and "prefetch dt rid keys (Some n) s = (Inr (), s1)"
    and "end_session rid s1 = (r, s2)"
  shows "r = Inr () \<and> entries (st_l1 s2) = entries (st_l1 s)
    \<and> fst (l1_usage (st_l1 s2)) = fst (l1_usage (st_l1 s))
    \<and> query rid s2 = None \<and> st_held s2 rid = None"
proof -
  from prefetch_steps [OF assms(1,3,4,6)] obtain a b g l where
    lu: "looked_up (st_l2s s) n keys a b (st_l1 s) l"
    and res: "resolve rid (take a keys) (take b (drop a keys)) g (s\<lparr>st_l1 := l\<rparr>) = (Inr (), s1)" by blast
  let ?ks = "take (a + b) keys"
  have "od_fromkeys ?ks = ?ks" using assms(3) by simp
  then have s1: "st_l1 s1 = l" "st_held s1 rid = Some ?ks"
    using res assms(5) by (auto simp: resolve_def take_add)
  have "filter (\<lambda>k. k \<in> set ?ks) ?ks = ?ks" by simp
  moreover have "del_held ?ks ?ks = (Inr (), [])" using del_held_all [of ?ks ?ks] assms(3) by simp
  moreover from looked_up_released [OF lu assms(2,3)] obtain l2 where
    l2: "finish_read ?ks l = (Inr (), l2)" "l1_inv {} l2" "entries l2 = entries (st_l1 s)" by blast
  ultimately have e: "r = Inr ()" "st_l1 s2 = l2" "query rid s2 = None" "st_held s2 rid = None"
    using assms(7) s1
    by (auto simp: end_session_def release_def held_of_def set_held_def Let_def query_def)
  moreover have "fst (l1_usage l2) = fst (l1_usage (st_l1 s))"
    using l1_inv_usage [OF l2(2)] l1_inv_usage [OF assms(1)] l2(3) by simp
  ultimately show ?thesis using l2 by simp
qed

text \<open>
  A lookup that finishes after END_SESSION has ended the session publishes nothing and gives back every hold
  it took; L1 is as it was.  (A publication in the middle of END_SESSION is another matter, see
  \<open>Server_Interleavings\<close>.)
\<close>

theorem late_lookup_leaves_no_trace:
  assumes "l1_inv {} (st_l1 s)" and "at_rest (st_l1 s)" and "distinct keys" and "0 < n"
    and "st_hits s rid = None" and "prefetch dt rid keys (Some n) s = (Inr (), s')"
  shows "entries (st_l1 s') = entries (st_l1 s) \<and> st_hits s' = st_hits s \<and> st_held s' = st_held s
    \<and> fst (l1_usage (st_l1 s')) = fst (l1_usage (st_l1 s))"
proof -
  from prefetch_steps [OF assms(1,3,4,6)] obtain a b g l where
    lu: "looked_up (st_l2s s) n keys a b (st_l1 s) l"
    and res: "resolve rid (take a keys) (take b (drop a keys)) g (s\<lparr>st_l1 := l\<rparr>) = (Inr (), s')" by blast
  from looked_up_released [OF lu assms(2,3)] obtain l2 where
    l2: "finish_read (take (a + b) keys) l = (Inr (), l2)" "l1_inv {} l2" "entries l2 = entries (st_l1 s)" by blast
  with res assms(5) have "s' = s\<lparr>st_l1 := l2\<rparr>" by (auto simp: resolve_def take_add)
  moreover have "fst (l1_usage l2) = fst (l1_usage (st_l1 s))"
    using l1_inv_usage [OF l2(2)] l1_inv_usage [OF assms(1)] l2(3) by simp
  ultimately show ?thesis using l2 by simp
qed

subsection \<open>A concrete lookup\<close>

text \<open>
  An empty pool of two bytes, a mock adapter with the first of two chunks of two bytes.
\<close>

definition demo_key :: "nat \<Rightarrow> chunk_key" where
  "demo_key i = ChunkKey [of_nat i] ''m'' 0"

definition demo_keys :: "chunk_key list" where
  "demo_keys = [demo_key 1, demo_key 2]"

definition demo_storage :: storage where
  "demo_storage = StorageManager [0, 0] [Mock [demo_key 1 \<mapsto> [5, 6]]]"

definition demo_session :: storage where
  "demo_session = start_session ''r'' demo_keys (Some 2) demo_storage"

lemma StorageManager_l1: "l1_inv {} (st_l1 (StorageManager m l2s))" "entries (st_l1 (StorageManager m l2s)) = Map.empty"
  by (auto simp: StorageManager_def Let_def l1_inv_init) (simp_all add: L1Manager_def)

lemma demo_storage_inv: "l1_inv {} (st_l1 demo_storage)" "at_rest (st_l1 demo_storage)"
  "st_hits demo_storage = Map.empty" "entries (st_l1 demo_storage) = Map.empty"
  "st_l1 demo_session = st_l1 demo_storage" "st_hits demo_session ''r'' = Some None"
  unfolding demo_session_def demo_storage_def
  by (simp_all add: StorageManager_l1 at_rest_def start_session_def)
    (simp add: StorageManager_def Let_def)

lemma demo_keys_distinct: "distinct demo_keys"
  by (simp add: demo_keys_def demo_key_def)

definition demo_after :: storage where
  "demo_after = snd (prefetch 1 ''r'' demo_keys (Some 2) demo_session)"

lemma demo_prefetch: "prefetch 1 ''r'' demo_keys (Some 2) demo_session = (Inr (), demo_after)"
proof -
  have "fst (prefetch 1 ''r'' demo_keys (Some 2) demo_session) = Inr ()" by code_simp
  then show ?thesis by (metis demo_after_def prod.collapse)
qed

lemma lookup_holds_hit_prefix_witness:
  "query ''r'' demo_after = Some (0, 1, 2 / 10 ^ 9) \<and> st_held demo_after ''r'' = Some [demo_key 1]"
proof -
  have g: "map_option (snd \<circ> snd) (query ''r'' demo_after) = Some (2 / 10 ^ 9)"
    unfolding demo_after_def by code_simp
  have a: "count_prefix (is_readable (st_l1 demo_session)) demo_keys = 0" by code_simp
  have l2: "in_l2 (st_l2s demo_session) demo_keys = 1" by code_simp
  have "fetchable 2 (st_l2s demo_session) demo_keys (st_l1 demo_session)" by code_simp
  moreover have "l1_inv {} (st_l1 demo_session)" "st_hits demo_session ''r'' \<noteq> None"
    by (simp_all add: demo_storage_inv)
  from lookup_holds_hit_prefix [OF this(1) demo_keys_distinct _ this(2) demo_prefetch]
  obtain b w where "query ''r'' demo_after = Some (0, b, w)" "st_held demo_after ''r'' = Some (take b demo_keys)"
    "fetchable 2 (st_l2s demo_session) demo_keys (st_l1 demo_session) \<longrightarrow> b = in_l2 (st_l2s demo_session) demo_keys"
    by (auto simp: a Let_def)
  ultimately show ?thesis using g l2 by (simp add: demo_keys_def)
qed

lemma session_leaves_no_trace_witness:
  "entries (st_l1 (snd (end_session ''r'' demo_after))) = Map.empty"
proof -
  obtain r s2 where e: "end_session ''r'' demo_after = (r, s2)" by fastforce
  have "l1_inv {} (st_l1 demo_session)" "at_rest (st_l1 demo_session)" "st_hits demo_session ''r'' \<noteq> None"
    by (simp_all add: demo_storage_inv)
  from session_leaves_no_trace [OF this(1,2) demo_keys_distinct _ this(3) demo_prefetch e]
  have "entries (st_l1 s2) = entries (st_l1 demo_storage)" by (simp add: demo_storage_inv)
  then show ?thesis using e by (simp add: demo_storage_inv)
qed

lemma late_lookup_leaves_no_trace_witness:
  "entries (st_l1 (snd (prefetch 1 ''r'' demo_keys (Some 2) demo_storage))) = Map.empty"
proof -
  obtain s' where p: "prefetch 1 ''r'' demo_keys (Some 2) demo_storage = (Inr (), s')"
  proof -
    have "fst (prefetch 1 ''r'' demo_keys (Some 2) demo_storage) = Inr ()" by code_simp
    then show ?thesis using that by (metis prod.collapse)
  qed
  have "st_hits demo_storage ''r'' = None" by (simp add: demo_storage_inv)
  from late_lookup_leaves_no_trace [OF demo_storage_inv(1,2) demo_keys_distinct _ this p]
  have "entries (st_l1 s') = entries (st_l1 demo_storage)" by simp
  then show ?thesis using p by (simp add: demo_storage_inv)
qed

text \<open>
  The reservation of slots stops at a key that is resident in L1, as if the pool were full: with
  chunk 2 in L1 and chunks 1 and 3 in L2, and room for both, a lookup of 1, 2, 3 that finds all
  of them in L2 reserves a slot for chunk 1 only.
\<close>

theorem reservation_stops_at_resident_chunk:
  "(let ks = [demo_key 1, demo_key 2, demo_key 3];
        l = l1_run [Reserve_write [demo_key 2] 2 False, Finish_write [demo_key 2]]
              (L1Manager (PoolAllocator [0, 0, 0, 0, 0, 0, 0, 0]))
    in fst (reserve_load ks 3 2 l) = ([demo_key 1], [MemoryObj 2 2])
       \<and> fst (l1_usage l) + 2 * 2 \<le> int (snd (l1_usage l)))"
  by code_simp

text \<open>
  An exception of an adapter ends the lookup half way: with a stored chunk of another size the
  mock adapter raises, the request stays pending, and the slot reserved for the chunk stays
  write-locked, so that neither the evictor nor a later store can touch it.
\<close>

theorem adapter_failure_strands_lookup:
  "(let s0 = StorageManager [0, 0] [Mock [demo_key 1 \<mapsto> [5]]];
        s1 = start_session ''r'' [demo_key 1] (Some 2) s0
    in case prefetch_turn 1 s1 of
         None \<Rightarrow> False
       | Some (r, s2) \<Rightarrow> r = Inl ValueError \<and> query ''r'' s2 = None
           \<and> map_option write_locked (entries (st_l1 s2) (demo_key 1)) = Some True
           \<and> \<not> is_evictable (st_l1 s2) (demo_key 1)
           \<and> fst (reserve_write [demo_key 1] 2 False (st_l1 s2)) (demo_key 1) = Some None)"
  by code_simp

end
