(* ===== verification/Server_Threads_Laws.thy ===== *)
theory Server_Threads_Laws
  imports Server_Threads Lock_Protocol Prefetch_Laws
begin

text \<open>
  The threads of the server keep to the lock protocol: whatever the interleaving, every atomic step is
  matched by steps of \<open>Lock_Protocol\<close> on the same manager.  The parties are the sessions, which own the holds listed
  in \<open>held\<close>, and the threads, which own what they are about to give back or hand over and the write
  locks of what they are filling.
\<close>

subsection \<open>Parties\<close>

datatype party = Session string | Thread nat

text \<open>The read holds and the write locks a thread has at a point.\<close>

fun reads_of :: "task \<Rightarrow> chunk_key list" where
  "reads_of (Release_finish ks next) = ks"
| "reads_of (Prefetch_lookup rid l1_keys missing n) = l1_keys"
| "reads_of (Prefetch_reserve rid l1_keys ks n load_keys objs) = l1_keys"
| "reads_of (Prefetch_load rid l1_keys n load_keys objs) = l1_keys"
| "reads_of (Prefetch_unlock rid l1_keys load_keys loaded gbps) = l1_keys"
| "reads_of (Prefetch_delete rid l1_keys load_keys loaded gbps) = l1_keys @ take loaded load_keys"
| "reads_of (Prefetch_resolve rid l1_keys loaded_keys gbps) = l1_keys @ loaded_keys"
| "reads_of (Back_store ks) = ks"
| "reads_of (Back_finish ks) = ks"
| "reads_of _ = []"

fun writes_of :: "task \<Rightarrow> chunk_key list" where
  "writes_of (Store_write plan written) = written"
| "writes_of (Prefetch_reserve rid l1_keys ks n load_keys objs) = load_keys"
| "writes_of (Prefetch_load rid l1_keys n load_keys objs) = load_keys"
| "writes_of (Prefetch_unlock rid l1_keys load_keys loaded gbps) = load_keys"
| "writes_of (Prefetch_delete rid l1_keys load_keys loaded gbps) = drop loaded load_keys"
| "writes_of _ = []"

text \<open>What a thread knows at a point.\<close>

definition slots_ok :: "chunk_key list \<Rightarrow> mem_obj list \<Rightarrow> chunk_key l1 \<Rightarrow> bool" where
  "slots_ok ks objs l \<longleftrightarrow> distinct ks \<and> map (objs_of l) ks = map Some objs"

definition gbps_ok :: "rat res \<Rightarrow> bool" where
  "gbps_ok gbps \<longleftrightarrow> (\<forall>x. gbps = Inl x \<longrightarrow> x = ZeroDivisionError)"

lemma gbps_ok [simp]: "gbps_ok (Inr g)" "gbps_ok (load_gbps loaded n elapsed)"
  by (simp_all add: gbps_ok_def load_gbps_def)

fun task_ok :: "task \<Rightarrow> chunk_key l1 \<Rightarrow> bool" where
  "task_ok (Lookup_start rid keys n) l = (n \<noteq> Some 0)"
| "task_ok (Lookup_put rid keys n) l = (n \<noteq> Some 0)"
| "task_ok (Store_reserve keys n chunks) l = (0 < n \<and> distinct keys)"
| "task_ok (Store_write plan written) l =
     ((\<forall>k \<in> set written. \<exists>e. entries l k = Some e \<and> \<not> is_temporary e)
      \<and> (\<forall>(ob, blob) \<in> set plan. \<exists>k \<in> set written. objs_of l k = Some ob))"
| "task_ok (Release_finish ks next) l = (next \<in> {None, Some Prefetch_get} \<union> Some ` range End_pop)"
| "task_ok (Prefetch_prefix rid keys n) l = (n \<noteq> Some 0)"
| "task_ok (Prefetch_lookup rid l1_keys missing n) l = (0 < n)"
| "task_ok (Prefetch_reserve rid l1_keys ks n load_keys objs) l = (0 < n \<and> slots_ok load_keys objs l)"
| "task_ok (Prefetch_load rid l1_keys n load_keys objs) l = slots_ok load_keys objs l"
| "task_ok (Prefetch_unlock rid l1_keys load_keys loaded gbps) l = (distinct load_keys \<and> gbps_ok gbps)"
| "task_ok (Prefetch_delete rid l1_keys load_keys loaded gbps) l = (distinct load_keys \<and> gbps_ok gbps)"
| "task_ok (Prefetch_resolve rid l1_keys loaded_keys gbps) l = gbps_ok gbps"
| "task_ok _ l = True"

text \<open>
  Where a call may raise: the request is refused, a chunk of the wrong length is written, a chunk to be read
  has gone, keys are given back twice in one request, an adapter fails, or something is divided by zero (the
  hits by the world size of the engine, a load by the time it took, the usage by the capacity).
\<close>

fun may_raise :: "task \<Rightarrow> exn \<Rightarrow> bool" where
  "may_raise (Reject x) exn = (exn = x)"
| "may_raise (Store_write (x # plan) written) exn = (exn = ValueError)"
| "may_raise (Prefetch_lookup rid l1_keys missing n) exn = True"
| "may_raise (Prefetch_load rid l1_keys n load_keys objs) exn = True"
| "may_raise (Back_store ks) exn = True"
| "may_raise (Retrieve_read rid keys world_size) exn = (exn = KeyError \<or> exn = ZeroDivisionError \<and> world_size = 0)"
| "may_raise (Prefetch_resolve rid l1_keys loaded_keys gbps) exn = (gbps = Inl exn \<and> exn = ZeroDivisionError)"
| "may_raise Evict_pick exn = (exn = ZeroDivisionError)"
| "may_raise (Release rid keys ending) exn = (exn = KeyError \<and> (\<exists>ks. keys = Some ks \<and> \<not> distinct ks))"
| "may_raise _ exn = False"

subsection \<open>The simulation relation\<close>

type_synonym lock_sys = "(party, chunk_key) sys"

definition owns :: "lock_sys \<Rightarrow> party \<Rightarrow> chunk_key list \<Rightarrow> chunk_key list \<Rightarrow> bool" where
  "owns y p rs ws \<longleftrightarrow> holds_of p rs \<subseteq># sy_holds y \<and> {p} \<times> set ws \<subseteq> sy_writes y"

definition storage_ok :: "storage \<Rightarrow> bool" where
  "storage_ok s \<longleftrightarrow> (\<forall>rid. distinct (held_of rid s)) \<and> (\<forall>(rid, keys, n) \<in> set (st_jobs s). n \<noteq> Some 0)"

definition sim :: "threads \<Rightarrow> lock_sys \<Rightarrow> bool" where
  "sim c y \<longleftrightarrow> sy_l1 y = st_l1 (shared c) \<and> storage_ok (shared c)
     \<and> (\<forall>rid. owns y (Session rid) (held_of rid (shared c)) [])
     \<and> (\<forall>t task. running c t = Some task \<longrightarrow>
          owns y (Thread t) (reads_of task) (writes_of task) \<and> task_ok task (st_l1 (shared c)))
     \<and> (\<forall>(task, x) \<in> set (raised_by c). may_raise task x)"

text \<open>What a step of the parties in \<open>P\<close> leaves to the others.\<close>

definition undisturbed :: "party set \<Rightarrow> lock_sys \<Rightarrow> lock_sys \<Rightarrow> bool" where
  "undisturbed P y y' \<longleftrightarrow>
     (\<forall>p ks. p \<notin> P \<longrightarrow> holds_of p ks \<subseteq># sy_holds y \<longrightarrow> holds_of p ks \<subseteq># sy_holds y')
     \<and> (\<forall>p k. p \<notin> P \<longrightarrow> (p, k) \<in> sy_writes y \<longrightarrow> (p, k) \<in> sy_writes y')
     \<and> (\<forall>p k e. p \<notin> P \<longrightarrow> (p, k) \<in> sy_writes y \<longrightarrow> entries (sy_l1 y) k = Some e \<longrightarrow>
          (\<exists>e'. entries (sy_l1 y') k = Some e' \<and> en_obj e' = en_obj e \<and> (is_temporary e' \<longrightarrow> is_temporary e)))"

lemma undisturbed_refl: "undisturbed P y y"
  by (simp add: undisturbed_def)

lemma undisturbed_trans: "undisturbed P y y1 \<Longrightarrow> undisturbed P y1 y2 \<Longrightarrow> undisturbed P y y2"
  unfolding undisturbed_def by (metis (no_types, opaque_lifting))

lemma undisturbed_mono: "undisturbed P y y' \<Longrightarrow> P \<subseteq> Q \<Longrightarrow> undisturbed Q y y'"
  unfolding undisturbed_def by (meson subsetD)

lemma count_holds_of [simp]: "count (holds_of p ks) (q, k) = (if q = p then count_list ks k else 0)"
  by (induction ks) (auto simp: holds_of_def)

lemma holds_of_subset_iff: "holds_of p ks \<subseteq># H \<longleftrightarrow> (\<forall>k. count_list ks k \<le> count H (p, k))"
  unfolding subseteq_mset_def by (auto simp: count_holds_of split: if_splits)

lemma holds_of_Nil [simp]: "holds_of p [] = {#}"
  by (simp add: holds_of_def)

lemma undisturbed_step:
  assumes step: "proto_step y y'" and inv: "proto_inv y"
    and H: "\<And>p k. p \<notin> P \<Longrightarrow> count (sy_holds y) (p, k) \<le> count (sy_holds y') (p, k)"
    and W: "\<And>p k. p \<notin> P \<Longrightarrow> (p, k) \<in> sy_writes y \<Longrightarrow> (p, k) \<in> sy_writes y'"
  shows "undisturbed P y y'"
proof -
  have inv': "proto_inv y'" using step inv by (rule proto_step_inv)
  have "\<exists>e'. entries (sy_l1 y') k = Some e' \<and> en_obj e' = en_obj e \<and> (is_temporary e' \<longrightarrow> is_temporary e)"
    if "p \<notin> P" "(p, k) \<in> sy_writes y" "entries (sy_l1 y) k = Some e" for p k e
  proof -
    have "(p, k) \<in> sy_writes y'" using W that by blast
    with inv' obtain e' where e': "entries (sy_l1 y') k = Some e'"
      unfolding proto_inv_def using parties_okD(3) by metis
    moreover have "objs_of (sy_l1 y) k = Some (en_obj e)" "objs_of (sy_l1 y') k = Some (en_obj e')"
      using that(3) e' by (simp_all add: objs_of_def)
    with proto_step_frame [OF step inv] have "en_obj e' = en_obj e" by (metis option.distinct(1) option.inject)
    ultimately show ?thesis using proto_step_temporary [OF step inv that(3) e'] by blast
  qed
  then show ?thesis using H W unfolding undisturbed_def holds_of_subset_iff by (meson order_trans)
qed

lemma owns_undisturbed: "owns y p rs ws \<Longrightarrow> undisturbed P y y' \<Longrightarrow> p \<notin> P \<Longrightarrow> owns y' p rs ws"
  unfolding owns_def undisturbed_def by blast

lemma task_ok_undisturbed:
  assumes u: "undisturbed P y y'" and t: "p \<notin> P" and o: "owns y p rs (writes_of task)"
    and ok: "task_ok task (sy_l1 y)"
  shows "task_ok task (sy_l1 y')"
proof -
  have keep: "\<exists>e'. entries (sy_l1 y') k = Some e' \<and> en_obj e' = en_obj e \<and> (is_temporary e' \<longrightarrow> is_temporary e)"
    if "k \<in> set (writes_of task)" "entries (sy_l1 y) k = Some e" for k e
    using u t o that unfolding undisturbed_def owns_def by blast
  have obj: "objs_of (sy_l1 y') k = Some ob"
    if k: "k \<in> set (writes_of task)" and ob: "objs_of (sy_l1 y) k = Some ob" for k ob
  proof -
    from ob obtain e where "entries (sy_l1 y) k = Some e" "en_obj e = ob" by (auto simp: objs_of_def)
    with keep [OF k] show ?thesis by (fastforce simp: objs_of_def)
  qed
  have slots: "slots_ok (writes_of task) objs (sy_l1 y')" if "slots_ok (writes_of task) objs (sy_l1 y)" for objs
  proof -
    from that have len: "length objs = length (writes_of task)" unfolding slots_ok_def by (metis length_map)
    have "objs_of (sy_l1 y') (writes_of task ! i) = Some (objs ! i)" if "i < length objs" for i
    proof -
      have "objs_of (sy_l1 y) (writes_of task ! i) = Some (objs ! i)"
        using that len \<open>slots_ok (writes_of task) objs (sy_l1 y)\<close> unfolding slots_ok_def by (metis nth_map)
      then show ?thesis using obj that len by simp
    qed
    then show ?thesis using that len unfolding slots_ok_def by (auto intro: nth_equalityI)
  qed
  show ?thesis
  proof (cases task)
    case (Store_write plan written)
    have "\<exists>e. entries (sy_l1 y') k = Some e \<and> \<not> is_temporary e" if "k \<in> set written" for k
      using ok keep [of k] that unfolding Store_write task_ok.simps writes_of.simps by blast
    moreover have "\<exists>k \<in> set written. objs_of (sy_l1 y') k = Some ob" if "(ob, blob) \<in> set plan" for ob blob
      using ok obj that unfolding Store_write task_ok.simps writes_of.simps by blast
    ultimately show ?thesis unfolding Store_write by auto
  qed (use ok slots in auto)
qed

definition after_step :: "nat \<Rightarrow> task \<Rightarrow> task option res \<Rightarrow> storage \<Rightarrow> threads \<Rightarrow> threads" where
  "after_step t task r s c = c\<lparr>shared := s,
     running := (running c)(t := (case r of Inl _ \<Rightarrow> None | Inr next \<Rightarrow> next)),
     raised_by := raised_by c @ (case r of Inl x \<Rightarrow> [(task, x)] | Inr _ \<Rightarrow> []),
     wire := wire c @ map (Pair t) (frames task (shared c))\<rparr>"

lemma sim_after:
  assumes sim: "sim c y" and u: "undisturbed P y y'" and P: "P \<subseteq> insert (Thread t) (range Session)"
    and l1: "sy_l1 y' = st_l1 s" and s: "storage_ok s"
    and sess: "\<And>rid. owns y' (Session rid) (held_of rid s) []"
    and raise: "\<And>x. r = Inl x \<Longrightarrow> may_raise task x"
    and me: "\<And>task'. r = Inr (Some task') \<Longrightarrow>
        owns y' (Thread t) (reads_of task') (writes_of task') \<and> task_ok task' (st_l1 s)"
  shows "sim (after_step t task r s c) y'"
proof -
  have "owns y' (Thread t') (reads_of task') (writes_of task') \<and> task_ok task' (st_l1 s)"
    if run: "running (after_step t task r s c) t' = Some task'" for t' task'
  proof (cases "t' = t")
    case True
    with run me show ?thesis by (auto simp: after_step_def split: sum.splits)
  next
    case False
    with run have "running c t' = Some task'" by (simp add: after_step_def)
    with sim have o: "owns y (Thread t') (reads_of task') (writes_of task')" and ok: "task_ok task' (sy_l1 y)"
      by (auto simp: sim_def)
    from False P have "Thread t' \<notin> P" by auto
    with owns_undisturbed [OF o u] task_ok_undisturbed [OF u _ o ok] l1 show ?thesis by simp
  qed
  then show ?thesis using sim l1 s sess raise
    by (auto simp: sim_def after_step_def split: sum.splits)
qed

text \<open>
  The lock-protocol steps that match an atomic step: a chunk that is held before and after them is held
  in between.
\<close>

definition matched :: "lock_sys \<Rightarrow> lock_sys \<Rightarrow> bool" where
  "matched y y' \<longleftrightarrow> proto_step\<^sup>*\<^sup>* y y' \<and>
     (\<forall>k. 0 < hold_count (sy_holds y) k \<longrightarrow> 0 < hold_count (sy_holds y') k \<longrightarrow> (holding_step k)\<^sup>*\<^sup>* y y')"

lemma matched_refl [simp]: "matched y y"
  by (simp add: matched_def)

lemma matched_step: "proto_step y y' \<Longrightarrow> matched y y'"
  by (auto simp: matched_def holding_step_def)

text \<open>
  Tightness: every lock of the protocol is one a session lists or a running thread is going to give back or
  hand over.
\<close>

definition reads_at :: "task option \<Rightarrow> chunk_key list" where
  "reads_at pt = (case pt of None \<Rightarrow> [] | Some task \<Rightarrow> reads_of task)"

definition writes_at :: "task option \<Rightarrow> chunk_key list" where
  "writes_at pt = (case pt of None \<Rightarrow> [] | Some task \<Rightarrow> writes_of task)"

lemma at_simps [simp]:
  "reads_at None = []" "reads_at (Some task) = reads_of task" "writes_at None = []" "writes_at (Some task) = writes_of task"
  by (simp_all add: reads_at_def writes_at_def)

definition tight :: "threads \<Rightarrow> lock_sys \<Rightarrow> bool" where
  "tight c y \<longleftrightarrow>
     (\<forall>rid k. count (sy_holds y) (Session rid, k) \<le> count_list (held_of rid (shared c)) k)
     \<and> (\<forall>t k. count (sy_holds y) (Thread t, k) \<le> count_list (reads_at (running c t)) k)
     \<and> (\<forall>rid k. (Session rid, k) \<notin> sy_writes y)
     \<and> (\<forall>t k. (Thread t, k) \<in> sy_writes y \<longrightarrow> k \<in> set (writes_at (running c t)))"

text \<open>
  The surplus of a session: holds of the protocol that are the session's, but that it does not list (any more).
  No step reduces it.
\<close>

definition surplus_kept :: "threads \<Rightarrow> lock_sys \<Rightarrow> threads \<Rightarrow> lock_sys \<Rightarrow> bool" where
  "surplus_kept c y c' y' \<longleftrightarrow> (\<forall>rid k d. count_list (held_of rid (shared c)) k + d \<le> count (sy_holds y) (Session rid, k) \<longrightarrow>
     count_list (held_of rid (shared c')) k + d \<le> count (sy_holds y') (Session rid, k))"

text \<open>
  A step of a thread and the lock-protocol steps that match it, which leave the other threads their locks and
  keep the surplus, and tightness unless the step leaks.
\<close>

definition follows :: "nat \<Rightarrow> bool \<Rightarrow> threads \<Rightarrow> threads \<Rightarrow> lock_sys \<Rightarrow> bool" where
  "follows t leak c c' y \<longleftrightarrow> (\<exists>y'. matched y y' \<and> sim c' y' \<and> surplus_kept c y c' y'
     \<and> undisturbed (insert (Thread t) (range Session)) y y' \<and> (tight c y \<longrightarrow> \<not> leak \<longrightarrow> tight c' y'))"

lemma followsI:
  "matched y y' \<Longrightarrow> sim c' y' \<Longrightarrow> surplus_kept c y c' y' \<Longrightarrow> undisturbed P y y' \<Longrightarrow>
   P \<subseteq> insert (Thread t) (range Session) \<Longrightarrow> (tight c y \<Longrightarrow> \<not> leak \<Longrightarrow> tight c' y') \<Longrightarrow>
   follows t leak c c' y"
  unfolding follows_def using undisturbed_mono by blast

lemma shared_after_step [simp]: "shared (after_step t task r s c) = s"
  by (simp add: after_step_def)

definition next_at :: "task option res \<Rightarrow> task option" where
  "next_at r = (case r of Inl _ \<Rightarrow> None | Inr nxt \<Rightarrow> nxt)"

lemma next_at_simps [simp]: "next_at (Inl x) = None" "next_at (Inr nxt) = nxt"
  by (simp_all add: next_at_def)

lemma leaks_advance:
  "advance ch task s = (r, s') \<Longrightarrow> leaks ch task s = (case r of Inl x \<Rightarrow> \<not> raises_free task | Inr _ \<Rightarrow> abandons task s)"
  by (simp add: leaks_def)

lemma tight_after:
  assumes "tight c y"
    and "\<And>rid k. count (sy_holds y') (Session rid, k) \<le> count_list (held_of rid s) k"
    and "\<And>t' k. t' \<noteq> t \<Longrightarrow> count (sy_holds y') (Thread t', k) \<le> count (sy_holds y) (Thread t', k)"
    and "\<And>k. count (sy_holds y') (Thread t, k) \<le> count_list (reads_at (next_at r)) k"
    and "\<And>p k. (p, k) \<in> sy_writes y' \<Longrightarrow> p \<noteq> Thread t \<Longrightarrow> (p, k) \<in> sy_writes y"
    and "\<And>k. (Thread t, k) \<in> sy_writes y' \<Longrightarrow> k \<in> set (writes_at (next_at r))"
  shows "tight (after_step t task r s c) y'"
proof -
  have run: "running (after_step t task r s c) t' = (if t' = t then next_at r else running c t')" for t'
    by (simp add: after_step_def next_at_def)
  have other: "count (sy_holds y') (Thread t', k) \<le> count_list (reads_at (running c t')) k" if "t' \<noteq> t" for t' k
    using assms(3) [OF that, of k] assms(1) order_trans unfolding tight_def by blast
  have "(Session rid, k) \<notin> sy_writes y'" for rid k
    using assms(5) [of "Session rid" k] assms(1) unfolding tight_def by blast
  moreover have "k \<in> set (writes_at (running c t'))" if "(Thread t', k) \<in> sy_writes y'" "t' \<noteq> t" for t' k
    using assms(5) [OF that(1)] that(2) assms(1) unfolding tight_def by blast
  moreover have "held_of rid (shared (after_step t task r s c)) = held_of rid s" for rid by (simp add: after_step_def)
  ultimately show ?thesis unfolding tight_def run using assms(2,4,6) other by auto
qed

lemma tightD:
  assumes "tight c y" and "running c t = Some task"
  shows "count (sy_holds y) (Session rid, k) \<le> count_list (held_of rid (shared c)) k"
    and "count (sy_holds y) (Thread t, k) \<le> count_list (reads_of task) k"
    and "(Thread t, k) \<in> sy_writes y \<Longrightarrow> k \<in> set (writes_of task)"
proof -
  have "count (sy_holds y) (Thread t, k) \<le> count_list (reads_at (running c t)) k"
    "(Thread t, k) \<in> sy_writes y \<Longrightarrow> k \<in> set (writes_at (running c t))"
    "count (sy_holds y) (Session rid, k) \<le> count_list (held_of rid (shared c)) k"
    using assms(1) unfolding tight_def by blast+
  then show "count (sy_holds y) (Session rid, k) \<le> count_list (held_of rid (shared c)) k"
    and "count (sy_holds y) (Thread t, k) \<le> count_list (reads_of task) k"
    and "(Thread t, k) \<in> sy_writes y \<Longrightarrow> k \<in> set (writes_of task)"
    using assms(2) by simp_all
qed

text \<open>A step that changes neither the manager nor who holds what.\<close>

lemma sim_quiet:
  assumes sim: "sim c y" and "st_l1 s = st_l1 (shared c)" and "storage_ok s"
    and "\<And>rid. held_of rid s = held_of rid (shared c) \<or> held_of rid s = []"
    and "\<And>x. r = Inl x \<Longrightarrow> may_raise task x"
    and "\<And>task'. r = Inr (Some task') \<Longrightarrow> owns y (Thread t) (reads_of task') (writes_of task') \<and> task_ok task' (st_l1 s)"
    and run: "running c t = Some task"
    and same: "\<And>rid. \<not> leak \<Longrightarrow> held_of rid s = held_of rid (shared c)"
      "\<not> leak \<Longrightarrow> reads_at (next_at r) = reads_of task \<and> writes_at (next_at r) = writes_of task"
  shows "follows t leak c (after_step t task r s c) y"
proof (rule followsI [OF matched_refl])
  have "owns y (Session rid) (held_of rid s) []" for rid
    using assms(4) [of rid] sim by (auto simp: sim_def owns_def holds_of_def)
  with sim_after [OF sim undisturbed_refl [of "{}"], of t s r task] assms sim
  show "sim (after_step t task r s c) y" by (auto simp: sim_def)
  have "count_list (held_of rid s) k \<le> count_list (held_of rid (shared c)) k" for rid k using assms(4) [of rid] by auto
  then show "surplus_kept c y (after_step t task r s c) y"
    unfolding surplus_kept_def shared_after_step by (meson add_le_mono1 le_trans)
  show "undisturbed {} y y" by (rule undisturbed_refl)
  show "tight (after_step t task r s c) y" if "tight c y" "\<not> leak"
    by (rule tight_after [OF that(1)]) (use tightD [OF that(1) run] same that(2) in auto)
qed simp

text \<open>A step that is a call of the manager.\<close>

lemma held_of_l1 [simp]: "held_of rid (s\<lparr>st_l1 := l\<rparr>) = held_of rid s"
  by (simp add: held_of_def)

lemma storage_ok_l1 [simp]: "storage_ok (s\<lparr>st_l1 := l\<rparr>) = storage_ok s"
  by (simp add: storage_ok_def)

lemma sim_call:
  assumes sim: "sim c y" and inv: "proto_inv y" and step: "proto_step y y'"
    and s: "s = (shared c)\<lparr>st_l1 := sy_l1 y'\<rparr>"
    and H: "\<And>p k. p \<noteq> Thread t \<Longrightarrow> count (sy_holds y') (p, k) = count (sy_holds y) (p, k)"
    and W: "\<And>p k. p \<noteq> Thread t \<Longrightarrow> (p, k) \<in> sy_writes y' \<longleftrightarrow> (p, k) \<in> sy_writes y"
    and raise: "\<And>x. r = Inl x \<Longrightarrow> may_raise task x"
    and me: "\<And>task'. r = Inr (Some task') \<Longrightarrow>
        owns y' (Thread t) (reads_of task') (writes_of task') \<and> task_ok task' (sy_l1 y')"
    and run: "running c t = Some task"
    and R: "\<And>k. \<not> leak \<Longrightarrow> count (sy_holds y) (Thread t, k) \<le> count_list (reads_of task) k \<Longrightarrow>
        count (sy_holds y') (Thread t, k) \<le> count_list (reads_at (next_at r)) k"
    and O: "\<And>k. \<not> leak \<Longrightarrow> (Thread t, k) \<in> sy_writes y \<longrightarrow> k \<in> set (writes_of task) \<Longrightarrow>
        (Thread t, k) \<in> sy_writes y' \<Longrightarrow> k \<in> set (writes_at (next_at r))"
  shows "follows t leak c (after_step t task r s c) y"
proof (rule followsI [OF matched_step [OF step]])
  have u: "undisturbed {Thread t} y y'" using undisturbed_step [OF step inv, of "{Thread t}"] H W by simp
  have "owns y' (Session rid) (held_of rid s) []" for rid
    using owns_undisturbed [OF _ u, of "Session rid" "held_of rid s" "[]"] sim s by (simp add: sim_def)
  with sim_after [OF sim u, of t s r task] raise me sim s show "sim (after_step t task r s c) y'"
    by (auto simp: sim_def)
  show "surplus_kept c y (after_step t task r s c) y'" using H s by (simp add: surplus_kept_def)
  show "undisturbed {Thread t} y y'" by (rule u)
  show "tight (after_step t task r s c) y'" if "tight c y" "\<not> leak"
    by (rule tight_after [OF that(1)]) (use tightD [OF that(1) run] H W R O s that(2) in auto)
qed simp

subsection \<open>Handing holds over\<close>

lemma pass_all:
  "holds_of p ks \<subseteq># sy_holds y \<Longrightarrow> matched y (y\<lparr>sy_holds := sy_holds y - holds_of p ks + holds_of q ks\<rparr>)"
proof (induction ks arbitrary: y)
  case Nil
  then show ?case by simp
next
  case (Cons k ks)
  let ?y = "y\<lparr>sy_holds := sy_holds y - {#(p, k)#} + {#(q, k)#}\<rparr>"
  let ?z = "?y\<lparr>sy_holds := sy_holds ?y - holds_of p ks + holds_of q ks\<rparr>"
  have eq: "holds_of p' (k # ks) = add_mset (p', k) (holds_of p' ks)" for p' :: party by (simp add: holds_of_def)
  from Cons.prems have pk: "(p, k) \<in># sy_holds y" and sub: "holds_of p ks \<subseteq># sy_holds y - {#(p, k)#}"
    unfolding eq by (simp_all add: insert_subset_eq_iff)
  have "holds_of p ks \<subseteq># sy_holds ?y" using subset_mset.order_trans [OF sub] by simp
  then have ih: "matched ?y ?z" by (rule Cons.IH)
  have first: "proto_step y ?y" using pk by (rule step_pass)
  have cnt: "hold_count (sy_holds ?y) j = hold_count (sy_holds y) j" for j using hold_count_pass [OF pk] by simp
  have "matched y ?z"
    unfolding matched_def
  proof (intro conjI allI impI)
    show "proto_step\<^sup>*\<^sup>* y ?z" using ih first by (simp add: matched_def converse_rtranclp_into_rtranclp)
    fix j assume j: "0 < hold_count (sy_holds y) j" "0 < hold_count (sy_holds ?z) j"
    with ih cnt [of j] have "(holding_step j)\<^sup>*\<^sup>* ?y ?z" unfolding matched_def by metis
    moreover have "holding_step j y ?y" using first cnt [of j] j(1) unfolding holding_step_def by metis
    ultimately show "(holding_step j)\<^sup>*\<^sup>* y ?z" by (simp add: converse_rtranclp_into_rtranclp)
  qed
  moreover have "sy_holds ?y - holds_of p ks + holds_of q ks = sy_holds y - holds_of p (k # ks) + holds_of q (k # ks)"
  proof -
    from sub obtain C where C: "sy_holds y - {#(p, k)#} = holds_of p ks + C" by (auto simp: subset_mset.le_iff_add)
    with pk have "sy_holds y = add_mset (p, k) (holds_of p ks + C)" by (metis insert_DiffM)
    then show ?thesis unfolding eq by simp
  qed
  ultimately show ?case by simp
qed

lemma pass_undisturbed:
  "undisturbed {p, q} y (y\<lparr>sy_holds := sy_holds y - holds_of p ks + holds_of q ks\<rparr>)"
  by (auto simp: undisturbed_def holds_of_subset_iff count_holds_of)

lemma holds_of_append: "holds_of p (xs @ ys) = holds_of p xs + holds_of p ys"
  by (simp add: holds_of_def)

lemma holds_of_mset: "mset xs = mset ys \<Longrightarrow> holds_of p xs = holds_of p ys"
  by (simp add: holds_of_def)

lemma holds_of_mono: "mset xs \<subseteq># mset ys \<Longrightarrow> holds_of p xs \<subseteq># holds_of p ys"
  by (simp add: holds_of_def image_mset_subseteq_mono)

lemma del_held_ok:
  "del_held ks held = (r, h) \<Longrightarrow> distinct held \<Longrightarrow>
   distinct h \<and> mset h \<subseteq># mset held \<and> (\<forall>u. r = Inr u \<longrightarrow> mset held = mset (h @ ks))
   \<and> (\<forall>x. r = Inl x \<longrightarrow> x = KeyError \<and> \<not> (distinct ks \<and> set ks \<subseteq> set held))"
proof (induction ks arbitrary: held)
  case Nil
  then show ?case by auto
next
  case (Cons k ks)
  show ?case
  proof (cases "k \<in> set held")
    case False
    with Cons.prems show ?thesis by auto
  next
    case True
    let ?f = "filter (\<lambda>x. x \<noteq> k) held"
    have m: "mset held = add_mset k (mset ?f)"
    proof -
      have "?f = removeAll k held" unfolding removeAll_filter_not_eq by (rule filter_cong) auto
      then have "?f = remove1 k held" using Cons.prems(2) by (simp add: distinct_remove1_removeAll)
      with True show ?thesis by simp
    qed
    have "del_held ks ?f = (r, h)" "distinct ?f" using Cons.prems True by simp_all
    note ih = Cons.IH [OF this]
    have "mset h \<subseteq># mset held" 
    proof -
      have "mset h \<subseteq># mset ?f" using ih by blast
      also have "mset ?f \<subseteq># add_mset k (mset ?f)" by simp
      finally show ?thesis unfolding m .
    qed
    moreover have "mset held = mset (h @ k # ks)" if "r = Inr u" for u
      unfolding m using ih that by simp
    moreover have "\<not> (distinct (k # ks) \<and> set (k # ks) \<subseteq> set held)" if "r = Inl x" for x
      using ih that by (auto simp del: mset_filter)
    ultimately show ?thesis using ih by blast
  qed
qed

lemma take_held_ok:
  assumes t: "take_held rid keys s = (r, s')" and d: "storage_ok s"
  shows "st_l1 s' = st_l1 s \<and> storage_ok s' \<and> (\<forall>rid'. rid' \<noteq> rid \<longrightarrow> held_of rid' s' = held_of rid' s)
    \<and> mset (held_of rid s') \<subseteq># mset (held_of rid s)
    \<and> (\<forall>ks. r = Inr ks \<longrightarrow> mset (held_of rid s) = mset (held_of rid s' @ ks))
    \<and> (\<forall>x. r = Inl x \<longrightarrow> x = KeyError \<and> (\<exists>ks. keys = Some ks \<and> \<not> distinct ks))"
proof -
  define ks where "ks = (case keys of None \<Rightarrow> held_of rid s | Some ks \<Rightarrow> ks)"
  define rel where "rel = filter (\<lambda>k. k \<in> set (held_of rid s)) ks"
  obtain u h where h: "del_held rel (held_of rid s) = (u, h)" by fastforce
  have dis: "distinct (held_of rid s)" using d by (simp add: storage_ok_def)
  note ok = del_held_ok [OF h dis]
  have r: "r = (case u of Inl x \<Rightarrow> Inl x | Inr _ \<Rightarrow> Inr rel)" and s': "s' = set_held rid h s"
    using t h by (auto simp: take_held_def ks_def [symmetric] rel_def [symmetric] split: sum.splits)
  have held: "held_of rid s' = h"
    using ok by (auto simp: s' set_held_def held_of_def split: option.splits)
  have other: "\<forall>rid'. rid' \<noteq> rid \<longrightarrow> held_of rid' s' = held_of rid' s" and "st_l1 s' = st_l1 s" "st_jobs s' = st_jobs s"
    by (simp_all add: s' set_held_def held_of_def)
  moreover have "storage_ok s'"
    unfolding storage_ok_def using d ok held other calculation(3)
    by (metis storage_ok_def)
  moreover have "\<exists>ks. keys = Some ks \<and> \<not> distinct ks" if "u = Inl x" for x
  proof (cases keys)
    case None
    then have "rel = held_of rid s" by (simp add: rel_def ks_def)
    with ok that dis show ?thesis by simp
  next
    case (Some ks')
    then have "ks = ks'" by (simp add: ks_def)
    moreover have "\<not> distinct rel" using ok that by (auto simp: rel_def)
    ultimately show ?thesis using Some by (auto simp: rel_def)
  qed
  ultimately show ?thesis using ok held by (auto simp: r split: sum.splits)
qed

subsection \<open>Every atomic step keeps to the protocol\<close>

lemma simD:
  assumes "sim c y" and "running c t = Some task"
  shows "sy_l1 y = st_l1 (shared c)" and "holds_of (Thread t) (reads_of task) \<subseteq># sy_holds y"
    and "{Thread t} \<times> set (writes_of task) \<subseteq> sy_writes y" and "task_ok task (st_l1 (shared c))" and "storage_ok (shared c)"
  using assms by (auto simp: sim_def owns_def)

lemma proto_invD:
  assumes "proto_inv y"
  shows "l1_inv {} (sy_l1 y)" and "parties_ok (sy_holds y) (sy_writes y) (entries (sy_l1 y))"
  using assms by (simp_all add: proto_inv_def)

lemma sim_finish_read:
  assumes sim: "sim c y" and inv: "proto_inv y" and run: "running c t = Some task" and ks: "reads_of task = ks" "writes_of task = []"
    and adv: "with_l1 (shared c) (finish_read ks (st_l1 (shared c))) next = (r, s)"
    and nxt: "\<And>task'. next = Some task' \<Longrightarrow> reads_of task' = [] \<and> writes_of task' = [] \<and> (\<forall>l. task_ok task' l)"
  shows "follows t leak c (after_step t task r s c) y"
proof -
  note d = simD [OF sim run] and i = proto_invD [OF inv]
  have own: "holds_of (Thread t) ks \<subseteq># sy_holds y" using d(2) ks(1) by simp
  from finish_read_ok [OF i(1) parties_holds_all [OF i(2) own]] obtain l where
    l: "finish_read ks (sy_l1 y) = (Inr (), l)" by blast
  then have rs: "r = Inr next" "s = (shared c)\<lparr>st_l1 := l\<rparr>" using adv d(1) by (auto simp: with_l1_def)
  let ?y = "y\<lparr>sy_l1 := l, sy_holds := sy_holds y - holds_of (Thread t) ks\<rparr>"
  have step: "proto_step y ?y" by (rule step_finish_read [OF own l])
  show ?thesis
    by (rule sim_call [OF sim inv step _ _ _ _ _ run])
      (use rs nxt ks in \<open>auto simp: count_holds_of owns_def reads_at_def writes_at_def split: option.splits\<close>)
qed

lemma store_plan_sound:
  "(k, ob, blob) \<in> set (store_plan reserved chunks c keys) \<Longrightarrow> k \<in> set keys \<and> reserved k = Some (Some ob)"
  by (induction keys arbitrary: c) (auto split: option.splits if_splits)

lemma store_plan_complete:
  "k \<in> set keys \<Longrightarrow> i + length keys \<le> length chunks \<Longrightarrow> reserved k = Some (Some ob) \<Longrightarrow>
   k \<in> fst ` set (store_plan reserved chunks i keys)"
proof (induction keys arbitrary: i)
  case Nil
  then show ?case by simp
next
  case (Cons j keys)
  then have "k \<in> set keys \<Longrightarrow> k \<in> fst ` set (store_plan reserved chunks (Suc i) keys)" by simp
  with Cons.prems show ?case by (auto split: option.splits)
qed

lemma sim_store_reserve:
  assumes sim: "sim c y" and inv: "proto_inv y" and run: "running c t = Some (Store_reserve keys n chunks)"
    and adv: "advance ch (Store_reserve keys n chunks) (shared c) = (r, s)"
  shows "follows t (leaks ch (Store_reserve keys n chunks) (shared c)) c (after_step t (Store_reserve keys n chunks) r s c) y"
proof -
  note d = simD [OF sim run] and i = proto_invD [OF inv]
  have n: "0 < n" "distinct keys" using d(4) by simp_all
  obtain res l where rw: "reserve_write keys n False (sy_l1 y) = (res, l)" by fastforce
  let ?plan = "store_plan res chunks 0 keys"
  have rs: "r = Inr (Some (Store_write (map snd ?plan) (map fst ?plan)))" "s = (shared c)\<lparr>st_l1 := l\<rparr>"
    using adv rw d(1) by (simp_all add: on_l1_def Let_def)
  let ?y = "y\<lparr>sy_l1 := l, sy_writes := sy_writes y \<union> {Thread t} \<times> granted res keys\<rparr>"
  have step: "proto_step y ?y" by (rule step_reserve_write [OF n rw])
  note eff = reserve_write_effect(1) [OF i(1) n(1) rw]
  have plan: "k \<in> granted res keys \<and> (\<exists>e. entries l k = Some e \<and> \<not> is_temporary e) \<and> objs_of l k = Some ob"
    if "(k, ob, blob) \<in> set ?plan" for k ob blob
    using store_plan_sound [OF that] eff [of k ob] by (auto simp: granted_def Entry_def objs_of_def)
  have me: "owns ?y (Thread t) [] (map fst ?plan) \<and> task_ok (Store_write (map snd ?plan) (map fst ?plan)) l"
  proof -
    have "k \<in> granted res keys \<and> (\<exists>e. entries l k = Some e \<and> \<not> is_temporary e)" if "k \<in> set (map fst ?plan)" for k
    proof -
      from that obtain ob blob where "(k, ob, blob) \<in> set ?plan" by auto
      with plan show ?thesis by blast
    qed
    moreover have "\<exists>k \<in> set (map fst ?plan). objs_of l k = Some ob" if "(ob, blob) \<in> set (map snd ?plan)" for ob blob
    proof -
      from that obtain k where k: "(k, ob, blob) \<in> set ?plan" by auto
      then have "k \<in> set (map fst ?plan)" by (metis fst_conv image_eqI set_map)
      with plan [OF k] show ?thesis by blast
    qed
    moreover have "owns ?y (Thread t) [] ws \<and> task_ok (Store_write ps ws) l"
      if "\<And>k. k \<in> set ws \<Longrightarrow> k \<in> granted res keys \<and> (\<exists>e. entries l k = Some e \<and> \<not> is_temporary e)"
        "\<And>ob blob. (ob, blob) \<in> set ps \<Longrightarrow> \<exists>k \<in> set ws. objs_of l k = Some ob" for ws ps
      using that by (auto simp: owns_def)
    ultimately show ?thesis by blast
  qed
  have all: "k \<in> set (map fst ?plan)" if "k \<in> granted res keys" "length keys \<le> length chunks" for k
    using that store_plan_complete [of k keys 0 chunks res] by (auto simp: granted_def)
  show ?thesis
    by (rule sim_call [OF sim inv step _ _ _ _ _ run]) (use rs me all in \<open>auto simp: leaks_advance [OF adv] simp del: task_ok.simps advance.simps\<close>)
qed

lemma sim_store_finish:
  assumes sim: "sim c y" and inv: "proto_inv y" and run: "running c t = Some (Store_write [] written)"
    and adv: "advance ch (Store_write [] written) (shared c) = (r, s)"
  shows "follows t (leaks ch (Store_write [] written) (shared c)) c (after_step t (Store_write [] written) r s c) y"
proof -
  note d = simD [OF sim run] and i = proto_invD [OF inv]
  obtain u l where fw: "finish_write written (sy_l1 y) = (u, l)" by fastforce
  have own: "{Thread t} \<times> set written \<subseteq> sy_writes y" using d(3) by simp
  have temp: "\<forall>k \<in> set written. \<not> is_temporary (the (entries (sy_l1 y) k))" using d(1,4) by fastforce
  have "u = Inr ()" by (rule finish_write_ok(1) [OF own_writes_in_dom [OF i(2) own] fw])
  then have rs: "r = Inr None" "s = (shared c)\<lparr>st_l1 := l\<rparr>" using adv fw d(1) by (simp_all add: with_l1_def)
  have step: "proto_step y (y\<lparr>sy_l1 := l, sy_writes := sy_writes y - {Thread t} \<times> set written\<rparr>)"
    by (rule step_finish_write [OF own temp fw])
  show ?thesis by (rule sim_call [OF sim inv step _ _ _ _ _ run]) (use rs in auto)
qed

text \<open>A write through the view of a chunk the thread has write-locked.\<close>

lemma sim_poke:
  assumes sim: "sim c y" and inv: "proto_inv y" and run: "running c t = Some task"
    and k: "k \<in> set (writes_of task)" and ob: "objs_of (st_l1 (shared c)) k = Some ob"
    and len: "length bs \<le> mo_nbytes ob"
    and p: "p = (allocator (st_l1 (shared c)))\<lparr>pool_mem :=
      write_seg (mo_offset ob) bs (pool_mem (allocator (st_l1 (shared c))))\<rparr>"
    and me: "reads_of task' = reads_of task" "writes_of task' = writes_of task"
      "\<And>l. entries l = entries (st_l1 (shared c)) \<Longrightarrow> task_ok task' l"
  shows "follows t leak c
    (after_step t task (Inr (Some task')) ((shared c)\<lparr>st_l1 := set_pool p (st_l1 (shared c))\<rparr>) c) y"
proof -
  note d = simD [OF sim run]
  from ob obtain e where e: "entries (sy_l1 y) k = Some e" "en_obj e = ob" using d(1) by (auto simp: objs_of_def)
  have p': "length bs \<le> mo_nbytes (en_obj e)"
    "p = (allocator (sy_l1 y))\<lparr>pool_mem := write_seg (mo_offset (en_obj e)) bs (pool_mem (allocator (sy_l1 y)))\<rparr>"
    using len p d(1) e(2) by simp_all
  have "(Thread t, k) \<in> sy_writes y" using d(3) k by blast
  from step_poke [OF this e(1) p'] have step: "proto_step y (y\<lparr>sy_l1 := (sy_l1 y)\<lparr>allocator := p\<rparr>\<rparr>)" .
  show ?thesis
    by (rule sim_call [OF sim inv step _ _ _ _ _ run]) (use d me in \<open>auto simp: set_pool_def owns_def\<close>)
qed

lemma write_obj_InrD:
  "write_obj ob bs p = Inr p' \<Longrightarrow> length bs \<le> mo_nbytes ob"
  "write_obj ob bs p = Inr p' \<Longrightarrow> p' = p\<lparr>pool_mem := write_seg (mo_offset ob) bs (pool_mem p)\<rparr>"
  by (auto simp: write_obj_def split: if_splits)

lemma sim_prefix:
  assumes sim: "sim c y" and inv: "proto_inv y" and run: "running c t = Some (Prefetch_prefix rid keys n)"
    and adv: "advance ch (Prefetch_prefix rid keys n) (shared c) = (r, s)"
  shows "follows t (leaks ch (Prefetch_prefix rid keys n) (shared c)) c (after_step t (Prefetch_prefix rid keys n) r s c) y"
proof -
  note d = simD [OF sim run]
  obtain hit l where rp: "reserve_read_prefix keys (sy_l1 y) = (hit, l)" by fastforce
  have rs: "r = Inr (Some (case n of None \<Rightarrow> Prefetch_resolve rid (take hit keys) [] (Inr 0)
      | Some n \<Rightarrow> Prefetch_lookup rid (take hit keys) (drop hit keys) n))" "s = (shared c)\<lparr>st_l1 := l\<rparr>"
    using adv rp d(1) by (simp_all add: on_l1_def)
  have step: "proto_step y (y\<lparr>sy_l1 := l, sy_holds := sy_holds y + holds_of (Thread t) (take hit keys)\<rparr>)"
    by (rule step_reserve_read_prefix [OF rp])
  show ?thesis
    by (rule sim_call [OF sim inv step _ _ _ _ _ run]) (use rs d(4) in \<open>auto simp: owns_def split: option.splits\<close>)
qed

lemma sim_load_reserve:
  assumes sim: "sim c y" and inv: "proto_inv y"
    and run: "running c t = Some (Prefetch_reserve rid l1_keys (k # ks) n load_keys objs)"
    and adv: "advance ch (Prefetch_reserve rid l1_keys (k # ks) n load_keys objs) (shared c) = (r, s)"
  shows "follows t (leaks ch (Prefetch_reserve rid l1_keys (k # ks) n load_keys objs) (shared c)) c (after_step t (Prefetch_reserve rid l1_keys (k # ks) n load_keys objs) r s c) y"
proof -
  note d = simD [OF sim run] and i = proto_invD [OF inv]
  have n: "0 < n" "distinct [k]" using d(4) by simp_all
  obtain res l where rw: "reserve_write [k] n True (sy_l1 y) = (res, l)" by fastforce
  have rs: "r = Inr (Some (case res k of
        Some (Some ob) \<Rightarrow> Prefetch_reserve rid l1_keys ks n (load_keys @ [k]) (objs @ [ob])
      | _ \<Rightarrow> Prefetch_load rid l1_keys n load_keys objs))" "s = (shared c)\<lparr>st_l1 := l\<rparr>"
    using adv rw d(1) by (simp_all add: on_l1_def)
  let ?y = "y\<lparr>sy_l1 := l, sy_writes := sy_writes y \<union> {Thread t} \<times> granted res [k]\<rparr>"
  have step: "proto_step y ?y" by (rule step_reserve_write [OF n rw])
  note eff = reserve_write_effect [OF i(1) n(1) rw]
  have own: "{Thread t} \<times> set load_keys \<subseteq> sy_writes y" and slots: "slots_ok load_keys objs (sy_l1 y)"
    using d by simp_all
  have dom: "set load_keys \<subseteq> dom (entries (sy_l1 y))" by (rule own_writes_in_dom [OF i(2) own])
  have new: "k \<notin> set load_keys" if "res k = Some (Some ob)" for ob
    using eff(1) [OF that] dom by auto
  have kept: "objs_of l j = objs_of (sy_l1 y) j" if "j \<in> set load_keys" for j
  proof (cases "j \<in> granted res [k]")
    case True
    then have "res j = Some (Some (the (the (res j))))" "j = k" by (auto simp: granted_def)
    with new that show ?thesis by metis
  next
    case False
    with eff(2) show ?thesis by (simp add: objs_of_def)
  qed
  then have map: "map (objs_of l) load_keys = map Some objs"
    using slots unfolding slots_ok_def by (metis map_cong)
  have me: "owns ?y (Thread t) l1_keys load_keys" "slots_ok load_keys objs l"
    using d(2) own slots map by (auto simp: owns_def slots_ok_def)
  have me': "owns ?y (Thread t) l1_keys (load_keys @ [k]) \<and> slots_ok (load_keys @ [k]) (objs @ [ob]) l"
    if "res k = Some (Some ob)" for ob
    using me new [OF that] eff(1) [OF that] map that by (auto simp: owns_def slots_ok_def granted_def objs_of_def Entry_def)
  show ?thesis
    by (rule sim_call [OF sim inv step _ _ _ _ _ run]) (use rs me me' n in \<open>auto simp: granted_def split: option.splits\<close>)
qed

lemma in_take_or_drop: "x \<in> set xs \<Longrightarrow> x \<notin> set (take n xs) \<Longrightarrow> x \<in> set (drop n xs)"
  by (metis Un_iff append_take_drop_id set_append)

lemma sim_unlock:
  assumes sim: "sim c y" and inv: "proto_inv y"
    and run: "running c t = Some (Prefetch_unlock rid l1_keys load_keys loaded gbps)"
    and adv: "advance ch (Prefetch_unlock rid l1_keys load_keys loaded gbps) (shared c) = (r, s)"
  shows "follows t (leaks ch (Prefetch_unlock rid l1_keys load_keys loaded gbps) (shared c)) c (after_step t (Prefetch_unlock rid l1_keys load_keys loaded gbps) r s c) y"
proof -
  note d = simD [OF sim run] and i = proto_invD [OF inv]
  let ?ks = "take loaded load_keys"
  obtain u l where fw: "finish_write_and_reserve_read ?ks (sy_l1 y) = (u, l)" by fastforce
  have own: "{Thread t} \<times> set ?ks \<subseteq> sy_writes y" using d(3) set_take_subset [of loaded load_keys] by auto
  have "u = Inr ()" by (rule finish_write_and_reserve_read_ok(1) [OF own_writes_in_dom [OF i(2) own] fw])
  then have rs: "r = Inr (Some (Prefetch_delete rid l1_keys load_keys loaded gbps))" "s = (shared c)\<lparr>st_l1 := l\<rparr>"
    using adv fw d(1) by (simp_all add: with_l1_def)
  let ?y = "y\<lparr>sy_l1 := l, sy_writes := sy_writes y - {Thread t} \<times> set ?ks, sy_holds := sy_holds y + holds_of (Thread t) ?ks\<rparr>"
  have step: "proto_step y ?y" by (rule step_finish_write_and_reserve_read [OF own fw])
  have "set (drop loaded load_keys) \<inter> set ?ks = {}"
    using d(4) distinct_take_drop_disjoint [of load_keys loaded] by auto
  then have "owns ?y (Thread t) (l1_keys @ ?ks) (drop loaded load_keys)"
    using d(2,3) set_drop_subset [of loaded load_keys] by (auto simp: owns_def holds_of_append)
  with d(4) show ?thesis
    by (intro sim_call [OF sim inv step _ _ _ _ _ run]) (use rs in \<open>auto simp: in_take_or_drop\<close>)
qed

lemma sim_delete_own:
  assumes sim: "sim c y" and inv: "proto_inv y"
    and run: "running c t = Some (Prefetch_delete rid l1_keys load_keys loaded gbps)"
    and adv: "advance ch (Prefetch_delete rid l1_keys load_keys loaded gbps) (shared c) = (r, s)"
  shows "follows t (leaks ch (Prefetch_delete rid l1_keys load_keys loaded gbps) (shared c)) c (after_step t (Prefetch_delete rid l1_keys load_keys loaded gbps) r s c) y"
proof -
  note d = simD [OF sim run] and i = proto_invD [OF inv]
  let ?ks = "drop loaded load_keys"
  from delete_ok [OF i(1), of ?ks True] obtain k l where del: "delete ?ks True (sy_l1 y) = (Inr k, l)" by blast
  then have rs: "r = Inr (Some (Prefetch_resolve rid l1_keys (take loaded load_keys) gbps))" "s = (shared c)\<lparr>st_l1 := l\<rparr>"
    using adv d(1) by (simp_all add: with_l1_def)
  have own: "{Thread t} \<times> set ?ks \<subseteq> sy_writes y" using d(3) by simp
  have step: "proto_step y (y\<lparr>sy_l1 := l, sy_writes := sy_writes y - {Thread t} \<times> set ?ks\<rparr>)"
    by (rule step_delete_own [OF own del])
  show ?thesis
    by (rule sim_call [OF sim inv step _ _ _ _ _ run]) (use rs d(2,4) in \<open>auto simp: owns_def\<close>)
qed

lemma sim_delete:
  assumes sim: "sim c y" and inv: "proto_inv y" and run: "running c t = Some (Evict_delete keys)"
    and adv: "advance ch (Evict_delete keys) (shared c) = (r, s)"
  shows "follows t (leaks ch (Evict_delete keys) (shared c)) c (after_step t (Evict_delete keys) r s c) y"
proof -
  note d = simD [OF sim run] and i = proto_invD [OF inv]
  from delete_ok [OF i(1), of keys False] obtain k l where del: "delete keys False (sy_l1 y) = (Inr k, l)" by blast
  then have rs: "r = Inr (Some Evict_pick)" "s = (shared c)\<lparr>st_l1 := l\<rparr>"
    using adv d(1) by (simp_all add: with_l1_def)
  have step: "proto_step y (y\<lparr>sy_l1 := l\<rparr>)" by (rule step_delete [OF del])
  show ?thesis
    by (rule sim_call [OF sim inv step _ _ _ _ _ run]) (use rs in \<open>auto simp: owns_def\<close>)
qed

lemma sim_back_reserve:
  assumes sim: "sim c y" and inv: "proto_inv y" and run: "running c t = Some (Back_reserve keys)"
    and adv: "advance ch (Back_reserve keys) (shared c) = (r, s)"
  shows "follows t (leaks ch (Back_reserve keys) (shared c)) c (after_step t (Back_reserve keys) r s c) y"
proof -
  note d = simD [OF sim run]
  obtain res l where rr: "reserve_read keys (sy_l1 y) = (res, l)" by fastforce
  let ?ks = "filter (\<lambda>k. res k \<noteq> Some None) keys"
  have rs: "r = Inr (Some (if ?ks = [] then Back_get else Back_store ?ks))" "s = (shared c)\<lparr>st_l1 := l\<rparr>"
    using adv rr d(1) by (simp_all add: on_l1_def Let_def)
  have step: "proto_step y (y\<lparr>sy_l1 := l, sy_holds := sy_holds y + holds_of (Thread t) ?ks\<rparr>)"
    by (rule step_reserve_read [OF rr])
  show ?thesis
    by (rule sim_call [OF sim inv step _ _ _ _ _ run]) (use rs in \<open>auto simp: owns_def split: if_splits\<close>)
qed

lemma owns_held: "sim c y \<Longrightarrow> owns y (Session rid) (held_of rid (shared c)) []"
  by (simp add: sim_def)

lemma owns_less: "owns y p rs ws \<Longrightarrow> mset rs' \<subseteq># mset rs \<Longrightarrow> set ws' \<subseteq> set ws \<Longrightarrow> owns y p rs' ws'"
proof -
  assume o: "owns y p rs ws" and sub: "mset rs' \<subseteq># mset rs" "set ws' \<subseteq> set ws"
  have "holds_of p rs' \<subseteq># holds_of p rs" using sub(1) by (rule holds_of_mono)
  also have "\<dots> \<subseteq># sy_holds y" using o by (simp add: owns_def)
  finally show ?thesis using o sub(2) by (auto simp: owns_def)
qed

lemma count_list_mset: "mset xs = mset ys \<Longrightarrow> count_list xs k = count_list ys k"
  by (metis count_mset)

lemma sim_release:
  assumes sim: "sim c y" and run: "running c t = Some (Release rid keys ending)"
    and adv: "advance ch (Release rid keys ending) (shared c) = (r, s)"
  shows "follows t (leaks ch (Release rid keys ending) (shared c)) c (after_step t (Release rid keys ending) r s c) y"
proof -
  note d = simD [OF sim run]
  obtain u s' where tk: "take_held rid keys (shared c) = (u, s')" by fastforce
  note ok = take_held_ok [OF tk d(5)]
  have s: "s = s'" using adv tk by (auto split: sum.splits)
  have sess: "owns y (Session q) (held_of q s') []" for q
    using owns_held [OF sim, of q] ok by (cases "q = rid") (auto intro: owns_less)
  show ?thesis
  proof (cases u)
    case (Inl x)
    then have r: "r = Inl x" using adv tk by simp
    have "sim (after_step t (Release rid keys ending) r s c) y"
      by (rule sim_after [OF sim undisturbed_refl [of "{}"]]) (use ok sess d Inl r s in auto)
    then show ?thesis
    proof (rule followsI [OF matched_refl])
      have "count_list (held_of q s) k \<le> count_list (held_of q (shared c)) k" for q k
        using ok s by (cases "q = rid") (simp_all flip: count_mset add: mset_subset_eq_count)
      then show "surplus_kept c y (after_step t (Release rid keys ending) r s c) y"
        unfolding surplus_kept_def shared_after_step by (meson add_le_mono1 le_trans)
    qed (use undisturbed_refl [of "{}" y] r in \<open>auto simp: leaks_advance [OF adv]\<close>)
  next
    case (Inr ks)
    then have r: "r = Inr (Some (Release_finish ks (if ending then Some (End_pop rid) else None)))" using adv tk by simp
    let ?y = "y\<lparr>sy_holds := sy_holds y - holds_of (Session rid) ks + holds_of (Thread t) ks\<rparr>"
    have m: "count_list (held_of rid (shared c)) k = count_list (held_of rid s') k + count_list ks k" for k
      using ok Inr count_list_mset [of "held_of rid (shared c)" "held_of rid s' @ ks"] by simp
    have "holds_of (Session rid) ks \<subseteq># sy_holds y"
      using owns_held [OF sim, of rid] unfolding owns_def holds_of_subset_iff m by (meson add_leD2)
    then have steps: "matched y ?y" by (rule pass_all)
    have mine: "owns ?y (Session rid) (held_of rid s') []"
      using owns_held [OF sim, of rid] unfolding owns_def holds_of_subset_iff m
      by (simp add: count_holds_of) (metis add_le_imp_le_diff)
    have others: "owns ?y (Session q) (held_of q s') []" if "q \<noteq> rid" for q
      by (rule owns_undisturbed [OF sess pass_undisturbed]) (use that in simp)
    have "sim (after_step t (Release rid keys ending) r s c) ?y"
    proof (rule sim_after [OF sim pass_undisturbed])
      show "owns ?y (Session q) (held_of q s) []" for q using mine others s by (cases "q = rid") auto
    qed (use ok r s d in \<open>auto simp: owns_def\<close>)
    then show ?thesis
    proof (rule followsI [OF steps])
      show "undisturbed {Session rid, Thread t} y ?y" by (rule pass_undisturbed)
      show "surplus_kept c y (after_step t (Release rid keys ending) r s c) ?y"
        unfolding surplus_kept_def shared_after_step
      proof (intro allI impI)
        fix q k d assume le: "count_list (held_of q (shared c)) k + d \<le> count (sy_holds y) (Session q, k)"
        show "count_list (held_of q s) k + d \<le> count (sy_holds ?y) (Session q, k)"
          using le m [of k] ok s by (cases "q = rid") auto
      qed
      assume tight: "tight c y"
      note td = tightD [OF tight run]
      have "count (sy_holds ?y) (Session q, k) \<le> count_list (held_of q s) k" for q k
        using td(1) [of q k] m [of k] ok s by (cases "q = rid") auto
      then show "tight (after_step t (Release rid keys ending) r s c) ?y"
        by (intro tight_after [OF tight]) (use td(2,3) r in auto)
    qed simp
  qed
qed

lemma mset_od_fromkeys: "mset (od_fromkeys ks) \<subseteq># mset ks"
proof (rule mset_subset_eqI)
  fix k show "count (mset (od_fromkeys ks)) k \<le> count (mset ks) k"
  proof (cases "k \<in> set ks")
    case True
    then have "count_list ks k \<noteq> 0" by (simp add: count_list_0_iff)
    with True show ?thesis by (simp add: count_mset distinct_count_list)
  qed (simp add: count_mset count_list_0_iff)
qed

lemma count_od_fromkeys: "count_list (od_fromkeys ks) k \<le> count_list ks k"
  by (metis count_mset mset_od_fromkeys mset_subset_eq_count)

lemma sim_resolve_raises:
  assumes sim: "sim c y" and run: "running c t = Some (Prefetch_resolve rid l1_keys loaded_keys (Inl x))"
    and adv: "advance ch (Prefetch_resolve rid l1_keys loaded_keys (Inl x)) (shared c) = (r, s)"
  shows "follows t (leaks ch (Prefetch_resolve rid l1_keys loaded_keys (Inl x)) (shared c)) c
    (after_step t (Prefetch_resolve rid l1_keys loaded_keys (Inl x)) r s c) y"
proof -
  have rs: "r = Inl x" "s = shared c" "x = ZeroDivisionError"
    using adv simD [OF sim run] by (simp_all add: gbps_ok_def)
  have "leaks ch (Prefetch_resolve rid l1_keys loaded_keys (Inl x)) (shared c)" using rs(1) by (simp add: leaks_advance [OF adv])
  then show ?thesis by (intro sim_quiet [OF sim _ _ _ _ _ run]) (use rs simD [OF sim run] in auto)
qed

lemma sim_resolve:
  assumes sim: "sim c y" and run: "running c t = Some (Prefetch_resolve rid l1_keys loaded_keys (Inr g))"
    and adv: "advance ch (Prefetch_resolve rid l1_keys loaded_keys (Inr g)) (shared c) = (r, s)"
  shows "follows t (leaks ch (Prefetch_resolve rid l1_keys loaded_keys (Inr g)) (shared c)) c (after_step t (Prefetch_resolve rid l1_keys loaded_keys (Inr g)) r s c) y"
proof -
  note d = simD [OF sim run]
  let ?ks = "l1_keys @ loaded_keys"
  show ?thesis
  proof (cases "st_hits (shared c) rid = None")
    case True
    then have rs: "r = Inr (Some (Release_finish ?ks (Some Prefetch_get)))" "s = shared c"
      using adv by (simp_all add: publish_def)
    show ?thesis by (rule sim_quiet [OF sim _ _ _ _ _ run]) (use rs d in \<open>auto simp: owns_def\<close>)
  next
    case False
    then have rs: "r = Inr (Some Prefetch_get)" "st_l1 s = st_l1 (shared c)" "st_jobs s = st_jobs (shared c)"
      "held_of q s = (if q = rid then od_fromkeys ?ks else held_of q (shared c))" for q
      using adv by (auto simp: publish_def held_of_def)
    let ?y = "y\<lparr>sy_holds := sy_holds y - holds_of (Thread t) ?ks + holds_of (Session rid) ?ks\<rparr>"
    have steps: "matched y ?y" using d(2) by (intro pass_all) simp
    have "storage_ok s" using d(5) unfolding storage_ok_def rs by simp
    moreover have "owns ?y (Session q) (held_of q s) []" for q
    proof (cases "q = rid")
      case True
      have "owns ?y (Session rid) ?ks []" by (simp add: owns_def)
      then show ?thesis unfolding True rs(4) by (simp add: owns_less mset_od_fromkeys del: mset_append)
    next
      case False
      with owns_undisturbed [OF owns_held [OF sim, of q] pass_undisturbed [of "Thread t" "Session rid"]] rs(4)
      show ?thesis by simp
    qed
    ultimately have "sim (after_step t (Prefetch_resolve rid l1_keys loaded_keys (Inr g)) r s c) ?y"
      by (intro sim_after [OF sim pass_undisturbed]) (use rs d in \<open>auto simp: owns_def\<close>)
    then show ?thesis
    proof (rule followsI [OF steps])
      show "undisturbed {Thread t, Session rid} y ?y" by (rule pass_undisturbed)
      show "surplus_kept c y (after_step t (Prefetch_resolve rid l1_keys loaded_keys (Inr g)) r s c) ?y"
        unfolding surplus_kept_def shared_after_step
      proof (intro allI impI)
        fix q k d assume le: "count_list (held_of q (shared c)) k + d \<le> count (sy_holds y) (Session q, k)"
        show "count_list (held_of q s) k + d \<le> count (sy_holds ?y) (Session q, k)"
        proof (cases "q = rid")
          case True
          have "count (sy_holds ?y) (Session q, k) = count (sy_holds y) (Session q, k) + count_list ?ks k"
            using True by simp
          moreover have "held_of q s = od_fromkeys ?ks" using rs(4) True by simp
          ultimately show ?thesis using le count_od_fromkeys [of ?ks k] by simp
        qed (use le rs(4) in simp)
      qed
      assume tight: "tight c y" and "\<not> leaks ch (Prefetch_resolve rid l1_keys loaded_keys (Inr g)) (shared c)"
      then have none: "held_of rid (shared c) = []" and dis: "distinct ?ks"
        using False rs(1) by (auto simp: leaks_advance [OF adv])
      note td = tightD [OF tight run]
      have "count (sy_holds ?y) (Session q, k) \<le> count_list (held_of q s) k" for q k
        using td(1) [of q k] none od_fromkeys_distinct [OF dis] unfolding rs(4) by auto
      then show "tight (after_step t (Prefetch_resolve rid l1_keys loaded_keys (Inr g)) r s c) ?y"
        by (intro tight_after [OF tight]) (use td(2,3) rs(1) in auto)
    qed simp
  qed
qed

lemma sim_back_get:
  assumes sim: "sim c y" and inv: "proto_inv y" and run: "running c t = Some Back_get"
    and adv: "advance ch Back_get (shared c) = (r, s)"
  shows "follows t (leaks ch Back_get (shared c)) c (after_step t Back_get r s c) y"
proof (cases "store_pending (listeners (st_l1 (shared c)))")
  case Nil
  then have rs: "r = Inr (Some Back_get)" "s = shared c" using adv by simp_all
  show ?thesis by (rule sim_quiet [OF sim _ _ _ _ _ run]) (use rs simD [OF sim run] in \<open>auto simp: owns_def\<close>)
next
  case (Cons keys rest)
  note d = simD [OF sim run]
  let ?l = "(sy_l1 y)\<lparr>listeners := set_store_pending rest (listeners (sy_l1 y))\<rparr>"
  have rs: "r = Inr (Some (Back_reserve keys))" "s = (shared c)\<lparr>st_l1 := ?l\<rparr>" using adv Cons d(1) by simp_all
  have step: "proto_step y (y\<lparr>sy_l1 := ?l\<rparr>)" by (rule step_listeners)
  show ?thesis by (rule sim_call [OF sim inv step _ _ _ _ _ run]) (use rs in \<open>auto simp: owns_def\<close>)
qed

lemma sim_promote:
  assumes sim: "sim c y" and inv: "proto_inv y" and run: "running c t = Some (Retrieve_promote rid keys)"
    and adv: "advance ch (Retrieve_promote rid keys) (shared c) = (r, s)"
  shows "follows t (leaks ch (Retrieve_promote rid keys) (shared c)) c (after_step t (Retrieve_promote rid keys) r s c) y"
proof -
  note d = simD [OF sim run]
  have rs: "r = Inr (Some (Release rid (Some keys) False))" "s = (shared c)\<lparr>st_l1 := promote keys (sy_l1 y)\<rparr>"
    using adv d(1) by simp_all
  have step: "proto_step y (y\<lparr>sy_l1 := promote keys (sy_l1 y)\<rparr>)" by (rule step_promote)
  show ?thesis by (rule sim_call [OF sim inv step _ _ _ _ _ run]) (use rs in \<open>auto simp: owns_def\<close>)
qed

lemma sim_write:
  assumes sim: "sim c y" and inv: "proto_inv y" and run: "running c t = Some (Store_write ((ob, blob) # rest) written)"
    and adv: "advance ch (Store_write ((ob, blob) # rest) written) (shared c) = (r, s)"
  shows "follows t (leaks ch (Store_write ((ob, blob) # rest) written) (shared c)) c (after_step t (Store_write ((ob, blob) # rest) written) r s c) y"
proof (cases "write_obj ob blob (allocator (st_l1 (shared c)))")
  case (Inl x)
  then have rs: "r = Inl x" "s = shared c" "x = ValueError"
    using adv by (auto simp: write_obj_def split: if_splits)
  have "leaks ch (Store_write ((ob, blob) # rest) written) (shared c)" using rs(1) by (simp add: leaks_advance [OF adv])
  then show ?thesis by (intro sim_quiet [OF sim _ _ _ _ _ run]) (use rs simD [OF sim run] in auto)
next
  case (Inr p)
  then have rs: "r = Inr (Some (Store_write rest written))" "s = (shared c)\<lparr>st_l1 := set_pool p (st_l1 (shared c))\<rparr>"
    using adv by simp_all
  have ok: "task_ok (Store_write ((ob, blob) # rest) written) (st_l1 (shared c))" using simD [OF sim run] by simp
  then obtain k where k: "k \<in> set written" "objs_of (st_l1 (shared c)) k = Some ob" by auto
  show ?thesis unfolding rs
    by (rule sim_poke [OF sim inv run _ k(2) write_obj_InrD [OF Inr]]) (use k ok in \<open>auto simp: objs_of_def\<close>)
qed

lemma sim_load:
  assumes sim: "sim c y" and inv: "proto_inv y" and run: "running c t = Some (Prefetch_load rid l1_keys n load_keys objs)"
    and adv: "advance ch (Prefetch_load rid l1_keys n load_keys objs) (shared c) = (r, s)"
  shows "follows t (leaks ch (Prefetch_load rid l1_keys n load_keys objs) (shared c)) c (after_step t (Prefetch_load rid l1_keys n load_keys objs) r s c) y"
proof -
  let ?task = "Prefetch_load rid l1_keys n load_keys objs"
  note d = simD [OF sim run]
  have quiet: "?thesis" if "r = Inr (Some ?task) \<or> (\<exists>n x. gbps_ok x \<and> r = Inr (Some (Prefetch_unlock rid l1_keys load_keys n x)))
      \<or> (\<exists>x. r = Inl x)" "s = shared c"
    by (rule sim_quiet [OF sim _ _ _ _ _ run])
      (use that d in \<open>auto simp: owns_def slots_ok_def leaks_advance [OF adv]\<close>)
  have slots: "slots_ok load_keys objs (st_l1 (shared c))" using d(4) by simp
  then have len: "length load_keys = length objs" unfolding slots_ok_def by (metis length_map)
  have slot: "?thesis" if i: "i < length objs" and bs: "length bs \<le> mo_nbytes (objs ! i)"
      "p = (allocator (st_l1 (shared c)))\<lparr>pool_mem :=
        write_seg (mo_offset (objs ! i)) bs (pool_mem (allocator (st_l1 (shared c))))\<rparr>"
      and rs: "r = Inr (Some ?task)" "s = (shared c)\<lparr>st_l1 := set_pool p (st_l1 (shared c))\<rparr>" for i bs p
  proof -
    have ob: "objs_of (st_l1 (shared c)) (load_keys ! i) = Some (objs ! i)"
      using slots i len unfolding slots_ok_def by (metis nth_map)
    have k: "load_keys ! i \<in> set (writes_of ?task)" using i len by simp
    show ?thesis unfolding rs
      by (rule sim_poke [OF sim inv run k ob bs]) (use slots in \<open>auto simp: slots_ok_def objs_of_def\<close>)
  qed
  show ?thesis
  proof (cases ch)
    case (Fill i bytes)
    show ?thesis
    proof (cases "i < length objs \<and> (\<exists>p. write_obj (objs ! i) bytes (allocator (st_l1 (shared c))) = Inr p)")
      case True
      then obtain p where i: "i < length objs"
        and p: "write_obj (objs ! i) bytes (allocator (st_l1 (shared c))) = Inr p" by blast
      show ?thesis by (rule slot [OF i write_obj_InrD [OF p]]) (use adv Fill i p in simp_all)
    next
      case False
      then show ?thesis
        by (intro quiet) (use adv Fill in \<open>auto split: if_splits sum.splits\<close>)
    qed
  next
    case (Fill_front i bytes)
    show ?thesis
    proof (cases "i < length objs")
      case True
      show ?thesis
        by (rule slot [OF True, of "take (mo_nbytes (objs ! i)) bytes"])
          (use adv Fill_front True in \<open>auto simp: readinto_def Let_def\<close>)
    qed (use quiet adv Fill_front in auto)
  qed (use quiet adv in auto)
qed

lemma sim_advance:
  assumes sim: "sim c y" and inv: "proto_inv y" and run: "running c t = Some task"
    and adv: "advance ch task (shared c) = (r, s)"
  shows "follows t (leaks ch task (shared c)) c (after_step t task r s c) y"
proof -
  note d = simD [OF sim run]
  note quiet = sim_quiet [OF sim, of s r task t, OF _ _ _ _ _ run, of "leaks ch task (shared c)"]
  show ?thesis
  proof (cases task)
    case (Reject x)
    show ?thesis by (rule quiet) (use adv d Reject in auto)
  next
    case (Lookup_start rid keys n)
    show ?thesis by (rule quiet) (use adv d Lookup_start in \<open>auto simp: owns_def storage_ok_def held_of_def\<close>)
  next
    case (Lookup_put rid keys n)
    show ?thesis by (rule quiet) (use adv d Lookup_put in \<open>auto simp: owns_def storage_ok_def held_of_def\<close>)
  next
    case (Store_reserve keys n chunks)
    then show ?thesis using sim_store_reserve [OF sim inv] run adv by blast
  next
    case (Store_write plan written)
    then show ?thesis using sim_store_finish [OF sim inv] sim_write [OF sim inv] run adv
      by (cases plan) (simp, metis prod.collapse)
  next
    case (Retrieve_read rid keys world_size)
    have "x = KeyError" if "read keys l = Inl x" for x l
      using that unfolding read_def by (induction keys) (auto split: option.splits sum.splits)
    then show ?thesis by (intro quiet) (use adv d Retrieve_read in \<open>auto simp: owns_def split: sum.splits if_splits\<close>)
  next
    case (Retrieve_send rid keys objs)
    show ?thesis by (rule quiet; cases objs) (use adv d Retrieve_send in \<open>auto simp: owns_def\<close>)
  next
    case (Retrieve_promote rid keys)
    then show ?thesis using sim_promote [OF sim inv] run adv by blast
  next
    case (Free_first rid count)
    show ?thesis by (rule quiet) (use adv d Free_first in \<open>auto simp: owns_def\<close>)
  next
    case (Release rid keys ending)
    then show ?thesis using sim_release [OF sim] run adv by blast
  next
    case (Release_finish ks nxt)
    with run have run': "running c t = Some (Release_finish ks nxt)" by simp
    show ?thesis unfolding Release_finish
      by (rule sim_finish_read [OF sim inv run']) (use adv d Release_finish in auto)
  next
    case (End_pop rid)
    show ?thesis by (rule quiet) (use adv d End_pop in \<open>auto simp: leaks_def owns_def storage_ok_def held_of_def\<close>)
  next
    case Prefetch_get
    show ?thesis by (rule quiet; cases "st_jobs (shared c)")
        (use adv d Prefetch_get in \<open>auto simp: owns_def storage_ok_def held_of_def\<close>)
  next
    case (Prefetch_prefix rid keys n)
    then show ?thesis using sim_prefix [OF sim inv] run adv by blast
  next
    case (Prefetch_lookup rid l1_keys missing n)
    show ?thesis by (rule quiet; cases ch) (use adv d Prefetch_lookup in \<open>auto simp: leaks_def owns_def slots_ok_def\<close>)
  next
    case (Prefetch_reserve rid l1_keys ks n load_keys objs)
    show ?thesis
    proof (cases ks)
      case Nil
      show ?thesis by (rule quiet) (use adv d Prefetch_reserve Nil in \<open>auto simp: owns_def\<close>)
    next
      case (Cons k ks')
      then show ?thesis using sim_load_reserve [OF sim inv] run adv Prefetch_reserve by blast
    qed
  next
    case (Prefetch_load rid l1_keys n load_keys objs)
    then show ?thesis using sim_load [OF sim inv] run adv by blast
  next
    case (Prefetch_unlock rid l1_keys load_keys loaded gbps)
    then show ?thesis using sim_unlock [OF sim inv] run adv by blast
  next
    case (Prefetch_delete rid l1_keys load_keys loaded gbps)
    then show ?thesis using sim_delete_own [OF sim inv] run adv by blast
  next
    case (Prefetch_resolve rid l1_keys loaded_keys gbps)
    then show ?thesis using sim_resolve [OF sim] sim_resolve_raises [OF sim] run adv by (cases gbps) blast+
  next
    case Back_get
    then show ?thesis using sim_back_get [OF sim inv] run adv by blast
  next
    case (Back_reserve keys)
    then show ?thesis using sim_back_reserve [OF sim inv] run adv by blast
  next
    case (Back_store ks)
    show ?thesis by (rule quiet; cases ch) (use adv d Back_store in \<open>auto simp: leaks_def owns_def\<close>)
  next
    case (Back_finish ks)
    with run have run': "running c t = Some (Back_finish ks)" by simp
    show ?thesis unfolding Back_finish
      by (rule sim_finish_read [OF sim inv run']) (use adv d Back_finish in auto)
  next
    case Evict_pick
    show ?thesis by (rule quiet; cases ch) (use adv d Evict_pick in \<open>auto simp: owns_def split: if_splits\<close>)
  next
    case (Evict_delete keys)
    then show ?thesis using sim_delete [OF sim inv] run adv by blast
  qed
qed

lemma starts_empty: "starts task \<Longrightarrow> reads_of task = [] \<and> writes_of task = [] \<and> task_ok task l"
  by (cases task) auto

lemma sim_step:
  assumes sim: "sim c y" and inv: "proto_inv y" and step: "thread_step c c'"
  shows "\<exists>y'. matched y y' \<and> sim c' y' \<and> surplus_kept c y c' y'"
  using step
proof cases
  case (spawn t task)
  then have "sim c' y" using sim starts_empty [OF spawn(3)] by (auto simp: sim_def owns_def split: if_splits)
  moreover have "surplus_kept c y c' y" using spawn(1) by (simp add: surplus_kept_def)
  ultimately show ?thesis using matched_refl by blast
next
  case (advance t ch)
  then obtain task where run: "running c t = Some task" by blast
  obtain r s where adv: "advance ch task (shared c) = (r, s)" by fastforce
  have "c' = after_step t task r s c" using advance(1) run adv by (simp add: run_thread_def after_step_def)
  with sim_advance [OF sim inv run adv] show ?thesis by (auto simp: follows_def)
qed

lemma sim_run:
  "thread_step\<^sup>*\<^sup>* c c' \<Longrightarrow> sim c y \<Longrightarrow> proto_inv y \<Longrightarrow> \<exists>y'. proto_step\<^sup>*\<^sup>* y y' \<and> sim c' y'"
proof (induction rule: rtranclp_induct)
  case base
  then show ?case by blast
next
  case (step c1 c2)
  then obtain y1 where y1: "proto_step\<^sup>*\<^sup>* y y1" "sim c1 y1" by blast
  from sim_step [OF y1(2) proto_steps_inv [OF y1(1) step.prems(2)] step.hyps(2)] y1(1) show ?case
    unfolding matched_def by (meson rtranclp_trans)
qed

subsection \<open>The server from its start\<close>

definition started :: "byte list \<Rightarrow> adapter list \<Rightarrow> threads" where
  "started m l2s = init_threads (StorageManager m l2s)"

definition quiet_locks :: "byte list \<Rightarrow> adapter list \<Rightarrow> lock_sys" where
  "quiet_locks m l2s = init_sys m (listeners (st_l1 (StorageManager m l2s)))"

lemma sim_started: "sim (started m l2s) (quiet_locks m l2s)"
  by (auto simp: sim_def started_def quiet_locks_def init_threads_def init_sys_def StorageManager_def Let_def
      register_listener_def storage_ok_def held_of_def owns_def)

lemma sim_reachable:
  assumes "thread_step\<^sup>*\<^sup>* (started m l2s) c"
  shows "\<exists>y. proto_step\<^sup>*\<^sup>* (quiet_locks m l2s) y \<and> sim c y"
proof -
  have "proto_inv (quiet_locks m l2s)" unfolding quiet_locks_def by (rule proto_inv_init)
  from sim_run [OF assms sim_started this] show ?thesis .
qed

text \<open>Without a step that leaks, all locks are accounted for.\<close>

lemma clean_is_step: "clean_step c c' \<Longrightarrow> thread_step c c'"
  by (induction rule: clean_step.induct) (auto intro: thread_step.intros)

lemma clean_follows:
  assumes sim: "sim c y" and inv: "proto_inv y" and tight: "tight c y" and step: "clean_step c c'"
  shows "\<exists>y'. matched y y' \<and> sim c' y' \<and> tight c' y'"
  using step
proof cases
  case (clean_spawn t task)
  then have "sim c' y" using sim starts_empty [OF clean_spawn(3)] by (auto simp: sim_def owns_def split: if_splits)
  moreover have "reads_at (running c' t') = reads_at (running c t') \<and> writes_at (running c' t') = writes_at (running c t')" for t'
    using starts_empty [OF clean_spawn(3)] clean_spawn(1,2) by (cases "t' = t") simp_all
  then have "tight c' y" using tight clean_spawn(1) by (simp add: tight_def)
  ultimately show ?thesis using matched_refl by blast
next
  case (clean_advance t task ch)
  obtain r s where adv: "advance ch task (shared c) = (r, s)" by fastforce
  have "c' = after_step t task r s c" using clean_advance(1,2) adv by (simp add: run_thread_def after_step_def)
  with sim_advance [OF sim inv clean_advance(2) adv] tight clean_advance(3) show ?thesis by (auto simp: follows_def)
qed

lemma tight_started: "tight (started m l2s) (quiet_locks m l2s)"
  by (auto simp: tight_def started_def quiet_locks_def init_threads_def init_sys_def)

lemma clean_reachable:
  "clean_step\<^sup>*\<^sup>* (started m l2s) c \<Longrightarrow> \<exists>y. proto_inv y \<and> sim c y \<and> tight c y"
proof (induction rule: rtranclp_induct)
  case base
  have "proto_inv (quiet_locks m l2s)" unfolding quiet_locks_def by (rule proto_inv_init)
  with sim_started tight_started show ?case by blast
next
  case (step c1 c2)
  then obtain y where y: "proto_inv y" "sim c1 y" "tight c1 y" by blast
  from clean_follows [OF y(2,1,3) step.hyps(2)] obtain y' where y': "matched y y'" "sim c2 y'" "tight c2 y'" by blast
  with proto_steps_inv [OF _ y(1)] show ?case unfolding matched_def by blast
qed

text \<open>Runs during which the session \<open>rid\<close> keeps its hold on \<open>k\<close>.\<close>

definition keeping_step :: "string \<Rightarrow> chunk_key \<Rightarrow> threads \<Rightarrow> threads \<Rightarrow> bool" where
  "keeping_step rid k c c' \<longleftrightarrow> thread_step c c' \<and> k \<in> set (held_of rid (shared c'))"

lemma held_counts:
  assumes "sim c y" and "k \<in> set (held_of rid (shared c))"
  shows "0 < hold_count (sy_holds y) k"
proof -
  have "count_list (held_of rid (shared c)) k \<noteq> 0" using assms(2) by (simp add: count_list_0_iff)
  moreover have "holds_of (Session rid) (held_of rid (shared c)) \<subseteq># sy_holds y"
    using owns_held [OF assms(1)] by (simp add: owns_def)
  from hold_count_mono [OF this, of k] have "count_list (held_of rid (shared c)) k \<le> hold_count (sy_holds y) k" by simp
  ultimately show ?thesis by simp
qed

lemma kept_bytes:
  "(keeping_step rid k)\<^sup>*\<^sup>* c c' \<Longrightarrow> sim c y \<Longrightarrow> proto_inv y \<Longrightarrow> k \<in> set (held_of rid (shared c)) \<Longrightarrow>
   \<exists>y' ob. sim c' y' \<and> proto_inv y' \<and> k \<in> set (held_of rid (shared c'))
     \<and> objs_of (st_l1 (shared c)) k = Some ob \<and> objs_of (st_l1 (shared c')) k = Some ob
     \<and> read_obj (allocator (st_l1 (shared c'))) ob = read_obj (allocator (st_l1 (shared c))) ob"
proof (induction rule: rtranclp_induct)
  case base
  from held_entry [OF base(2) held_counts [OF base(1,3)]] base show ?case by (auto simp: sim_def objs_of_def)
next
  case (step c1 c2)
  then obtain y1 ob where y1: "sim c1 y1" "proto_inv y1" "k \<in> set (held_of rid (shared c1))"
    and ob: "objs_of (st_l1 (shared c)) k = Some ob" "objs_of (st_l1 (shared c1)) k = Some ob"
      "read_obj (allocator (st_l1 (shared c1))) ob = read_obj (allocator (st_l1 (shared c))) ob" by blast
  have st: "thread_step c1 c2" and k2: "k \<in> set (held_of rid (shared c2))"
    using step.hyps(2) by (simp_all add: keeping_step_def)
  from sim_step [OF y1(1,2) st] obtain y2 where y2: "matched y1 y2" "sim c2 y2" by blast
  have "(holding_step k)\<^sup>*\<^sup>* y1 y2"
    using y2 held_counts [OF y1(1,3)] held_counts [OF y2(2) k2] by (simp add: matched_def)
  from holding_steps_keep [OF this y1(2) held_counts [OF y1(1,3)]] ob y1(1) y2(2) k2 show ?case
    by (auto simp: sim_def)
qed

subsection \<open>Holds that are lost\<close>

lemma counted_held: "0 < count H (p, k) \<Longrightarrow> 0 < hold_count H k"
  by (metis count_greater_zero_iff hold_count_pos)

lemma surplus_for_ever:
  "thread_step\<^sup>*\<^sup>* c c' \<Longrightarrow> sim c y \<Longrightarrow> proto_inv y \<Longrightarrow>
   count_list (held_of rid (shared c)) k < count (sy_holds y) (Session rid, k) \<Longrightarrow>
   \<exists>y' ob. sim c' y' \<and> proto_inv y' \<and> count_list (held_of rid (shared c')) k < count (sy_holds y') (Session rid, k)
     \<and> objs_of (st_l1 (shared c)) k = Some ob \<and> objs_of (st_l1 (shared c')) k = Some ob
     \<and> read_obj (allocator (st_l1 (shared c'))) ob = read_obj (allocator (st_l1 (shared c))) ob"
proof (induction rule: rtranclp_induct)
  case base
  have "0 < count (sy_holds y) (Session rid, k)" using base(3) by linarith
  then have "0 < hold_count (sy_holds y) k" by (rule counted_held)
  from held_entry [OF base(2) this] base show ?case by (auto simp: sim_def objs_of_def)
next
  case (step c1 c2)
  then obtain y1 ob where y1: "sim c1 y1" "proto_inv y1"
      "count_list (held_of rid (shared c1)) k < count (sy_holds y1) (Session rid, k)"
    and ob: "objs_of (st_l1 (shared c)) k = Some ob" "objs_of (st_l1 (shared c1)) k = Some ob"
      "read_obj (allocator (st_l1 (shared c1))) ob = read_obj (allocator (st_l1 (shared c))) ob" by blast
  from sim_step [OF y1(1,2) step.hyps(2)] obtain y2 where
    y2: "matched y1 y2" "sim c2 y2" "surplus_kept c1 y1 c2 y2" by blast
  have "count_list (held_of rid (shared c1)) k + 1 \<le> count (sy_holds y1) (Session rid, k)" using y1(3) by simp
  with y2(3) have more: "count_list (held_of rid (shared c2)) k + 1 \<le> count (sy_holds y2) (Session rid, k)"
    unfolding surplus_kept_def by blast
  have "0 < count (sy_holds y1) (Session rid, k)" "0 < count (sy_holds y2) (Session rid, k)"
    using y1(3) more by linarith+
  note held = counted_held [OF this(1)] counted_held [OF this(2)]
  have "(holding_step k)\<^sup>*\<^sup>* y1 y2" using y2(1) held by (simp add: matched_def)
  from holding_steps_keep [OF this y1(2) held(1)] ob y1(1) y2(2) more show ?case
    by (auto simp: sim_def Suc_le_eq)
qed

text \<open>The end of \<open>end_session\<close> forgets what the session lists; the holds are not given back.\<close>

lemma end_pop_orphans:
  assumes sim: "sim c y" and run: "running c t = Some (End_pop rid)"
  shows "sim (run_thread t ch c) y" and "held_of rid (shared (run_thread t ch c)) = []"
    and "st_hits (shared (run_thread t ch c)) rid = None"
proof -
  let ?s = "(shared c)\<lparr>st_hits := (st_hits (shared c))(rid := None), st_held := (st_held (shared c))(rid := None)\<rparr>"
  have r: "run_thread t ch c = after_step t (End_pop rid) (Inr None) ?s c"
    using run by (simp add: run_thread_def after_step_def)
  have held: "held_of q ?s = (if q = rid then [] else held_of q (shared c))" for q by (simp add: held_of_def)
  have "owns y (Session q) (held_of q ?s) []" for q
    using owns_held [OF sim, of q] unfolding held by (simp add: owns_def)
  moreover have "storage_ok ?s" using simD [OF sim run] unfolding storage_ok_def held by simp
  ultimately show "sim (run_thread t ch c) y"
    unfolding r by (intro sim_after [OF sim undisturbed_refl [of "{}"]]) (use simD [OF sim run] in auto)
  show "held_of rid (shared (run_thread t ch c)) = []" "st_hits (shared (run_thread t ch c)) rid = None"
    unfolding r by (simp_all add: held_of_def)
qed

lemma run_thread_steps: "thread_step\<^sup>*\<^sup>* c (run_thread t ch c)"
proof (cases "running c t")
  case None
  then show ?thesis by (simp add: run_thread_def)
next
  case (Some task)
  then have "thread_step c (run_thread t ch c)" by (intro thread_step.advance) simp
  then show ?thesis by blast
qed

text \<open>What the thread of END_SESSION and the prefetch worker do when the lookup is published in between.\<close>

lemma race_orphans:
  assumes sim: "sim c y" and inv: "proto_inv y"
    and ending: "running c t = Some (Release_finish ks (Some (End_pop rid)))"
    and resolving: "running c t0 = Some (Prefetch_resolve rid l1_keys loaded_keys (Inr g))"
    and hits: "st_hits (shared c) rid \<noteq> None" and k: "k \<in> set (l1_keys @ loaded_keys)"
    and d: "d = run_thread t Go (run_thread t Go (run_thread t0 Go c))"
  shows "\<exists>y'. sim d y' \<and> proto_inv y' \<and> held_of rid (shared d) = [] \<and> st_hits (shared d) rid = None
    \<and> 0 < count (sy_holds y') (Session rid, k)"
proof -
  define c1 where "c1 = run_thread t0 Go c"
  define c2 where "c2 = run_thread t Go c1"
  have "t \<noteq> t0" using ending resolving by auto
  have c1: "running c1 t = Some (Release_finish ks (Some (End_pop rid)))" "k \<in> set (held_of rid (shared c1))"
    using ending resolving hits k \<open>t \<noteq> t0\<close> by (auto simp: c1_def run_thread_def publish_def held_of_def)
  have path: "thread_step\<^sup>*\<^sup>* c c1" "thread_step\<^sup>*\<^sup>* c1 c2" using run_thread_steps by (simp_all add: c1_def c2_def)
  from sim_run [OF path(1) sim inv] obtain y1 where y1: "proto_step\<^sup>*\<^sup>* y y1" "sim c1 y1" by blast
  have inv1: "proto_inv y1" by (rule proto_steps_inv [OF y1(1) inv])
  note own = simD(2) [OF y1(2) c1(1)] and i = proto_invD [OF inv1]
  from finish_read_ok [OF i(1) parties_holds_all [OF i(2) own]] simD(1) [OF y1(2) c1(1)] obtain l where
    "finish_read ks (st_l1 (shared c1)) = (Inr (), l)" by auto
  then have c2: "running c2 t = Some (End_pop rid)" "k \<in> set (held_of rid (shared c2))"
    using c1 by (simp_all add: c2_def run_thread_def with_l1_def)
  from sim_run [OF path(2) y1(2) inv1] obtain y2 where y2: "proto_step\<^sup>*\<^sup>* y1 y2" "sim c2 y2" by blast
  have inv2: "proto_inv y2" by (rule proto_steps_inv [OF y2(1) inv1])
  have "holds_of (Session rid) (held_of rid (shared c2)) \<subseteq># sy_holds y2"
    using owns_held [OF y2(2)] by (simp add: owns_def)
  then have "count_list (held_of rid (shared c2)) k \<le> count (sy_holds y2) (Session rid, k)"
    unfolding holds_of_subset_iff by blast
  moreover have "count_list (held_of rid (shared c2)) k \<noteq> 0" using c2(2) by (simp add: count_list_0_iff)
  ultimately have "0 < count (sy_holds y2) (Session rid, k)" by linarith
  then show ?thesis using end_pop_orphans [OF y2(2) c2(1), of Go] inv2 d by (auto simp: c1_def c2_def)
qed

end
