(* ===== verification/Server_Laws.thy ===== *)
theory Server_Laws
  imports Server Prefetch_Laws
begin

text \<open>
  What the handlers of the cache server promise: STORE puts the bytes into L1 and RETRIEVE sends
  them back, the answer of QUERY counts complete chunks, and the callback after a RETRIEVE turns
  the chunks into resident ones and gives the holds back.
\<close>

subsection \<open>Writing the blobs\<close>

lemma write_blobs_ok:
  "objs_ok p (map fst obs) \<Longrightarrow> \<forall>(ob, b) \<in> set obs. length b = mo_nbytes ob \<Longrightarrow>
   \<exists>p'. write_blobs obs p = (Inr (), p') \<and> only_objs (map fst obs) p p'
     \<and> (\<forall>(ob, b) \<in> set obs. read_obj p' ob = b)"
proof (induction obs arbitrary: p)
  case Nil
  then show ?case by simp
next
  case (Cons x obs)
  obtain ob b where x: "x = (ob, b)" by fastforce
  define p1 where "p1 = p\<lparr>pool_mem := write_seg (mo_offset ob) b (pool_mem p)\<rparr>"
  have len: "length b = mo_nbytes ob" and "obj_in p ob" using Cons.prems x by (simp_all add: objs_ok_def)
  note w = write_part [OF this(2), of b, folded p1_def]
  have oo: "only_objs [ob] p p1" and rd: "read_obj p1 ob = b" using w len by simp_all
  have "objs_ok p1 (map fst obs)"
    by (rule objs_ok_tail [of p ob]) (use Cons.prems(1) x oo in simp_all)
  from Cons.IH [OF this] Cons.prems(2) obtain p' where p': "write_blobs obs p1 = (Inr (), p')"
    "only_objs (map fst obs) p1 p'" "\<forall>(ob, b) \<in> set obs. read_obj p' ob = b" by auto
  have "read_obj p' ob = read_obj p1 ob"
    using Cons.prems(1) x by (intro only_objs_read [OF p'(2)]) (auto simp: objs_ok_def intro: apart_sym)
  moreover have "only_objs (map fst (x # obs)) p p'"
    using only_objs_mono [OF oo, of "map fst (x # obs)"] only_objs_mono [OF p'(2), of "map fst (x # obs)"] x
    by (auto intro: only_objs_trans)
  ultimately show ?case
    using p' rd len x by (intro exI [of _ p']) (simp add: write_obj_def p1_def)
qed

text \<open>The plan in closed form: the keys that got an object and have a chunk in the payload.\<close>

lemma store_plan_eq:
  "store_plan reserved chunks c keys =
    map (\<lambda>(k, j). (k, the (the (reserved k)), chunks ! j))
      (filter (\<lambda>(k, j). (\<exists>ob. reserved k = Some (Some ob)) \<and> j < length chunks)
        (zip keys [c..<c + length keys]))"
proof (induction keys arbitrary: c)
  case Nil
  then show ?case by simp
next
  case (Cons k keys)
  have z: "zip (k # keys) [c..<c + length (k # keys)] = (k, c) # zip keys [Suc c..<Suc c + length keys]"
    by (simp add: upt_conv_Cons del: upt_Suc)
  show ?case
  proof (cases "\<exists>ob. reserved k = Some (Some ob)")
    case True
    then show ?thesis using Cons.IH [of "Suc c"] unfolding z by auto
  next
    case False
    then have "store_plan reserved chunks c (k # keys) = store_plan reserved chunks (Suc c) keys"
      by (auto split: option.split)
    with False Cons.IH [of "Suc c"] show ?thesis unfolding z by simp
  qed
qed

lemma map_fst_filter: "map fst (filter (\<lambda>(k, j). P k) xs) = filter P (map fst xs)"
  by (induction xs) auto

subsection \<open>STORE\<close>

text \<open>
  The table after a store: new chunks are there, readable, resident and unheld, with the bytes of
  the payload; chunks that were there are untouched, bytes included, and so is everything else.
\<close>

definition stored :: "chunk_key list \<Rightarrow> byte list list \<Rightarrow> chunk_key l1 \<Rightarrow> chunk_key l1 \<Rightarrow> bool" where
  "stored keys chunks l l' \<longleftrightarrow> l1_inv {} l'
     \<and> (\<forall>i < length keys. entries l (keys ! i) = None \<longrightarrow>
          (\<exists>e. entries l' (keys ! i) = Some e \<and> \<not> write_locked e \<and> read_count e = 0 \<and> \<not> is_temporary e
             \<and> read_obj (allocator l') (en_obj e) = chunks ! i))
     \<and> (\<forall>k e. entries l k = Some e \<longrightarrow> entries l' k = Some e
          \<and> read_obj (allocator l') (en_obj e) = read_obj (allocator l) (en_obj e))
     \<and> (\<forall>k. k \<notin> set keys \<longrightarrow> entries l' k = entries l k)"

lemma store_run:
  assumes "sv_instances sv (tp_instance_id pl) = Some inst" and "op_keys H (tp_op pl) inst sv = Inr keys"
    and "reserve_write keys (ei_chunk_nbytes inst) False (st_l1 (sv_sm sv)) = (res, l1)"
    and "write_blobs (map snd (store_plan res (tp_chunks pl) 0 keys)) (allocator l1) = (Inr (), p)"
    and "finish_write (map fst (store_plan res (tp_chunks pl) 0 keys)) (set_pool p l1) = (Inr (), l2)"
  shows "store H pl sv = (Inr True, set_l1 l2 sv)"
  using assms by (simp add: store_def)

lemma store_ok:
  assumes inst: "sv_instances sv (tp_instance_id pl) = Some inst" and ok: "op_keys H (tp_op pl) inst sv = Inr keys"
    and dist: "distinct keys" and inv: "l1_inv {} (st_l1 (sv_sm sv))" and n: "0 < ei_chunk_nbytes inst"
    and room: "enough_room (length (missing_keys keys (st_l1 (sv_sm sv)))) (ei_chunk_nbytes inst)
      (allocator (st_l1 (sv_sm sv)))"
    and len: "length keys \<le> length (tp_chunks pl)"
    and sizes: "\<forall>c \<in> set (tp_chunks pl). length c = ei_chunk_nbytes inst"
  shows "\<exists>l'. store H pl sv = (Inr True, set_l1 l' sv) \<and> stored keys (tp_chunks pl) (st_l1 (sv_sm sv)) l'"
proof -
  let ?l = "st_l1 (sv_sm sv)" and ?n = "ei_chunk_nbytes inst" and ?ch = "tp_chunks pl"
  obtain res l1 where rw: "reserve_write keys ?n False ?l = (res, l1)" by fastforce
  note granted = reserve_write_granted [OF inv n room, of False]
  have inv1: "l1_inv {} l1" using reserve_write_inv(2) [OF inv n dist, of False] rw by simp
  let ?ms = "missing_keys keys ?l"
  from granted rw obtain objs a where
    l1: "l1 = ?l\<lparr>allocator := a, entries := reserved_entries False ?ms objs (entries ?l)\<rparr>"
    and lo: "length objs = length ?ms" and sz: "\<forall>ob \<in> set objs. mo_nbytes ob = ?n"
    and mem: "pool_mem a = pool_mem (allocator ?l)"
    and res: "res = (\<lambda>k. case map_of (rev (zip ?ms objs)) k of
                   None \<Rightarrow> fromkeys_none keys k | Some ob \<Rightarrow> Some (Some ob))"
    by auto
  have new: "\<exists>ob. res k = Some (Some ob) \<and> entries l1 k = Some (Entry ob True False) \<and> mo_nbytes ob = ?n"
    if k: "k \<in> set keys" "entries ?l k = None" for k
  proof -
    have "k \<in> dom (map_of (rev (zip ?ms objs)))" using k lo by simp
    then obtain ob where ob: "map_of (rev (zip ?ms objs)) k = Some ob" by blast
    then have "ob \<in> set objs" by (auto dest!: map_of_SomeD set_zip_rightD)
    with ob sz show ?thesis by (simp add: res l1 reserved_entries_def)
  qed
  have old: "\<not> (\<exists>ob. res k = Some (Some ob)) \<and> entries l1 k = entries ?l k"
    if k: "\<not> (k \<in> set keys \<and> entries ?l k = None)" for k
  proof -
    have "k \<notin> dom (map_of (rev (zip ?ms objs)))" using k lo by simp
    then have "map_of (rev (zip ?ms objs)) k = None" by blast
    then show ?thesis by (simp add: res l1 reserved_entries_def fromkeys_none_def)
  qed
  define ps where "ps = filter (\<lambda>(k, j). entries ?l k = None) (zip keys [0..<length keys])"
  have plan: "store_plan res ?ch 0 keys = map (\<lambda>(k, j). (k, the (the (res k)), ?ch ! j)) ps"
    unfolding store_plan_eq ps_def
    by (intro arg_cong [where f = "map _"] filter_cong)
      (use new old len in \<open>fastforce dest: set_zip_leftD set_zip_rightD\<close>)+
  define ws where "ws = map fst ps"
  have ws: "set ws = {k \<in> set keys. entries ?l k = None}" "distinct ws"
  proof -
    have "ws = filter (\<lambda>k. entries ?l k = None) (map fst (zip keys [0..<length keys]))"
      unfolding ws_def ps_def by (rule map_fst_filter)
    then have "ws = filter (\<lambda>k. entries ?l k = None) keys" by simp
    with dist show "set ws = {k \<in> set keys. entries ?l k = None}" "distinct ws" by auto
  qed
  have psD: "j < length keys \<and> keys ! j = k \<and> entries ?l k = None" if "(k, j) \<in> set ps" for k j
    using that by (auto simp: ps_def set_zip)
  have psI: "(keys ! j, j) \<in> set ps" if "j < length keys" "entries ?l (keys ! j) = None" for j
    using that by (force simp: ps_def set_zip)
  let ?plan = "store_plan res ?ch 0 keys"
  have fst_plan: "map fst ?plan = ws" by (simp add: plan ws_def case_prod_beta comp_def)
  define obs where "obs = map snd ?plan"
  have obs: "map fst obs = map (\<lambda>k. the (the (res k))) ws"
    by (simp add: obs_def plan ws_def case_prod_beta comp_def)
  have "map (objs_of l1) ws = map Some (map fst obs)"
    unfolding obs using new ws(1) by (fastforce simp: objs_of_def Entry_def)
  from l1_objs_ok [OF inv1 ws(2) this] have ook: "objs_ok (allocator l1) (map fst obs)" .
  have "\<forall>(ob, b) \<in> set obs. length b = mo_nbytes ob"
  proof (clarsimp simp: obs_def plan)
    fix k j assume "(k, j) \<in> set ps"
    from psD [OF this] new [of k] len sizes show "length (?ch ! j) = mo_nbytes (the (the (res k)))" by fastforce
  qed
  from write_blobs_ok [OF ook this] obtain p where wb: "write_blobs obs (allocator l1) = (Inr (), p)"
    and oo: "only_objs (map fst obs) (allocator l1) p" and rd: "\<forall>(ob, b) \<in> set obs. read_obj p ob = b" by blast
  have inv2: "l1_inv {} (set_pool p l1)" using inv1 l1_inv_set_pool [OF oo] by simp
  obtain r l2 where fw: "finish_write ws (set_pool p l1) = (r, l2)" by fastforce
  have "set ws \<subseteq> dom (entries (set_pool p l1))" using new ws(1) by fastforce
  note fin = finish_write_ok [OF this fw] and frame = finish_write_frame [OF fw]
  have inv3: "l1_inv {} l2" using l1_inv_finish_write [OF inv2, of ws] fw by simp
  have run: "store H pl sv = (Inr True, set_l1 l2 sv)"
  proof (rule store_run [OF inst ok rw])
    show "write_blobs (map snd ?plan) (allocator l1) = (Inr (), p)" using wb by (simp only: obs_def)
    show "finish_write (map fst ?plan) (set_pool p l1) = (Inr (), l2)" unfolding fst_plan fw fin(1) ..
  qed
  have al: "allocator l2 = p" using frame by simp
  have A: "\<exists>e. entries l2 (keys ! i) = Some e \<and> \<not> write_locked e \<and> read_count e = 0 \<and> \<not> is_temporary e
             \<and> read_obj (allocator l2) (en_obj e) = ?ch ! i"
    if i: "i < length keys" "entries ?l (keys ! i) = None" for i
  proof -
    have k: "keys ! i \<in> set keys" using i(1) by simp
    from new [OF k i(2)] obtain ob where ob: "res (keys ! i) = Some (Some ob)"
      "entries l1 (keys ! i) = Some (Entry ob True False)" by blast
    have "(ob, ?ch ! i) \<in> set obs"
    proof -
      have "(\<lambda>(k, j). (the (the (res k)), ?ch ! j)) (keys ! i, i) \<in> (\<lambda>(k, j). (the (the (res k)), ?ch ! j)) ` set ps"
        by (rule imageI) (rule psI [OF i])
      then show ?thesis using ob(1) unfolding obs_def plan by (simp add: image_image case_prod_beta)
    qed
    from bspec [OF rd this] have rdi: "read_obj p ob = ?ch ! i" by simp
    have kw: "keys ! i \<in> set ws" unfolding ws(1) using k i(2) by blast
    have "entries l2 (keys ! i) = Some (unlocked_entry False (count_list ws (keys ! i)) (Entry ob True False))"
      unfolding fin(2) set_pool_sel if_P [OF kw] ob(2) by simp
    then show ?thesis unfolding al using rdi by (simp add: unlocked_entry_def Entry_def)
  qed
  have B: "entries l2 k = entries ?l k" if k: "k \<notin> set ws" for k
  proof -
    have "\<not> (k \<in> set keys \<and> entries ?l k = None)" using k unfolding ws(1) by blast
    with old [of k] show ?thesis unfolding fin(2) set_pool_sel if_not_P [OF k] by blast
  qed
  have C: "read_obj (allocator l2) (en_obj e) = read_obj (allocator ?l) (en_obj e)" if e: "entries ?l k = Some e" for k e
  proof -
    have k1: "entries l1 k = Some e" using old [of k] e by simp
    have "apart ob (en_obj e)" if "ob \<in> set (map fst obs)" for ob
    proof -
      from that obtain w where w: "w \<in> set ws" "ob = the (the (res w))" unfolding obs by auto
      have wk: "w \<in> set keys" "entries ?l w = None" using w(1) unfolding ws(1) by simp_all
      from new [OF wk] obtain ob' where ob': "res w = Some (Some ob')" "entries l1 w = Some (Entry ob' True False)"
        by blast
      have "w \<noteq> k" using wk(2) e by auto
      with l1_inv_disjoint [OF inv1 ob'(2) k1] show ?thesis
        using w(2) ob'(1) by (simp add: apart_def Entry_def)
    qed
    from only_objs_read [OF oo this] have "read_obj p (en_obj e) = read_obj (allocator l1) (en_obj e)" .
    also have "\<dots> = read_obj (allocator ?l) (en_obj e)" using mem by (intro read_obj_cong) (simp add: l1)
    finally show ?thesis by (simp add: al)
  qed
  have "stored keys ?ch ?l l2"
    unfolding stored_def using inv3 A B C ws(1) by auto
  with run show ?thesis by blast
qed

end
