(* ===== verification/Server_Sessions.thy ===== *)
theory Server_Sessions
  imports Server_Laws
begin

text \<open>
  The handlers of the cache server put together: what RETRIEVE sends after a STORE, what QUERY
  answers after a LOOKUP and one turn of the prefetch thread, what RETRIEVE finds within that
  answer, and what the callback after the transfer leaves behind.
\<close>

subsection \<open>STORE, then RETRIEVE\<close>

text \<open>The bytes L1 has for a key.\<close>

definition l1_bytes :: "server \<Rightarrow> chunk_key \<Rightarrow> byte list option" where
  "l1_bytes sv k =
     map_option (read_obj (allocator (st_l1 (sv_sm sv)))) (objs_of (st_l1 (sv_sm sv)) k)"

lemma set_l1_sel [simp]:
  "sv_instances (set_l1 l sv) = sv_instances sv" "sv_chunk_size (set_l1 l sv) = sv_chunk_size sv"
  "st_l1 (sv_sm (set_l1 l sv)) = l"
  by (simp_all add: set_l1_def)

lemma op_keys_cong: "sv_chunk_size sv' = sv_chunk_size sv \<Longrightarrow> op_keys H op inst sv' = op_keys H op inst sv"
  by (simp only: op_keys_def)

text \<open>A retrieve of keys that are all there sends their bytes.\<close>

lemma retrieve_found:
  assumes "sv_instances sv (tp_instance_id pl) = Some inst" and "op_keys H (tp_op pl) inst sv = Inr keys"
    and "ei_world_size inst \<noteq> 0" and "\<forall>k \<in> set keys. \<exists>bs. l1_bytes sv k = Some bs"
  shows "\<exists>objs. retrieve H pl sv = Inr (objs, keys)
    \<and> sent_chunks objs sv = map (\<lambda>k. the (l1_bytes sv k)) keys"
proof -
  let ?l = "st_l1 (sv_sm sv)"
  have dom: "set keys \<subseteq> dom (entries ?l)"
    using assms(4) by (force simp: l1_bytes_def objs_of_def)
  then have "read keys ?l = Inr (map (\<lambda>k. the (objs_of ?l k)) keys)" by (simp add: read_eq)
  with assms(1-3) have "retrieve H pl sv = Inr (map (\<lambda>k. the (objs_of ?l k)) keys, keys)"
    by (simp add: retrieve_def)
  moreover have "sent_chunks (map (\<lambda>k. the (objs_of ?l k)) keys) sv = map (\<lambda>k. the (l1_bytes sv k)) keys"
    using dom by (auto simp: sent_chunks_def l1_bytes_def objs_of_def)
  ultimately show ?thesis by blast
qed

lemma stored_bytes:
  assumes st: "stored keys chunks (st_l1 (sv_sm sv)) l'" and i: "i < length keys"
  shows "l1_bytes (set_l1 l' sv) (keys ! i) =
    Some (case l1_bytes sv (keys ! i) of None \<Rightarrow> chunks ! i | Some bs \<Rightarrow> bs)"
proof (cases "entries (st_l1 (sv_sm sv)) (keys ! i)")
  case None
  with st i have "\<exists>e. entries l' (keys ! i) = Some e \<and> read_obj (allocator l') (en_obj e) = chunks ! i"
    unfolding stored_def by blast
  with None show ?thesis by (auto simp: l1_bytes_def objs_of_def)
next
  case (Some e)
  with st have "entries l' (keys ! i) = Some e
      \<and> read_obj (allocator l') (en_obj e) = read_obj (allocator (st_l1 (sv_sm sv))) (en_obj e)"
    unfolding stored_def by blast
  with Some show ?thesis by (simp add: l1_bytes_def objs_of_def)
qed

subsection \<open>LOOKUP and one turn of the prefetch thread\<close>

lemma length_keys_for: "length (keys_for hs m rs) = length hs * length rs"
  unfolding keys_for_def by (subst length_concat_uniform [where n = "length rs"]) auto

lemma keys_for_nth:
  "j < length hs \<Longrightarrow> r < ws \<Longrightarrow> keys_for hs m (ranks_upto ws) ! (j * ws + r) = ChunkKey (hs ! j) m (int r)"
  unfolding keys_for_def
  by (subst concat_nth_uniform [where n = ws]) (auto simp: ranks_upto_def)

lemma lookup_then_turn:
  assumes "sv_deployments sv (lp_model pl, lp_world_size pl) = Some n"
    and "chunk_hashes H (lp_token_ids pl) (sv_chunk_size sv) = Inr hs"
    and "st_jobs (sv_sm sv) = []" and "lookup H pl sv = (r, sv1)"
    and "prefetch_turn dt (sv_sm sv1) = Some (r', sm2)"
  shows "r = Inr True \<and> prefetch dt (lp_request_id pl)
      (keys_for hs (lp_model pl) (ranks_upto (lp_world_size pl))) (Some n)
      ((sv_sm sv)\<lparr>st_hits := (st_hits (sv_sm sv))(lp_request_id pl \<mapsto> None), st_jobs := []\<rparr>) = (r', sm2)
    \<and> sv_chunk_size sv1 = sv_chunk_size sv \<and> sv_instances sv1 = sv_instances sv"
  using assms by (auto simp: lookup_def start_session_def prefetch_turn_def)

text \<open>The hits of a session, and the chunks all of whose ranks are among them.\<close>

lemma hits_are_chunks:
  assumes "0 < ws" and "h \<le> length hs * ws" and keys: "keys = keys_for hs m (ranks_upto ws)"
    and "distinct keys" and "c = h div ws"
  shows "c \<le> length hs"
    and "j < c \<Longrightarrow> q < ws \<Longrightarrow> ChunkKey (hs ! j) m (int q) \<in> set (take h keys)"
    and "c < length hs \<Longrightarrow> \<exists>q < ws. ChunkKey (hs ! c) m (int q) \<notin> set (take h keys)"
proof -
  have c: "c * ws \<le> h" "h < Suc c * ws"
    using assms(1,5) by (simp_all add: dividend_less_div_times)
  show "c \<le> length hs" using assms(1,2,5) by (metis div_le_mono div_mult_self_is_m)
  have len: "length keys = length hs * ws" by (simp add: keys length_keys_for ranks_upto_def)
  show "ChunkKey (hs ! j) m (int q) \<in> set (take h keys)" if "j < c" "q < ws"
  proof -
    have "Suc j * ws \<le> c * ws" using that(1) by (intro mult_le_mono1) simp
    then have i: "j * ws + q < h" using that(2) c(1) by simp
    moreover have "j < length hs" using that(1) \<open>c \<le> length hs\<close> by simp
    ultimately have "take h keys ! (j * ws + q) = ChunkKey (hs ! j) m (int q)"
      using that(2) by (simp add: keys keys_for_nth)
    moreover have "j * ws + q < length (take h keys)" using i assms(2) len by simp
    ultimately show ?thesis by (metis nth_mem)
  qed
  show "\<exists>q < ws. ChunkKey (hs ! c) m (int q) \<notin> set (take h keys)" if "c < length hs"
  proof -
    define q where "q = ws - 1"
    have q: "q < ws" "h \<le> c * ws + q" using assms(1) c(2) by (auto simp: q_def)
    have "Suc c * ws \<le> length hs * ws" using that by (intro mult_le_mono1) simp
    then have "c * ws + q < length keys" using q(1) len by simp
    then have "keys ! (c * ws + q) \<notin> set (take h keys)"
      using assms(4) q(2) by (auto simp: in_set_conv_nth nth_eq_iff_index_eq)
    with q(1) that show ?thesis by (auto simp: keys keys_for_nth)
  qed
qed

lemma lookup_answer:
  assumes "sv_deployments sv (lp_model pl, lp_world_size pl) = Some n"
    and "chunk_hashes H (lp_token_ids pl) (sv_chunk_size sv) = Inr hs"
    and "st_jobs (sv_sm sv) = []" and "l1_inv {} (st_l1 (sv_sm sv))" and "0 < n"
    and keys: "keys = keys_for hs (lp_model pl) (ranks_upto (lp_world_size pl))" and "distinct keys"
    and "lookup H pl sv = (r, sv1)" and "prefetch_turn dt (sv_sm sv1) = Some (Inr (), sm2)"
  shows "\<exists>a b g. query (lp_request_id pl) sm2 = Some (a, b, g)
    \<and> held_of (lp_request_id pl) sm2 = take (a + b) keys \<and> a + b \<le> length keys
    \<and> looked_up (st_l2s (sv_sm sv)) n keys a b (st_l1 (sv_sm sv)) (st_l1 sm2)"
proof -
  let ?rid = "lp_request_id pl"
  define s where "s = (sv_sm sv)\<lparr>st_hits := (st_hits (sv_sm sv))(?rid \<mapsto> None), st_jobs := []\<rparr>"
  have run: "prefetch dt ?rid keys (Some n) s = (Inr (), sm2)"
    using lookup_then_turn [OF assms(1-3,8,9)] by (simp add: keys s_def)
  have "l1_inv {} (st_l1 s)" "st_hits s ?rid \<noteq> None" using assms(4) by (simp_all add: s_def)
  from prefetch_publishes [OF this(1) assms(7,5) this(2) run] show ?thesis
    by (auto simp: Let_def s_def held_of_def looked_up_def)
qed

text \<open>What a lookup holds is in L1 and open for reading.\<close>

lemma looked_up_held:
  assumes "looked_up l2s n keys a b l l'" and "at_rest l" and "k \<in> set (take (a + b) keys)"
  shows "\<exists>e. entries l' k = Some e \<and> \<not> write_locked e \<and> 1 \<le> read_count e"
proof -
  from assms(3) consider "k \<in> set (take a keys)" | "k \<in> set (take b (drop a keys))" by (auto simp: take_add)
  then show ?thesis
  proof cases
    case 1
    with assms(1) obtain e where "entries l k = Some e" "\<not> write_locked e" "entries l' k = Some (one_more e)"
      unfolding looked_up_def is_readable_iff by (metis option.simps(9))
    moreover from this(1) assms(2) have "0 \<le> read_count e" by (simp add: at_rest_def)
    ultimately show ?thesis by (simp add: one_more_def)
  next
    case 2
    with assms(1) show ?thesis by (fastforce simp: looked_up_def fetched_def)
  qed
qed

subsection \<open>Properties\<close>

text \<open>
  C9. What was stored is what is retrieved: after a STORE of whole chunks for which the pool has
  room, a RETRIEVE of the same range by the same engine sends, in order, the bytes of the
  payload for every chunk that was new and the bytes L1 already had for the others.
\<close>

theorem store_then_retrieve:
  assumes "sv_instances sv (tp_instance_id pl) = Some inst" and "op_keys H (tp_op pl) inst sv = Inr keys"
    and "distinct keys" and "l1_inv {} (st_l1 (sv_sm sv))" and "0 < ei_chunk_nbytes inst"
    and "enough_room (length (missing_keys keys (st_l1 (sv_sm sv)))) (ei_chunk_nbytes inst)
      (allocator (st_l1 (sv_sm sv)))"
    and "length keys \<le> length (tp_chunks pl)"
    and "\<forall>c \<in> set (tp_chunks pl). length c = ei_chunk_nbytes inst"
    and "tp_instance_id pl' = tp_instance_id pl" and "tp_op pl' = tp_op pl" and "ei_world_size inst \<noteq> 0"
  shows "\<exists>sv' objs. store H pl sv = (Inr True, sv') \<and> retrieve H pl' sv' = Inr (objs, keys)
    \<and> sent_chunks objs sv' = map (\<lambda>i. case l1_bytes sv (keys ! i) of
        None \<Rightarrow> tp_chunks pl ! i | Some bs \<Rightarrow> bs) [0..<length keys]"
proof -
  from store_ok [OF assms(1-8)] obtain l' where
    run: "store H pl sv = (Inr True, set_l1 l' sv)" and st: "stored keys (tp_chunks pl) (st_l1 (sv_sm sv)) l'"
    by blast
  let ?sv' = "set_l1 l' sv"
  have "sv_instances ?sv' (tp_instance_id pl') = Some inst" "op_keys H (tp_op pl') inst ?sv' = Inr keys"
    using assms(1,2,9,10) op_keys_cong [of ?sv' sv] by simp_all
  moreover have "\<forall>k \<in> set keys. \<exists>bs. l1_bytes ?sv' k = Some bs"
    using stored_bytes [OF st] by (auto simp: in_set_conv_nth)
  ultimately obtain objs where "retrieve H pl' ?sv' = Inr (objs, keys)"
    "sent_chunks objs ?sv' = map (\<lambda>k. the (l1_bytes ?sv' k)) keys"
    using retrieve_found [OF _ _ assms(11)] by blast
  moreover have "map (\<lambda>k. the (l1_bytes ?sv' k)) keys = map (\<lambda>i. case l1_bytes sv (keys ! i) of
      None \<Rightarrow> tp_chunks pl ! i | Some bs \<Rightarrow> bs) [0..<length keys]"
    by (rule nth_equalityI) (simp_all add: stored_bytes [OF st] cong: option.case_cong)
  ultimately show ?thesis using run by auto
qed

text \<open>
  C17. The answer to QUERY counts complete chunks: once the lookup ran, it is a whole number
  \<open>c\<close> of chunks of the prompt, the entries of every rank of these chunks are in L1, readable and held
  for the request, and of the next chunk some rank is not held.
\<close>

theorem query_counts_complete_chunks:
  assumes "sv_deployments sv (lp_model pl, lp_world_size pl) = Some n"
    and "chunk_hashes H (lp_token_ids pl) (sv_chunk_size sv) = Inr hs"
    and "st_jobs (sv_sm sv) = []" and "l1_inv {} (st_l1 (sv_sm sv))" and "at_rest (st_l1 (sv_sm sv))"
    and "0 < n" and "0 < lp_world_size pl"
    and "distinct (keys_for hs (lp_model pl) (ranks_upto (lp_world_size pl)))"
    and "lookup H pl sv = (r, sv1)" and "prefetch_turn dt (sv_sm sv1) = Some (Inr (), sm2)"
  shows "\<exists>c. server_query \<lparr>qp_request_id = lp_request_id pl, qp_world_size = lp_world_size pl\<rparr> (sv1\<lparr>sv_sm := sm2\<rparr>)
        = Inr (Some (c * sv_chunk_size sv))
    \<and> c * sv_chunk_size sv \<le> length (lp_token_ids pl)
    \<and> (\<forall>j < c. \<forall>q < lp_world_size pl. let k = ChunkKey (hs ! j) (lp_model pl) (int q) in
          is_readable (st_l1 sm2) k \<and> k \<in> set (held_of (lp_request_id pl) sm2))
    \<and> (c < length hs \<longrightarrow> (\<exists>q < lp_world_size pl.
          ChunkKey (hs ! c) (lp_model pl) (int q) \<notin> set (held_of (lp_request_id pl) sm2)))"
proof -
  let ?ws = "lp_world_size pl" and ?cs = "sv_chunk_size sv"
  define keys where "keys = keys_for hs (lp_model pl) (ranks_upto ?ws)"
  note dist = assms(8) [folded keys_def]
  from lookup_answer [OF assms(1-4,6) keys_def dist assms(9,10)] obtain a b g where
    q: "query (lp_request_id pl) sm2 = Some (a, b, g)" and h: "held_of (lp_request_id pl) sm2 = take (a + b) keys"
    and le: "a + b \<le> length keys"
    and lu: "looked_up (st_l2s (sv_sm sv)) n keys a b (st_l1 (sv_sm sv)) (st_l1 sm2)" by blast
  have le': "a + b \<le> length hs * ?ws" using le by (simp add: keys_def length_keys_for ranks_upto_def)
  note chunks = hits_are_chunks [OF assms(7) le' keys_def dist refl]
  have cs: "sv_chunk_size sv1 = ?cs" using lookup_then_turn [OF assms(1-3,9,10)] by simp
  have "(a + b) div ?ws * ?cs \<le> length (lp_token_ids pl) div ?cs * ?cs"
    using chunks(1) chunk_hashes_InrD(3) [OF assms(2)] by simp
  also have "\<dots> \<le> length (lp_token_ids pl)" by simp
  finally have "(a + b) div ?ws * ?cs \<le> length (lp_token_ids pl)" .
  moreover have "is_readable (st_l1 sm2) k" if "k \<in> set (take (a + b) keys)" for k
    using looked_up_held [OF lu assms(5) that] by (auto simp: is_readable_iff)
  ultimately show ?thesis
    using q h cs chunks assms(7)
    by (intro exI [of _ "(a + b) div ?ws"]) (auto simp: server_query_def Let_def query_def)
qed

text \<open>
  C10. What QUERY promised, RETRIEVE delivers: for a rank of the deployment and a range of the
  prompt inside the answer, the handler finds the chunk of every index in the range, each one
  held for the request and open for reading, and returns their objects.
\<close>

theorem retrieve_within_answer:
  assumes "sv_deployments sv (lp_model pl, lp_world_size pl) = Some n"
    and "chunk_hashes H (lp_token_ids pl) (sv_chunk_size sv) = Inr hs"
    and "st_jobs (sv_sm sv) = []" and "l1_inv {} (st_l1 (sv_sm sv))" and "at_rest (st_l1 (sv_sm sv))"
    and "0 < n" and "distinct (keys_for hs (lp_model pl) (ranks_upto (lp_world_size pl)))"
    and "lookup H pl sv = (r, sv1)" and "prefetch_turn dt (sv_sm sv1) = Some (Inr (), sm2)"
    and "server_query \<lparr>qp_request_id = lp_request_id pl, qp_world_size = lp_world_size pl\<rparr> (sv1\<lparr>sv_sm := sm2\<rparr>)
      = Inr (Some t)"
    and "sv_instances sv (tp_instance_id tp) = Some inst" and "ei_model inst = lp_model pl"
    and "ei_world_size inst = lp_world_size pl" and "ei_rank inst = int q" and "q < lp_world_size pl"
    and "op_end (tp_op tp) \<le> t"
    and "take (op_end (tp_op tp)) (op_token_ids (tp_op tp)) = take (op_end (tp_op tp)) (lp_token_ids pl)"
  shows "\<exists>objs keys. retrieve H tp (sv1\<lparr>sv_sm := sm2\<rparr>) = Inr (objs, keys)
    \<and> keys = map (\<lambda>j. ChunkKey (hs ! j) (lp_model pl) (int q))
        [op_start (tp_op tp) div sv_chunk_size sv..<op_end (tp_op tp) div sv_chunk_size sv]
    \<and> (\<forall>k \<in> set keys. is_readable (st_l1 sm2) k \<and> k \<in> set (held_of (lp_request_id pl) sm2))
    \<and> map Some objs = map (objs_of (st_l1 sm2)) keys"
proof -
  let ?ws = "lp_world_size pl" and ?cs = "sv_chunk_size sv" and ?e = "op_end (tp_op tp)"
  let ?s = "op_start (tp_op tp)" and ?sv = "sv1\<lparr>sv_sm := sm2\<rparr>"
  define keys where "keys = keys_for hs (lp_model pl) (ranks_upto ?ws)"
  define ks where "ks = map (\<lambda>j. ChunkKey (hs ! j) (lp_model pl) (int q)) [?s div ?cs..<?e div ?cs]"
  note dist = assms(7) [folded keys_def]
  from lookup_answer [OF assms(1-4,6) keys_def dist assms(8,9)] obtain a b g where
    qu: "query (lp_request_id pl) sm2 = Some (a, b, g)" and h: "held_of (lp_request_id pl) sm2 = take (a + b) keys"
    and le: "a + b \<le> length keys"
    and lu: "looked_up (st_l2s (sv_sm sv)) n keys a b (st_l1 (sv_sm sv)) (st_l1 sm2)" by blast
  have ws: "0 < ?ws" using assms(15) by simp
  have le': "a + b \<le> length hs * ?ws" using le by (simp add: keys_def length_keys_for ranks_upto_def)
  note chunks = hits_are_chunks [OF ws le' keys_def dist refl]
  have sv1: "sv_chunk_size sv1 = ?cs" "sv_instances sv1 = sv_instances sv"
    using lookup_then_turn [OF assms(1-3,8,9)] by simp_all
  have "t = (a + b) div ?ws * ?cs" using assms(10) qu ws sv1 by (simp add: server_query_def query_def)
  then have ec: "?e div ?cs \<le> (a + b) div ?ws"
    using assms(16) chunk_hashes_InrD(1) [OF assms(2)] by (metis div_le_mono div_mult_self_is_m)
  have "chunk_hashes H (take ?e (op_token_ids (tp_op tp))) ?cs = Inr (take (?e div ?cs) hs)"
    unfolding assms(17) by (rule chunk_hashes_take [OF assms(2)])
  moreover have "drop (?s div ?cs) (take (?e div ?cs) hs) = map ((!) hs) [?s div ?cs..<?e div ?cs]"
    using chunks(1) ec by (intro nth_equalityI) auto
  ultimately have ok: "op_keys H (tp_op tp) inst ?sv = Inr ks"
    using sv1 assms(12,14) by (simp add: op_keys_def keys_for_def ks_def comp_def concat_map_singleton)
  have held: "k \<in> set (take (a + b) keys)" if "k \<in> set ks" for k
    using that chunks(2) ec assms(15) by (auto simp: ks_def)
  have all: "\<exists>e. entries (st_l1 sm2) k = Some e \<and> \<not> write_locked e" if "k \<in> set ks" for k
    using looked_up_held [OF lu assms(5) held [OF that]] by blast
  then have "set ks \<subseteq> dom (entries (st_l1 sm2))" by blast
  then have "retrieve H tp ?sv = Inr (map (\<lambda>k. the (objs_of (st_l1 sm2) k)) ks, ks)"
    using ok assms(11,13) ws sv1 by (simp add: retrieve_def read_eq)
  moreover have "map Some (map (\<lambda>k. the (objs_of (st_l1 sm2) k)) ks) = map (objs_of (st_l1 sm2)) ks"
    using all by (fastforce simp: objs_of_def)
  ultimately show ?thesis
    using held all h by (intro exI [of _ "map (\<lambda>k. the (objs_of (st_l1 sm2) k)) ks"] exI [of _ ks])
      (auto simp: ks_def [symmetric] is_readable_iff)
qed

text \<open>
  Once the chunks are sent they stay: the callback after a RETRIEVE of held keys makes their
  entries resident, gives back one hold of each and drops them from the session; no other
  entry changes, nothing is freed and no byte of the pool changes.
\<close>

theorem post_send_keeps_chunks:
  assumes "l1_inv {} (st_l1 (sv_sm sv))" and "st_held (sv_sm sv) rid = Some held" and "distinct held"
    and "distinct keys" and "set keys \<subseteq> set held"
    and "\<forall>k \<in> set held. \<exists>e. entries (st_l1 (sv_sm sv)) k = Some e \<and> 1 \<le> read_count e"
  shows "\<exists>sv'. post_send rid keys sv = (Inr (), sv')
    \<and> st_held (sv_sm sv') rid = Some (filter (\<lambda>k. k \<notin> set keys) held)
    \<and> l1_inv {} (st_l1 (sv_sm sv'))
    \<and> entries (st_l1 (sv_sm sv')) = (\<lambda>k. if k \<in> set keys
        then map_option (\<lambda>e. e\<lparr>is_temporary := False, read_count := read_count e - 1\<rparr>) (entries (st_l1 (sv_sm sv)) k)
        else entries (st_l1 (sv_sm sv)) k)
    \<and> pool_mem (allocator (st_l1 (sv_sm sv'))) = pool_mem (allocator (st_l1 (sv_sm sv)))"
proof -
  let ?l = "st_l1 (sv_sm sv)"
  define l1 where "l1 = promote keys ?l"
  have inv1: "l1_inv {} l1" using assms(1) by (simp add: l1_def l1_inv_promote)
  have ex: "\<exists>e. entries ?l k = Some e \<and> 1 \<le> read_count e" if "k \<in> set keys" for k
    using assms(5,6) that by blast
  have all: "holds_all keys l1"
    using ex assms(4) by (fastforce simp: holds_all_def l1_def entries_promote distinct_count_list)
  from finish_read_ok [OF inv1 all] obtain l2 where
    l2: "finish_read keys l1 = (Inr (), l2)" "l1_inv {} l2" "entries l2 = released keys (entries l1)"
    "pool_mem (allocator l2) = pool_mem (allocator l1)" by blast
  have es: "released keys (entries l1) k = (if k \<in> set keys
      then map_option (\<lambda>e. e\<lparr>is_temporary := False, read_count := read_count e - 1\<rparr>) (entries ?l k)
      else entries ?l k)" for k
    by (cases "entries ?l k") (simp_all add: released_def l1_def entries_promote distinct_count_list assms(4) Let_def)
  have "released keys (entries l1) = (\<lambda>k. if k \<in> set keys
      then map_option (\<lambda>e. e\<lparr>is_temporary := False, read_count := read_count e - 1\<rparr>) (entries ?l k)
      else entries ?l k)" by (rule ext) (rule es)
  moreover have "filter (\<lambda>k. k \<in> set held) keys = keys" using assms(5) by (simp add: filter_id_conv subset_iff)
  moreover note del_held_all [OF assms(4,5)]
  ultimately show ?thesis
    using l2 assms(2) objs_of_promote [of keys ?l]
    by (auto simp: post_send_def release_def held_of_def set_held_def l1_def [symmetric] Let_def)
qed

text \<open>
  A STORE with fewer chunks than the range has keys leaves the rest of the keys reserved: the
  handler answers as if all were well, but the second chunk stays write-locked, so no later
  STORE can fill it, no lookup can hit it and the evictor cannot free it.
\<close>

theorem short_store_locks_chunk:
  "(let sv = snd (register \<lparr>rp_instance_id = 7, rp_model = ''m'', rp_rank = 0, rp_world_size = 1,
                  rp_block_size = 1, rp_chunk_nbytes = 2\<rparr> (CacheServer 1 [0, 0, 0, 0] []));
        H = (\<lambda>m. [last m, of_nat (length m)]);
        op = \<lparr>op_token_ids = [5, 6], op_block_ids = [0, 1], op_start = 0, op_end = 2, op_skip_first_n_tokens = 0\<rparr>
    in case op_keys H op \<lparr>ei_rank = 0, ei_model = ''m'', ei_world_size = 1, ei_block_size = 1, ei_chunk_nbytes = 2\<rparr> sv of
         Inl x \<Rightarrow> False
       | Inr keys \<Rightarrow>
           (case store H \<lparr>tp_request_id = ''r'', tp_instance_id = 7, tp_op = op, tp_chunks = [[8, 9]],
                      tp_elapsed = 1, tp_nbytes = 2\<rparr> sv of
              (r, sv') \<Rightarrow> r = Inr True \<and> length keys = 2
                \<and> map_option write_locked (entries (st_l1 (sv_sm sv')) (keys ! 1)) = Some True
                \<and> \<not> is_evictable (st_l1 (sv_sm sv')) (keys ! 1)
                \<and> fst (reserve_write [keys ! 1] 2 False (st_l1 (sv_sm sv'))) (keys ! 1) = Some None))"
  by code_simp

subsection \<open>A small deployment\<close>

text \<open>
  One engine, chunks of one token and two bytes, a pool of two chunks, and a mock adapter that
  may already have a chunk.
\<close>

definition demo_server :: "(chunk_key \<rightharpoonup> byte list) \<Rightarrow> server" where
  "demo_server m = snd (register \<lparr>rp_instance_id = 7, rp_model = ''m'', rp_rank = 0, rp_world_size = 1,
     rp_block_size = 1, rp_chunk_nbytes = 2\<rparr> (CacheServer 1 [0, 0, 0, 0] [Mock m]))"

definition demo_inst :: engine_instance where
  "demo_inst = \<lparr>ei_rank = 0, ei_model = ''m'', ei_world_size = 1, ei_block_size = 1, ei_chunk_nbytes = 2\<rparr>"

definition demo_pl :: transfer_payload where
  "demo_pl = \<lparr>tp_request_id = ''r'', tp_instance_id = 7,
     tp_op = \<lparr>op_token_ids = [5], op_block_ids = [0], op_start = 0, op_end = 1, op_skip_first_n_tokens = 0\<rparr>,
     tp_chunks = [[8, 9]], tp_elapsed = 1, tp_nbytes = 2\<rparr>"

definition demo_lookup :: lookup_payload where
  "demo_lookup = \<lparr>lp_request_id = ''r'', lp_token_ids = [5], lp_model = ''m'', lp_world_size = 1\<rparr>"

definition demo_hash :: "byte list" where
  "demo_hash = hd (projr (chunk_hashes demo_H [5] 1))"

abbreviation (input) demo_chunk :: chunk_key where
  "demo_chunk \<equiv> ChunkKey demo_hash ''m'' 0"

lemma demo_hashes: "chunk_hashes demo_H [5] 1 = Inr [demo_hash]"
proof -
  have "(case chunk_hashes demo_H [5] 1 of Inr l \<Rightarrow> length l = 1 | Inl _ \<Rightarrow> False)" by code_simp
  then show ?thesis unfolding demo_hash_def by (auto simp: length_Suc_conv split: sum.splits)
qed

lemma demo_server_sel:
  "sv_instances (demo_server m) 7 = Some demo_inst" "sv_deployments (demo_server m) (''m'', 1) = Some 2"
  "sv_chunk_size (demo_server m) = 1" "st_jobs (sv_sm (demo_server m)) = []"
  "l1_inv {} (st_l1 (sv_sm (demo_server m)))" "entries (st_l1 (sv_sm (demo_server m))) = Map.empty"
  "at_rest (st_l1 (sv_sm (demo_server m)))"
  by (simp_all add: demo_server_def register_def CacheServer_def demo_inst_def StorageManager_l1 at_rest_def)
    (simp add: StorageManager_def Let_def)

lemma demo_op_keys: "op_keys demo_H (tp_op demo_pl) demo_inst (demo_server m) = Inr [demo_chunk]"
  by (simp add: op_keys_def demo_pl_def demo_server_sel demo_hashes keys_for_def demo_inst_def del: One_nat_def)

lemma demo_room: "enough_room 1 2 (allocator (st_l1 (sv_sm (demo_server m))))"
  by (simp add: demo_server_def register_def CacheServer_def StorageManager_def Let_def L1Manager_def
      register_listener_def PoolAllocator_def enough_room_def capacity_def)

lemma store_then_retrieve_witness:
  "\<exists>sv' objs. store demo_H demo_pl (demo_server Map.empty) = (Inr True, sv')
    \<and> retrieve demo_H demo_pl sv' = Inr (objs, [demo_chunk]) \<and> sent_chunks objs sv' = [[8, 9]]"
proof -
  let ?sv = "demo_server Map.empty"
  have "missing_keys [demo_chunk] (st_l1 (sv_sm ?sv)) = [demo_chunk]"
    by (simp add: missing_keys_def demo_server_sel)
  then have room: "enough_room (length (missing_keys [demo_chunk] (st_l1 (sv_sm ?sv)))) (ei_chunk_nbytes demo_inst)
      (allocator (st_l1 (sv_sm ?sv)))" using demo_room by (simp add: demo_inst_def)
  have inst: "sv_instances ?sv (tp_instance_id demo_pl) = Some demo_inst" by (simp add: demo_pl_def demo_server_sel)
  have "l1_bytes ?sv demo_chunk = None" by (simp add: l1_bytes_def objs_of_def demo_server_sel)
  with store_then_retrieve [OF inst demo_op_keys _ demo_server_sel(5) _ room, of demo_pl] show ?thesis
    by (simp add: demo_inst_def demo_pl_def)
qed

definition demo_pool_key :: "chunk_key \<rightharpoonup> byte list" where
  "demo_pool_key = [demo_chunk \<mapsto> [8, 9]]"

definition demo_sv1 :: server where
  "demo_sv1 = snd (lookup demo_H demo_lookup (demo_server demo_pool_key))"

lemma demo_sv1_chunk: "sv_chunk_size demo_sv1 = 1"
  by code_simp

definition demo_sm2 :: storage where
  "demo_sm2 = snd (the (prefetch_turn 1 (sv_sm demo_sv1)))"

lemma demo_turn:
  "lookup demo_H demo_lookup (demo_server demo_pool_key) = (Inr True, demo_sv1)"
  "prefetch_turn 1 (sv_sm demo_sv1) = Some (Inr (), demo_sm2)"
  "query ''r'' demo_sm2 = Some (0, 1, 2 / 10 ^ 9)"
proof -
  have "fst (lookup demo_H demo_lookup (demo_server demo_pool_key)) = Inr True" by code_simp
  then show "lookup demo_H demo_lookup (demo_server demo_pool_key) = (Inr True, demo_sv1)"
    by (metis demo_sv1_def prod.collapse)
  have "map_option fst (prefetch_turn 1 (sv_sm demo_sv1)) = Some (Inr ())" by code_simp
  then show "prefetch_turn 1 (sv_sm demo_sv1) = Some (Inr (), demo_sm2)"
    unfolding demo_sm2_def by (auto simp: map_option_case split: option.splits)
  show "query ''r'' demo_sm2 = Some (0, 1, 2 / 10 ^ 9)" by code_simp
qed

lemma demo_lookup_sel:
  "lp_request_id demo_lookup = ''r''" "lp_token_ids demo_lookup = [5]" "lp_model demo_lookup = ''m''"
  "lp_world_size demo_lookup = 1"
  by (simp_all add: demo_lookup_def)

lemma demo_all_keys: "keys_for [demo_hash] ''m'' (ranks_upto 1) = [demo_chunk]"
  by (simp add: keys_for_def ranks_upto_def)

lemma query_counts_complete_chunks_witness:
  "server_query \<lparr>qp_request_id = ''r'', qp_world_size = 1\<rparr> (demo_sv1\<lparr>sv_sm := demo_sm2\<rparr>) = Inr (Some 1)
    \<and> demo_chunk \<in> set (held_of ''r'' demo_sm2)"
proof -
  let ?sv = "demo_server demo_pool_key"
  have "sv_deployments ?sv (lp_model demo_lookup, lp_world_size demo_lookup) = Some 2"
    "chunk_hashes demo_H (lp_token_ids demo_lookup) (sv_chunk_size ?sv) = Inr [demo_hash]"
    by (simp_all add: demo_server_sel demo_hashes demo_lookup_sel del: One_nat_def)
  from query_counts_complete_chunks [OF this demo_server_sel(4,5,7) _ _ _ demo_turn(1,2)]
  obtain c where
    q: "server_query \<lparr>qp_request_id = ''r'', qp_world_size = 1\<rparr> (demo_sv1\<lparr>sv_sm := demo_sm2\<rparr>) = Inr (Some c)"
    and h: "\<forall>j < c. \<forall>q < 1. ChunkKey ([demo_hash] ! j) ''m'' (int q) \<in> set (held_of ''r'' demo_sm2)"
    by (auto simp: demo_lookup_sel demo_all_keys demo_server_sel Let_def simp del: One_nat_def)
  have "c = 1" using q demo_turn(3) demo_sv1_chunk by (simp add: server_query_def)
  with q h show ?thesis by simp
qed

definition demo_req :: transfer_payload where
  "demo_req = demo_pl\<lparr>tp_chunks := []\<rparr>"

lemma retrieve_within_answer_witness:
  "\<exists>objs. retrieve demo_H demo_req (demo_sv1\<lparr>sv_sm := demo_sm2\<rparr>) = Inr (objs, [demo_chunk])
    \<and> is_readable (st_l1 demo_sm2) demo_chunk"
proof -
  let ?sv = "demo_server demo_pool_key"
  have a: "sv_deployments ?sv (lp_model demo_lookup, lp_world_size demo_lookup) = Some 2"
    "chunk_hashes demo_H (lp_token_ids demo_lookup) (sv_chunk_size ?sv) = Inr [demo_hash]"
    by (simp_all add: demo_server_sel demo_hashes demo_lookup_sel del: One_nat_def)
  have q: "server_query \<lparr>qp_request_id = lp_request_id demo_lookup, qp_world_size = lp_world_size demo_lookup\<rparr>
      (demo_sv1\<lparr>sv_sm := demo_sm2\<rparr>) = Inr (Some 1)"
    using demo_turn(3) demo_sv1_chunk by (simp add: server_query_def demo_lookup_sel)
  have i: "sv_instances ?sv (tp_instance_id demo_req) = Some demo_inst"
    by (simp add: demo_req_def demo_pl_def demo_server_sel)
  have op: "op_end (tp_op demo_req) = 1" "op_start (tp_op demo_req) = 0" "op_token_ids (tp_op demo_req) = [5]"
    by (simp_all add: demo_req_def demo_pl_def)
  have u: "[0..<1] = [0]" by simp
  from retrieve_within_answer [OF a demo_server_sel(4,5,7) _ _ demo_turn(1,2) q i, of 0] show ?thesis
    by (auto simp: demo_inst_def demo_lookup_sel op demo_all_keys demo_server_sel u simp del: One_nat_def)
qed

lemma post_send_keeps_chunks_witness:
  "\<exists>sv'. post_send ''r'' [demo_key 1] ((demo_server Map.empty)\<lparr>sv_sm := demo_after\<rparr>) = (Inr (), sv')
    \<and> st_held (sv_sm sv') ''r'' = Some []
    \<and> map_option is_temporary (entries (st_l1 (sv_sm sv')) (demo_key 1)) = Some False"
proof -
  let ?sv = "(demo_server Map.empty)\<lparr>sv_sm := demo_after\<rparr>"
  have "l1_inv {} (st_l1 demo_session)" "st_hits demo_session ''r'' \<noteq> None" by (simp_all add: demo_storage_inv)
  from prefetch_publishes [OF this(1) demo_keys_distinct _ this(2) demo_prefetch] have inv: "l1_inv {} (st_l1 demo_after)"
    by (auto simp: Let_def looked_up_def)
  have "st_held demo_after ''r'' = Some [demo_key 1]" by code_simp
  then have h: "st_held (sv_sm ?sv) ''r'' = Some [demo_key 1]" by simp
  have "map_option (\<lambda>e. 1 \<le> read_count e) (entries (st_l1 demo_after) (demo_key 1)) = Some True" by code_simp
  then have c: "\<exists>e. entries (st_l1 demo_after) (demo_key 1) = Some e \<and> 1 \<le> read_count e" by auto
  with post_send_keeps_chunks [of ?sv "''r''" "[demo_key 1]" "[demo_key 1]"] inv h show ?thesis by auto
qed

end
