(* ===== verification/MQ.thy ===== *)
theory MQ
  imports Protocol
begin

text \<open>
  The RPC layer of \<open>mini_llmcache/mq.py\<close>: the client's table of pending futures and the
  server's \<open>handle\<close>.  A pickled message is the tuple it encodes (or \<open>Garbage\<close>, which
  \<open>pickle.loads\<close> refuses); the socket delivers whole messages.  \<open>'p\<close> is the type of
  payloads, \<open>'v\<close> of plain results.
\<close>

subsection \<open>Messages\<close>

datatype 'p request_blob = Call nat req 'p | Garbage

datatype 'v pyval = PyNone | PyVal 'v | PyFrames "byte list list"

text \<open>
  The first frame of a reply is \<open>(uid, ok, value)\<close>: \<open>ok\<close> with a value, or not with the
  exception.  The uid is \<open>None\<close> when the request could not be decoded.  Chunk bytes follow as
  frames of their own.
\<close>

record 'v reply =
  r_uid :: "nat option"
  r_result :: "'v pyval res"
  r_frames :: "byte list list"

subsection \<open>Client\<close>

text \<open>A future is pending until it is settled once, with the result or the exception.\<close>

record ('p, 'v) client =
  uid_counter :: nat
  pending :: "nat set"
  settled :: "nat \<rightharpoonup> 'v pyval res"
  outbox :: "'p request_blob list"

definition MQClient :: "('p, 'v) client" where
  "MQClient = \<lparr>uid_counter = 0, pending = {}, settled = Map.empty, outbox = []\<rparr>"

definition mq_submit :: "req \<Rightarrow> 'p \<Rightarrow> ('p, 'v) client \<Rightarrow> nat \<times> ('p, 'v) client" where
  "mq_submit rq pl c =
     (let uid = uid_counter c
      in (uid, c\<lparr>uid_counter := Suc uid, pending := insert uid (pending c),
               outbox := outbox c @ [Call uid rq pl]\<rparr>))"

definition reply_value :: "'v reply \<Rightarrow> 'v pyval res" where
  "reply_value r =
     (case r_result r of
        Inr PyNone \<Rightarrow> (if r_frames r \<noteq> [] then Inr (PyFrames (r_frames r)) else Inr PyNone)
      | v \<Rightarrow> v)"

definition client_on_recv :: "'v reply \<Rightarrow> ('p, 'v) client \<Rightarrow> ('p, 'v) client" where
  "client_on_recv r c =
     (case r_uid r of
        None \<Rightarrow> c
      | Some uid \<Rightarrow>
          if uid \<in> pending c
          then c\<lparr>pending := pending c - {uid}, settled := (settled c)(uid \<mapsto> reply_value r)\<rparr>
          else c)"

subsection \<open>Server\<close>

text \<open>
  What a handler returns: a plain value, or a list of chunks with the callback to run once they
  are sent.
\<close>

datatype ('s, 'v) hresult =
    Plain "'v pyval"
  | ChunksThen "byte list list" "'s \<Rightarrow> unit res \<times> 's"

type_synonym ('s, 'p, 'v) handler = "'p \<Rightarrow> 's \<Rightarrow> ('s, 'v) hresult res \<times> 's"

definition reply_ok :: "nat \<Rightarrow> 'v pyval \<Rightarrow> byte list list \<Rightarrow> 'v reply" where
  "reply_ok uid v fs = \<lparr>r_uid = Some uid, r_result = Inr v, r_frames = fs\<rparr>"

definition reply_exc :: "nat option \<Rightarrow> exn \<Rightarrow> 'v reply" where
  "reply_exc uid x = \<lparr>r_uid = uid, r_result = Inl x, r_frames = []\<rparr>"

text \<open>The table of handlers; a request registered again gets the later one.\<close>

definition mq_register :: "req \<Rightarrow> ('s, 'p, 'v) handler \<Rightarrow> (req \<rightharpoonup> ('s, 'p, 'v) handler)
    \<Rightarrow> (req \<rightharpoonup> ('s, 'p, 'v) handler)" where
  "mq_register rq fn h = h(rq \<mapsto> fn)"

text \<open>
  \<open>handle\<close> gives the replies it sends, in order, and the state.  A chunk result without chunks
  is not recognised as one: the tuple is pickled with its callback, a local function, which
  \<open>pickle\<close> refuses.  An exception after the chunks went out sends a second reply.
\<close>

definition mq_handle :: "(req \<rightharpoonup> ('s, 'p, 'v) handler) \<Rightarrow> 'p request_blob \<Rightarrow> 's \<Rightarrow> 'v reply list \<times> 's" where
  "mq_handle handlers blob s =
     (case blob of
        Garbage \<Rightarrow> ([reply_exc None UnpicklingError], s)
      | Call uid rq pl \<Rightarrow>
          (case handlers rq of
             None \<Rightarrow> ([reply_exc (Some uid) KeyError], s)
           | Some fn \<Rightarrow>
               (case fn pl s of
                  (Inl x, s') \<Rightarrow> ([reply_exc (Some uid) x], s')
                | (Inr (Plain v), s') \<Rightarrow> ([reply_ok uid v []], s')
                | (Inr (ChunksThen chunks cb), s') \<Rightarrow>
                    if chunks = [] then ([reply_exc (Some uid) AttributeError], s')
                    else (case cb s' of
                            (Inr _, s'') \<Rightarrow> ([reply_ok uid PyNone chunks], s'')
                          | (Inl x, s'') \<Rightarrow>
                              ([reply_ok uid PyNone chunks, reply_exc (Some uid) x], s'')))))"

end
