(* ===== verification/MQ_Laws.thy ===== *)
theory MQ_Laws
  imports MQ
begin

text \<open>
  The RPC layer as its users rely on it: a call returns what its handler returned, replies that
  arrive in any order find their futures, and a future is settled once.
\<close>

subsection \<open>Futures\<close>

text \<open>
  Futures that wait are not settled, and numbers still to be given out are neither; this is
  kept by every step of the client.
\<close>

definition client_ok :: "('p, 'v) client \<Rightarrow> bool" where
  "client_ok c \<longleftrightarrow> pending c \<inter> dom (settled c) = {} \<and> (\<forall>u \<in> pending c \<union> dom (settled c). u < uid_counter c)"

lemma client_ok_init: "client_ok MQClient"
  by (simp add: client_ok_def MQClient_def)

lemma client_ok_submit:
  assumes "client_ok c"
  shows "client_ok (snd (mq_submit rq pl c))"
proof -
  have "uid_counter c \<notin> pending c \<union> dom (settled c)"
    using assms less_irrefl unfolding client_ok_def by blast
  moreover have "u < Suc (uid_counter c)" if "u \<in> pending c \<union> dom (settled c)" for u
    using assms that unfolding client_ok_def by (blast intro: less_SucI)
  ultimately show ?thesis
    using assms unfolding client_ok_def mq_submit_def Let_def by simp
qed

lemma client_ok_recv:
  assumes "client_ok c"
  shows "client_ok (client_on_recv r c)"
proof (cases "\<exists>u. r_uid r = Some u \<and> u \<in> pending c")
  case False
  then have "client_on_recv r c = c" by (auto simp: client_on_recv_def split: option.split)
  with assms show ?thesis by simp
next
  case True
  then obtain u where u: "r_uid r = Some u" "u \<in> pending c" by blast
  then have "client_on_recv r c = c\<lparr>pending := pending c - {u}, settled := (settled c)(u \<mapsto> reply_value r)\<rparr>"
    by (simp add: client_on_recv_def)
  with assms u(2) show ?thesis unfolding client_ok_def by simp blast
qed

lemma client_on_recv_sel:
  "settled (client_on_recv r c) u =
     (if r_uid r = Some u \<and> u \<in> pending c then Some (reply_value r) else settled c u)"
  "u \<in> pending (client_on_recv r c) \<longleftrightarrow> u \<in> pending c \<and> r_uid r \<noteq> Some u"
  "uid_counter (client_on_recv r c) = uid_counter c" "outbox (client_on_recv r c) = outbox c"
  by (auto simp: client_on_recv_def split: option.split)

subsection \<open>Interleaved use\<close>

text \<open>
  What happens to a client: new requests and replies in any order, replies for unknown numbers,
  repeated replies and replies without a number included.
\<close>

datatype ('p, 'v) client_event = Submit req 'p | Recv "'v reply"

fun client_step :: "('p, 'v) client_event \<Rightarrow> ('p, 'v) client \<Rightarrow> ('p, 'v) client" where
  "client_step (Submit rq pl) c = snd (mq_submit rq pl c)"
| "client_step (Recv r) c = client_on_recv r c"

definition client_run :: "('p, 'v) client_event list \<Rightarrow> ('p, 'v) client \<Rightarrow> ('p, 'v) client" where
  "client_run es c = fold client_step es c"

text \<open>The first reply in a list of events that carries the number.\<close>

fun first_reply :: "nat \<Rightarrow> ('p, 'v) client_event list \<Rightarrow> 'v reply option" where
  "first_reply u [] = None"
| "first_reply u (Recv r # es) = (if r_uid r = Some u then Some r else first_reply u es)"
| "first_reply u (Submit rq pl # es) = first_reply u es"

lemma client_run_done:
  "u \<notin> pending c \<Longrightarrow> u < uid_counter c \<Longrightarrow> settled (client_run es c) u = settled c u"
proof (induction es arbitrary: c)
  case Nil
  then show ?case by (simp add: client_run_def)
next
  case (Cons e es)
  show ?case
  proof (cases e)
    case (Submit rq pl)
    with Cons show ?thesis by (simp add: client_run_def mq_submit_def Let_def)
  next
    case (Recv r)
    with Cons show ?thesis by (simp add: client_run_def client_on_recv_sel)
  qed
qed

lemma client_run_pending:
  "client_ok c \<Longrightarrow> u \<in> pending c \<Longrightarrow>
   settled (client_run es c) u = map_option reply_value (first_reply u es)"
proof (induction es arbitrary: c)
  case Nil
  then show ?case by (auto simp: client_run_def client_ok_def)
next
  case (Cons e es)
  show ?case
  proof (cases e)
    case (Submit rq pl)
    with Cons.prems Cons.IH [OF client_ok_submit [OF Cons.prems(1)], of rq pl] show ?thesis
      by (simp add: client_run_def) (simp add: mq_submit_def Let_def)
  next
    case (Recv r)
    show ?thesis
    proof (cases "r_uid r = Some u")
      case False
      with Cons.prems Cons.IH [OF client_ok_recv [OF Cons.prems(1)], of r] Recv show ?thesis
        by (simp add: client_run_def client_on_recv_sel)
    next
      case True
      have "u < uid_counter c" using Cons.prems by (simp add: client_ok_def)
      then have "settled (client_run es (client_on_recv r c)) u = settled (client_on_recv r c) u"
        using True by (intro client_run_done) (simp_all add: client_on_recv_sel)
      then show ?thesis using True Recv Cons.prems by (simp add: client_run_def client_on_recv_sel)
    qed
  qed
qed

subsection \<open>Blocking calls\<close>

text \<open>
  \<open>call\<close>: submit, then wait for the future.  \<open>es\<close> is what happens to the client until the reply is
  there or the time-out has passed: replies handled by the I/O thread and requests of other threads.  A
  call that times out leaves its future waiting.
\<close>

definition mq_call :: "req \<Rightarrow> 'p \<Rightarrow> ('p, 'v) client_event list \<Rightarrow> ('p, 'v) client \<Rightarrow> 'v pyval res \<times> ('p, 'v) client" where
  "mq_call rq pl es c =
     (case mq_submit rq pl c of
        (uid, c1) \<Rightarrow>
          let c2 = client_run es c1
          in (case settled c2 uid of None \<Rightarrow> Inl TimeoutError | Some r \<Rightarrow> r, c2))"

lemma submit_pending: "mq_submit rq pl c = (uid, c1) \<Longrightarrow> uid \<in> pending c1 \<and> uid_counter c1 = Suc uid"
  by (auto simp: mq_submit_def Let_def)

text \<open>A call gives the first reply to its own request, or times out; a reply that comes later finds nobody.\<close>

lemma call_result:
  assumes "client_ok c" and "mq_call rq pl es c = (r, c')"
  shows "r = (case first_reply (uid_counter c) es of None \<Rightarrow> Inl TimeoutError | Some m \<Rightarrow> reply_value m)"
proof -
  obtain uid c1 where s: "mq_submit rq pl c = (uid, c1)" by fastforce
  from client_ok_submit [OF assms(1), of rq pl] s have "client_ok c1" by simp
  from client_run_pending [OF this, of uid es] submit_pending [OF s]
  have "settled (client_run es c1) uid = map_option reply_value (first_reply uid es)" by blast
  moreover have "uid = uid_counter c" using s by (simp add: mq_submit_def Let_def)
  ultimately show ?thesis using assms(2) s by (auto simp: mq_call_def Let_def split: option.splits)
qed

subsection \<open>Properties\<close>

text \<open>
  C28. Replies are matched by number, in whatever order they come: over any interleaving of further
  requests and replies, a waiting future is settled with the first reply that carries its
  number and with nothing before that, and a settled one is never changed again.
\<close>

theorem replies_matched_by_uid:
  assumes "client_ok c" and "u < uid_counter c"
  shows "settled (client_run es c) u =
    (if u \<in> pending c then map_option reply_value (first_reply u es) else settled c u)"
  using client_run_pending [OF assms(1)] client_run_done [OF _ assms(2)] by auto

text \<open>
  A call returns what its handler returned: submitting a request, handling it on the server and
  receiving the replies settles the future with the handler's plain value, with its chunks as
  bytes, or with the exception it raised (an unknown request is a \<open>KeyError\<close>, an empty chunk
  list an error as well); the state after the call is the handler's, followed by the callback
  when chunks were sent; no other future of the client changes.
\<close>

theorem call_returns_handler_result:
  assumes "client_ok c" and "mq_submit rq pl c = (u, c1)"
    and "mq_handle handlers (Call u rq pl) s = (rs, s')" and "c2 = fold client_on_recv rs c1"
  shows "(settled c2 u, s') =
      (case handlers rq of
         None \<Rightarrow> (Some (Inl KeyError), s)
       | Some fn \<Rightarrow>
           (case fn pl s of
              (Inl x, s1) \<Rightarrow> (Some (Inl x), s1)
            | (Inr (Plain v), s1) \<Rightarrow> (Some (Inr v), s1)
            | (Inr (ChunksThen chunks cb), s1) \<Rightarrow>
                if chunks = [] then (Some (Inl AttributeError), s1)
                else (Some (Inr (PyFrames chunks)), snd (cb s1))))
    \<and> (\<forall>i. i \<noteq> u \<longrightarrow> settled c2 i = settled c i)"
proof -
  have c1: "u \<in> pending c1" "settled c1 = settled c"
    using assms(2) by (auto simp: mq_submit_def Let_def)
  show ?thesis
    using assms(3) c1 unfolding assms(4) mq_handle_def
    by (auto simp: client_on_recv_sel reply_ok_def reply_exc_def reply_value_def
        split: option.splits prod.splits sum.splits hresult.splits pyval.splits if_splits)
qed

subsection \<open>A small exchange\<close>

text \<open>Two calls whose replies arrive in the other order, with a stale one in between.\<close>

definition demo_client :: "(nat, nat) client" where
  "demo_client = snd (mq_submit STORE 1 (snd (mq_submit LOOKUP 0 MQClient)))"

lemma demo_client_ok: "client_ok demo_client"
  unfolding demo_client_def by (intro client_ok_submit client_ok_init)

lemma replies_matched_by_uid_witness:
  "settled (client_run [Recv (reply_ok 1 (PyVal 11) []), Recv (reply_ok 7 (PyVal 12) []),
      Recv (reply_ok 0 (PyVal 10) []), Recv (reply_ok 1 (PyVal 13) [])] demo_client) 1 = Some (Inr (PyVal 11))"
proof -
  have "uid_counter demo_client = 2" "pending demo_client = {0, 1}"
    by (auto simp: demo_client_def mq_submit_def MQClient_def Let_def)
  then show ?thesis
    using replies_matched_by_uid [OF demo_client_ok, of 1] by (simp add: reply_ok_def reply_value_def)
qed

lemma call_returns_handler_result_witness:
  "(let hs = (\<lambda>rq. if rq = STORE then Some (\<lambda>pl s. (Inr (Plain (PyVal (pl + s))), s + 1)) else None);
        (u, c1) = mq_submit STORE (3 :: nat) demo_client;
        (rs, s') = mq_handle hs (Call u STORE 3) (4 :: nat)
    in settled (fold client_on_recv rs c1) u = Some (Inr (PyVal 7)) \<and> s' = 5)"
proof -
  let ?hs = "\<lambda>rq. if rq = STORE then Some (\<lambda>pl s. (Inr (Plain (PyVal (pl + s))), s + 1)) else None
    :: (nat \<Rightarrow> nat \<Rightarrow> (nat, nat) hresult res \<times> nat) option"
  obtain u c1 where sub: "mq_submit STORE (3 :: nat) demo_client = (u, c1)" by fastforce
  obtain rs s' where h: "mq_handle ?hs (Call u STORE 3) (4 :: nat) = (rs, s')" by fastforce
  from call_returns_handler_result [OF demo_client_ok sub h refl] show ?thesis
    by (simp add: sub h Let_def)
qed

end
