(* ===== verification/Service.thy ===== *)
theory Service
  imports Server_Sessions MQ_Laws
begin

text \<open>
  The request table of the cache server (\<open>CacheServer.__init__\<close>): which handler answers which
  request, and how its result goes on the wire.  A RETRIEVE returns views of the chunks, read
  while the holds last, and its callback.  The connector sends each request with a payload of one
  class.  The handlers do not check it: a payload of another class mostly has not the fields that are read, an
  \<open>AttributeError\<close>.  UNREGISTER and END_SESSION use the payload as the key of a dictionary: a string, an
  integer or nothing is one, if not one that is found; the data classes are not hashable, a \<open>TypeError\<close>
  (\<open>unregister\<close> is taken not to be called on an empty table with one, for which CPython's \<open>pop\<close> does not
  hash its key).  QUERY answers every payload with the fields it reads.
\<close>

subsection \<open>Results on the wire\<close>

definition bool_result :: "bool res \<times> server \<Rightarrow> (server, plain) hresult res \<times> server" where
  "bool_result rs = (case rs of (Inl x, sv) \<Rightarrow> (Inl x, sv) | (Inr b, sv) \<Rightarrow> (Inr (Plain (PyVal (VBool b))), sv))"

definition query_result :: "nat option res \<Rightarrow> (server, plain) hresult res" where
  "query_result r =
     (case r of
        Inl x \<Rightarrow> Inl x
      | Inr None \<Rightarrow> Inr (Plain PyNone)
      | Inr (Some n) \<Rightarrow> Inr (Plain (PyVal (VInt n))))"

definition retrieve_result :: "(byte list \<Rightarrow> byte list) \<Rightarrow> transfer_payload \<Rightarrow> server
    \<Rightarrow> (server, plain) hresult res \<times> server" where
  "retrieve_result H pl sv =
     (case retrieve H pl sv of
        Inl x \<Rightarrow> (Inl x, sv)
      | Inr (objs, keys) \<Rightarrow> (Inr (ChunksThen (sent_chunks objs sv) (post_send (tp_request_id pl) keys)), sv))"

subsection \<open>Payloads of another class\<close>

text \<open>The fields \<open>request_id\<close> and \<open>world_size\<close>, where a payload has them.\<close>

fun payload_request_id :: "payload \<Rightarrow> string option" where
  "payload_request_id (P_lookup pl) = Some (lp_request_id pl)"
| "payload_request_id (P_transfer pl) = Some (tp_request_id pl)"
| "payload_request_id (P_ack pl) = Some (ap_request_id pl)"
| "payload_request_id (P_query pl) = Some (qp_request_id pl)"
| "payload_request_id (P_free_locks pl) = Some (fp_request_id pl)"
| "payload_request_id _ = None"

fun payload_world_size :: "payload \<Rightarrow> nat option" where
  "payload_world_size (P_lookup pl) = Some (lp_world_size pl)"
| "payload_world_size (P_query pl) = Some (qp_world_size pl)"
| "payload_world_size (P_free_locks pl) = Some (fp_world_size pl)"
| "payload_world_size _ = None"

text \<open>\<open>query\<close> reads the world size only when the request is resolved.\<close>

definition query_payload_of :: "payload \<Rightarrow> server \<Rightarrow> (server, plain) hresult res" where
  "query_payload_of p sv =
     (case payload_request_id p of
        None \<Rightarrow> Inl AttributeError
      | Some rid \<Rightarrow>
          (case payload_world_size p of
             Some n \<Rightarrow> query_result (server_query \<lparr>qp_request_id = rid, qp_world_size = n\<rparr> sv)
           | None \<Rightarrow>
               (case query rid (sv_sm sv) of
                  None \<Rightarrow> Inr (Plain PyNone)
                | Some _ \<Rightarrow> Inl AttributeError)))"

subsection \<open>The table\<close>

fun handlers :: "(byte list \<Rightarrow> byte list) \<Rightarrow> req \<Rightarrow> (server, payload, plain) handler option" where
  "handlers H GET_CHUNK_SIZE = Some (\<lambda>p sv. (Inr (Plain (PyVal (VInt (get_chunk_size sv)))), sv))"
| "handlers H REGISTER_KV_CACHE = Some (\<lambda>p sv. case p of
     P_register pl \<Rightarrow> (case register pl sv of (b, sv') \<Rightarrow> (Inr (Plain (PyVal (VBool b))), sv'))
   | _ \<Rightarrow> (Inl AttributeError, sv))"
| "handlers H UNREGISTER_KV_CACHE = Some (\<lambda>p sv. case p of
     P_instance i \<Rightarrow> (case unregister i sv of (b, sv') \<Rightarrow> (Inr (Plain (PyVal (VBool b))), sv'))
   | P_request rid \<Rightarrow> (Inr (Plain (PyVal (VBool False))), sv)
   | P_none \<Rightarrow> (Inr (Plain (PyVal (VBool False))), sv)
   | _ \<Rightarrow> (Inl TypeError, sv))"
| "handlers H LOOKUP = Some (\<lambda>p sv. case p of
     P_lookup pl \<Rightarrow> bool_result (lookup H pl sv) | _ \<Rightarrow> (Inl AttributeError, sv))"
| "handlers H QUERY_PREFETCH_STATUS = Some (\<lambda>p sv. (query_payload_of p sv, sv))"
| "handlers H STORE = Some (\<lambda>p sv. case p of
     P_transfer pl \<Rightarrow> bool_result (store H pl sv) | _ \<Rightarrow> (Inl AttributeError, sv))"
| "handlers H RETRIEVE = Some (\<lambda>p sv. case p of
     P_transfer pl \<Rightarrow> retrieve_result H pl sv | _ \<Rightarrow> (Inl AttributeError, sv))"
| "handlers H FREE_LOOKUP_LOCKS = Some (\<lambda>p sv. case p of
     P_free_locks pl \<Rightarrow> bool_result (free_locks pl sv) | _ \<Rightarrow> (Inl AttributeError, sv))"
| "handlers H END_SESSION = Some (\<lambda>p sv. case p of
     P_request rid \<Rightarrow> bool_result (server_end_session rid sv)
   | P_instance i \<Rightarrow> (Inr (Plain (PyVal (VBool True))), sv)
   | P_none \<Rightarrow> (Inr (Plain (PyVal (VBool True))), sv)
   | _ \<Rightarrow> (Inl TypeError, sv))"
| "handlers H TRANSFER_ACK = Some (\<lambda>p sv. case p of
     P_ack pl \<Rightarrow> (Inr (Plain (PyVal (VBool (ack pl sv)))), sv) | _ \<Rightarrow> (Inl AttributeError, sv))"

definition serve_request :: "(byte list \<Rightarrow> byte list) \<Rightarrow> payload request_blob \<Rightarrow> server \<Rightarrow> plain reply list \<times> server" where
  "serve_request H blob sv = mq_handle (handlers H) blob sv"

text \<open>The table is the one \<open>CacheServer.__init__\<close> builds, one \<open>register\<close> after the other.\<close>

lemma handlers_registered:
  "handlers H = fold (\<lambda>rq. mq_register rq (the (handlers H rq)))
     [GET_CHUNK_SIZE, REGISTER_KV_CACHE, UNREGISTER_KV_CACHE, LOOKUP, QUERY_PREFETCH_STATUS, STORE, RETRIEVE,
      FREE_LOOKUP_LOCKS, END_SESSION, TRANSFER_ACK] Map.empty" (is "_ = ?table")
proof
  fix rq show "handlers H rq = ?table rq" by (cases rq) (simp_all add: mq_register_def)
qed

lemma every_request_handled: "handlers H rq \<noteq> None"
  by (cases rq) simp_all

subsection \<open>Properties\<close>

text \<open>
  C30. Every request is answered: the server sends one reply with the request's number, and a second one
  only when the callback of a RETRIEVE failed after the chunks went out; that one carries the
  exception.
\<close>

theorem every_request_answered:
  assumes "serve_request H (Call u rq pl) sv = (rs, sv')"
  shows "\<exists>r. r_uid r = Some u \<and> (rs = [r] \<or>
    (rq = RETRIEVE \<and> r_frames r \<noteq> [] \<and> (\<exists>x. rs = [r, reply_exc (Some u) x])))"
proof (cases "rq = RETRIEVE")
  case True
  then show ?thesis
    using assms
    by (auto simp: serve_request_def mq_handle_def retrieve_result_def reply_ok_def reply_exc_def
        split: payload.splits prod.splits sum.splits hresult.splits if_splits)
next
  case False
  have plain: "\<exists>v. q = Inr (Plain v) \<or> (\<exists>x. q = Inl x)" if "the (handlers H rq) pl sv = (q, s)" for q s
    using False that
    by (cases rq) (auto simp: bool_result_def query_payload_of_def query_result_def split: payload.splits prod.splits sum.splits option.splits)
  obtain fn where fn: "handlers H rq = Some fn" using every_request_handled [of H rq] by auto
  obtain q s where q: "fn pl sv = (q, s)" by fastforce
  with plain fn obtain v where "q = Inr (Plain v) \<or> (\<exists>x. q = Inl x)" by fastforce
  with assms fn q show ?thesis
    by (auto simp: serve_request_def mq_handle_def reply_ok_def reply_exc_def)
qed

lemma every_request_answered_witness:
  "(let sv = demo_server Map.empty in
     \<exists>r. fst (serve_request demo_H (Call 3 GET_CHUNK_SIZE P_none) sv) = [r] \<and> r_uid r = Some 3)"
proof -
  obtain rs sv' where r: "serve_request demo_H (Call 3 GET_CHUNK_SIZE P_none) (demo_server Map.empty) = (rs, sv')"
    by fastforce
  from every_request_answered [OF r] r show ?thesis by (auto simp: Let_def)
qed

text \<open>
  A RETRIEVE of an empty range is answered with an error: a result without chunks is not taken for a
  chunk result, and a tuple with a callback cannot be pickled.
\<close>

theorem empty_retrieve_is_an_error:
  "fst (serve_request demo_H (Call 3 RETRIEVE (P_transfer (demo_pl\<lparr>tp_op := (tp_op demo_pl)\<lparr>op_end := 0\<rparr>\<rparr>)))
      (demo_server Map.empty)) = [reply_exc (Some 3) AttributeError]"
  by code_simp

text \<open>
  END_SESSION can be overtaken: every request is handled by a thread of its own, and when END_SESSION
  is handled before the LOOKUP sent ahead of it, the lookup opens a session nobody will end:
  the chunk it fetched stays held, and cannot be evicted.
\<close>

theorem overtaken_lookup_leaks_holds:
  "(let (r1, sv1) = serve_request demo_H (Call 1 END_SESSION (P_request ''r'')) (demo_server demo_pool_key);
        (r2, sv2) = serve_request demo_H (Call 0 LOOKUP (P_lookup demo_lookup)) sv1
    in r1 = [reply_ok 1 (PyVal (VBool True)) []] \<and> r2 = [reply_ok 0 (PyVal (VBool True)) []]
       \<and> (case prefetch_turn 1 (sv_sm sv2) of
            None \<Rightarrow> False
          | Some (r, s) \<Rightarrow> r = Inr () \<and> map_option read_count (entries (st_l1 s) demo_chunk) = Some 1
              \<and> \<not> is_evictable (st_l1 s) demo_chunk))"
  by code_simp

end
