(* ===== verification/Eviction.thy ===== *)
theory Eviction
  imports Storage
begin

text \<open>
  \<open>EvictionController\<close> of \<open>mini_llmcache/l1/eviction.py\<close>: one turn of its loop, with the
  watermark test and the ratio in exact rationals.
\<close>

definition WATERMARK :: rat where "WATERMARK = 4 / 5"

definition EVICTION_RATIO :: rat where "EVICTION_RATIO = 1 / 5"

text \<open>
  After the sleep: \<open>used / total\<close> raises when the pool has no byte; below the watermark
  nothing is done; otherwise the victims the policy names are deleted, without force.
\<close>

definition evict_turn :: "'k l1 \<Rightarrow> unit res \<times> 'k l1" where
  "evict_turn l =
     (case l1_usage l of
        (used, tot) \<Rightarrow>
          if tot = 0 then (Inl ZeroDivisionError, l)
          else if of_int used / of_nat tot < WATERMARK then (Inr (), l)
          else (case delete (get_victims EVICTION_RATIO (is_evictable l) (lru_order (listeners l)))
                       False l of
                  (Inl x, l') \<Rightarrow> (Inl x, l')
                | (Inr _, l') \<Rightarrow> (Inr (), l')))"

subsection \<open>Lemmas\<close>

lemma has_lru_order: "k \<in> set (lru_order ls) \<Longrightarrow> \<exists>order. LRUPolicy order \<in> set ls"
  by (induction ls rule: lru_order.induct) auto

text \<open>\<open>delete\<close> with everything it does: entries, listeners and usage.\<close>

lemma delete_full:
  assumes inv: "l1_inv {} l" and del: "delete keys force l = (r, l')"
  shows "r = Inr (card {k \<in> set keys. deletable force l k})"
    and "l1_inv {} l'"
    and "entries l' = (\<lambda>k. if k \<in> set keys \<and> deletable force l k then None else entries l k)"
    and "lru_order (listeners l') =
      filter (\<lambda>k. \<not> (k \<in> set keys \<and> deletable force l k)) (lru_order (listeners l))"
proof -
  from delete_loop_ok [OF inv, of force keys "[]"] obtain ds l1 where
    loop: "delete_loop force keys [] l = (Inr ds, l1)" and l1: "l1_inv {} l1"
    "listeners l1 = listeners l"
    "entries l1 = (\<lambda>k. if k \<in> set keys \<and> deletable force l k then None else entries l k)"
    and ds: "distinct ds" "set ds = {k \<in> set keys. deletable force l k}" by auto
  have l': "r = Inr (length ds)" "l' = (if ds \<noteq> [] then notify On_removed ds l1 else l1)"
    using del loop by (simp_all add: delete_def)
  show "r = Inr (card {k \<in> set keys. deletable force l k})"
    using l'(1) distinct_card [OF ds(1)] ds(2) by simp
  show "l1_inv {} l'" using l1(1) l'(2) by simp
  show "entries l' = (\<lambda>k. if k \<in> set keys \<and> deletable force l k then None else entries l k)"
    using l1(3) l'(2) by simp
  show "lru_order (listeners l') =
      filter (\<lambda>k. \<not> (k \<in> set keys \<and> deletable force l k)) (lru_order (listeners l))"
  proof (cases "ds = []")
    case True
    then have "\<not> (k \<in> set keys \<and> deletable force l k)" for k using ds(2) by auto
    with l'(2) l1(2) True show ?thesis by simp
  next
    case False
    have "listeners l' = map (handle On_removed ds) (listeners l)"
      using l'(2) l1(2) False by (simp add: notify_def)
    then have "lru_order (listeners l') = (if \<exists>order. LRUPolicy order \<in> set (listeners l)
        then filter (\<lambda>k. k \<notin> set ds) (lru_order (listeners l)) else [])"
      by (simp add: lru_order_notify lru_on_removed_eq)
    moreover have "\<not> (\<exists>order. LRUPolicy order \<in> set (listeners l)) \<Longrightarrow> lru_order (listeners l) = []"
      using has_lru_order by (metis list.set_intros(1) neq_Nil_conv)
    ultimately show ?thesis using ds(2) by (auto split: if_splits)
  qed
qed

lemma delete_usage:
  assumes inv: "l1_inv {} l" and del: "delete keys force l = (r, l')"
  shows "fst (l1_usage l') = fst (l1_usage l) -
    int (\<Sum>k \<in> {k \<in> set keys. deletable force l k}. mo_nbytes (en_obj (the (entries l k))))"
proof -
  let ?D = "{k \<in> set keys. deletable force l k}" and ?w = "\<lambda>es k. mo_nbytes (en_obj (the (es k)))"
  note full = delete_full [OF inv del]
  have fin: "finite (dom (entries l))" by (rule l1_inv_finite [OF inv])
  have sub: "?D \<subseteq> dom (entries l)" by (auto simp: deletable_def)
  have "(\<Sum>k \<in> dom (entries l'). ?w (entries l') k) = (\<Sum>k \<in> dom (entries l) - ?D. ?w (entries l) k)"
    unfolding full(3) by (rule sum.cong) (auto split: if_splits)
  moreover have "(\<Sum>k \<in> dom (entries l). ?w (entries l) k) =
      (\<Sum>k \<in> dom (entries l) - ?D. ?w (entries l) k) + (\<Sum>k \<in> ?D. ?w (entries l) k)"
    using sum.subset_diff [OF sub fin, of "?w (entries l)"] by simp
  ultimately show ?thesis
    using l1_inv_usage [OF inv] l1_inv_usage [OF full(2)] by simp
qed

subsection \<open>Properties\<close>

text \<open>
  C26. One turn of the evictor: below the watermark nothing happens; at or above it the coldest
  unlocked fifth of the recorded keys (at least one, as far as there are unlocked ones) leaves
  the cache and the LRU order and gives its memory back, and every other chunk stays: nothing
  that is write-locked or held for reading is ever removed.  When some recorded chunk is
  unlocked the usage goes down.
\<close>

theorem evict_turn_correct:
  assumes "l1_inv {} l" and "0 < snd (l1_usage l)" and "evict_turn l = (r, l')"
  shows "r = Inr () \<and> (if of_int (fst (l1_usage l)) / of_nat (snd (l1_usage l)) < (4 / 5 :: rat) then l' = l
    else (let order = lru_order (listeners l);
              victims = take (max 1 (nat \<lfloor>of_nat (length order) / (5 :: rat)\<rfloor>)) (filter (is_evictable l) order)
      in entries l' = (\<lambda>k. if k \<in> set victims then None else entries l k)
         \<and> lru_order (listeners l') = filter (\<lambda>k. k \<notin> set victims) order
         \<and> ((\<exists>k \<in> set order. is_evictable l k) \<longrightarrow> fst (l1_usage l') < fst (l1_usage l))))"
proof (cases "of_int (fst (l1_usage l)) / of_nat (snd (l1_usage l)) < (4 / 5 :: rat)")
  case True
  with assms(2,3) show ?thesis by (simp add: evict_turn_def WATERMARK_def split: prod.splits)
next
  case False
  define order where "order = lru_order (listeners l)"
  define victims where "victims = take (max 1 (nat \<lfloor>of_nat (length order) / (5 :: rat)\<rfloor>)) (filter (is_evictable l) order)"
  have vs: "get_victims EVICTION_RATIO (is_evictable l) order = victims"
    by (simp add: get_victims_eq victim_target_def EVICTION_RATIO_def victims_def)
  obtain q d where del: "delete victims False l = (q, d)" by fastforce
  note full = delete_full [OF assms(1) del]
  have run: "r = Inr () \<and> l' = d"
    using assms(2,3) False vs full(1) del
    by (simp add: evict_turn_def WATERMARK_def order_def split: prod.splits)
  have ev: "k \<in> set victims \<Longrightarrow> deletable False l k" for k
    using set_take_subset [of _ "filter (is_evictable l) order"]
    unfolding victims_def by (fastforce simp: deletable_def is_evictable_iff)
  then have D: "{k \<in> set victims. deletable False l k} = set victims" by blast
  have "fst (l1_usage l') < fst (l1_usage l)" if k: "k \<in> set order" "is_evictable l k" for k
  proof -
    have "victims \<noteq> []" using k unfolding victims_def by (auto simp: filter_empty_conv)
    then obtain v where v: "v \<in> set victims" by (meson list.set_sel(1))
    then obtain e where e: "entries l v = Some e" using ev by (fastforce simp: deletable_def)
    then have "0 < mo_nbytes (en_obj e)" using l1_inv_within [OF assms(1)] by blast
    also have "\<dots> \<le> (\<Sum>k \<in> set victims. mo_nbytes (en_obj (the (entries l k))))"
      using member_le_sum [of v "set victims" "\<lambda>k. mo_nbytes (en_obj (the (entries l k)))"] v e by simp
    finally show ?thesis using delete_usage [OF assms(1) del] run by (simp add: D del: of_nat_sum)
  qed
  moreover have "entries l' = (\<lambda>k. if k \<in> set victims then None else entries l k)"
    unfolding run [THEN conjunct2] full(3) using ev by (intro ext) auto
  moreover have "lru_order (listeners l') = filter (\<lambda>k. k \<notin> set victims) order"
    unfolding run [THEN conjunct2] full(4) order_def [symmetric] using ev by (intro filter_cong) auto
  ultimately show ?thesis
    unfolding Let_def order_def [symmetric] victims_def [symmetric] using run False by auto
qed

lemma evict_turn_correct_witness:
  "(let l = l1_run [Reserve_write [1, 2] 2 False, Finish_write [1, 2], Reserve_read [1 :: nat]]
        (register_listener (LRUPolicy []) (L1Manager (PoolAllocator [0, 0, 0, 0])));
      l' = snd (evict_turn l)
    in fst (l1_usage l') < fst (l1_usage l) \<and> entries l' 1 = entries l 1 \<and> entries l' 2 = None)"
proof -
  let ?cs = "[Reserve_write [1, 2] 2 False, Finish_write [1, 2], Reserve_read [1 :: nat]]"
  let ?l0 = "register_listener (LRUPolicy []) (L1Manager (PoolAllocator [0, 0, 0, 0]))"
  define l where "l = l1_run ?cs ?l0"
  have "l1_inv {} ?l0" by (simp add: l1_inv_init)
  then have inv: "l1_inv {} l" unfolding l_def using l1_inv_run [of "{}" ?l0 ?cs] by auto
  have vals: "l1_usage l = (4, 4)" "lru_order (listeners l) = [2, 1]" "is_evictable l 2" "\<not> is_evictable l 1"
    unfolding l_def by code_simp+
  obtain r l' where t: "evict_turn l = (r, l')" by fastforce
  have "0 < snd (l1_usage l)" by (simp add: vals)
  from evict_turn_correct [OF inv this t] vals
  have "fst (l1_usage l') < fst (l1_usage l) \<and> entries l' 1 = entries l 1 \<and> entries l' 2 = None"
    by auto
  with t show ?thesis unfolding Let_def l_def [symmetric] by simp
qed

end
