(* ===== verification/Server_Threads_Runs.thy ===== *)
theory Server_Threads_Runs
  imports Server_Threads_Laws Service Eviction
begin

text \<open>
  Executions of the threads of the server: the steps of one thread in a row, which give what the
  sequential handlers and controllers compute, and the properties of every interleaving.
\<close>

subsection \<open>One thread, several steps\<close>

text \<open>What is left of a task after the given steps, the storage, and the frames sent.\<close>

fun along :: "choice list \<Rightarrow> task \<Rightarrow> storage \<Rightarrow> (task \<times> exn + task option) \<times> storage \<times> byte list list" where
  "along [] task s = (Inr (Some task), s, [])"
| "along (ch # chs) task s =
     (case advance ch task s of
        (Inl x, s') \<Rightarrow> (Inl (task, x), s', frames task s)
      | (Inr None, s') \<Rightarrow> (Inr None, s', frames task s)
      | (Inr (Some task'), s') \<Rightarrow> (case along chs task' s' of (r, s'', fs) \<Rightarrow> (r, s'', frames task s @ fs)))"

lemma along_append:
  "along (chs @ chs') task s =
     (case along chs task s of
        (Inr (Some task'), s', fs) \<Rightarrow> (case along chs' task' s' of (r, s'', fs') \<Rightarrow> (r, s'', fs @ fs'))
      | (r, s', fs) \<Rightarrow> (r, s', fs))"
  by (induction chs task s rule: along.induct) (auto split: prod.splits sum.splits option.splits)

definition after_run :: "nat \<Rightarrow> (task \<times> exn + task option) \<times> storage \<times> byte list list \<Rightarrow> threads \<Rightarrow> threads" where
  "after_run t res c =
     (case res of (r, s, fs) \<Rightarrow> c\<lparr>shared := s,
        running := (running c)(t := (case r of Inl _ \<Rightarrow> None | Inr next \<Rightarrow> next)),
        raised_by := raised_by c @ (case r of Inl x \<Rightarrow> [x] | Inr _ \<Rightarrow> []),
        wire := wire c @ map (Pair t) fs\<rparr>)"

lemma run_ended: "running c t = None \<Longrightarrow> fold (run_thread t) chs c = c"
  by (induction chs) (simp_all add: run_thread_def)

text \<open>A thread that runs alone does what \<open>along\<close> says.\<close>

lemma along_runs:
  "running c t = Some task \<Longrightarrow> fold (run_thread t) chs c = after_run t (along chs task (shared c)) c"
proof (induction chs arbitrary: c task)
  case Nil
  then show ?case by (simp add: after_run_def fun_upd_idem)
next
  case (Cons ch chs)
  obtain r s where adv: "advance ch task (shared c) = (r, s)" by fastforce
  have step: "run_thread t ch c = after_run t
      (map_sum (Pair task) id r, s, frames task (shared c)) c"
    using Cons.prems adv by (cases r) (simp_all add: run_thread_def after_run_def)
  show ?case
  proof (cases "\<exists>task'. r = Inr (Some task')")
    case True
    then obtain task' where r: "r = Inr (Some task')" by blast
    let ?c = "run_thread t ch c"
    have "running ?c t = Some task'" "shared ?c = s" unfolding step r by (simp_all add: after_run_def)
    from Cons.IH [OF this(1)] this(2) have "fold (run_thread t) chs ?c = after_run t (along chs task' s) ?c" by simp
    then show ?thesis
      using adv r step by (auto simp: after_run_def split: prod.splits)
  next
    case False
    then have "running (run_thread t ch c) t = None" unfolding step
      by (cases r) (auto simp: after_run_def split: option.splits)
    from run_ended [OF this] False show ?thesis
      using adv step by (cases r) (auto simp: after_run_def split: option.splits)
  qed
qed

lemma runs_are_steps: "thread_step\<^sup>*\<^sup>* c (fold (run_thread t) chs c)"
proof (induction chs arbitrary: c)
  case Nil
  then show ?case by simp
next
  case (Cons ch chs)
  show ?case
  proof (cases "running c t = None")
    case True
    from run_ended [OF this, of "ch # chs"] show ?thesis by simp
  next
    case False
    from thread_step.advance [OF this, of ch] Cons.IH [of "run_thread t ch c"] show ?thesis
      by (simp add: converse_rtranclp_into_rtranclp)
  qed
qed

subsection \<open>Executions\<close>

text \<open>A schedule: who starts what, and which thread makes the next step.\<close>

datatype move = Spawn nat task | Run nat choice

fun play :: "move list \<Rightarrow> threads \<Rightarrow> threads option" where
  "play [] c = Some c"
| "play (Spawn t task # ms) c =
     (if running c t = None \<and> starts task then play ms (c\<lparr>running := (running c)(t \<mapsto> task)\<rparr>) else None)"
| "play (Run t ch # ms) c = play ms (run_thread t ch c)"

lemma play_Cons: "play (m # ms) c = (case play [m] c of None \<Rightarrow> None | Some c' \<Rightarrow> play ms c')"
  by (cases m) simp_all

lemma play_one: "play [m] c = Some c' \<Longrightarrow> c' = c \<or> thread_step c c'"
proof (cases m)
  case (Run t ch)
  assume "play [m] c = Some c'"
  with Run have c': "c' = run_thread t ch c" by simp
  show ?thesis
  proof (cases "running c t = None")
    case True
    with c' show ?thesis by (simp add: run_thread_def)
  next
    case False
    from thread_step.advance [OF this] c' show ?thesis by simp
  qed
qed (auto split: if_splits intro: thread_step.spawn)

lemma play_reaches: "play ms c = Some c' \<Longrightarrow> thread_step\<^sup>*\<^sup>* c c'"
proof (induction ms arbitrary: c)
  case Nil
  then show ?case by simp
next
  case (Cons m ms)
  from Cons.prems obtain c1 where c1: "play [m] c = Some c1" "play ms c1 = Some c'"
    unfolding play_Cons [of m ms] by (auto split: option.splits)
  from play_one [OF c1(1)] Cons.IH [OF c1(2)] show ?case by (metis converse_rtranclp_into_rtranclp)
qed

text \<open>A schedule after each move of which the session still holds the chunk.\<close>

fun keeps :: "string \<Rightarrow> chunk_key \<Rightarrow> move list \<Rightarrow> threads \<Rightarrow> bool" where
  "keeps rid k [] c = True"
| "keeps rid k (m # ms) c =
     (case play [m] c of None \<Rightarrow> False | Some c' \<Rightarrow> k \<in> set (held_of rid (shared c')) \<and> keeps rid k ms c')"

lemma keeps_run: "keeps rid k ms c \<Longrightarrow> play ms c = Some c' \<Longrightarrow> (keeping_step rid k)\<^sup>*\<^sup>* c c'"
proof (induction ms arbitrary: c)
  case Nil
  then show ?case by simp
next
  case (Cons m ms)
  from Cons.prems obtain c1 where c1: "play [m] c = Some c1" "play ms c1 = Some c'"
    "k \<in> set (held_of rid (shared c1))" "keeps rid k ms c1"
    unfolding play_Cons [of m ms] by (auto split: option.splits)
  from play_one [OF c1(1)] c1(3) have "c1 = c \<or> keeping_step rid k c c1" by (simp add: keeping_step_def)
  with Cons.IH [OF c1(4,2)] show ?case by (metis converse_rtranclp_into_rtranclp)
qed

text \<open>A schedule none of whose steps leaves a lock behind.\<close>

fun leak_free :: "move list \<Rightarrow> threads \<Rightarrow> bool" where
  "leak_free [] c = True"
| "leak_free (Spawn t task # ms) c = (case play [Spawn t task] c of None \<Rightarrow> False | Some c' \<Rightarrow> leak_free ms c')"
| "leak_free (Run t ch # ms) c =
     ((case running c t of None \<Rightarrow> True | Some task \<Rightarrow> \<not> leaks ch task (shared c)) \<and> leak_free ms (run_thread t ch c))"

lemma leak_free_run: "leak_free ms c \<Longrightarrow> play ms c = Some c' \<Longrightarrow> clean_step\<^sup>*\<^sup>* c c'"
proof (induction ms c rule: leak_free.induct)
  case (1 c)
  then show ?case by simp
next
  case (2 t task ms c)
  let ?c = "c\<lparr>running := (running c)(t \<mapsto> task)\<rparr>"
  from "2.prems"(2) have "running c t = None" "starts task" by (simp_all split: if_splits)
  moreover from this 2 have "clean_step\<^sup>*\<^sup>* ?c c'" by simp
  ultimately show ?case by (metis clean_spawn converse_rtranclp_into_rtranclp)
next
  case (3 t ch ms c)
  then have rest: "clean_step\<^sup>*\<^sup>* (run_thread t ch c) c'" by simp
  show ?case
  proof (cases "running c t")
    case None
    with rest show ?thesis by (simp add: run_thread_def)
  next
    case (Some task)
    with "3.prems"(1) have "clean_step c (run_thread t ch c)" by (auto intro: clean_advance)
    with rest show ?thesis by (rule converse_rtranclp_into_rtranclp [rotated])
  qed
qed

subsection \<open>Handlers end\<close>

text \<open>What the thread of a request can be doing, and the steps it still makes at most.\<close>

fun is_handler :: "task \<Rightarrow> bool" where
  "is_handler (Reject x) = True"
| "is_handler (Lookup_start rid keys n) = True"
| "is_handler (Lookup_put rid keys n) = True"
| "is_handler (Store_reserve keys n chunks) = True"
| "is_handler (Store_write plan written) = True"
| "is_handler (Retrieve_read rid keys world_size) = True"
| "is_handler (Retrieve_send rid keys objs) = True"
| "is_handler (Retrieve_promote rid keys) = True"
| "is_handler (Free_first rid num) = True"
| "is_handler (Release rid keys ending) = True"
| "is_handler (Release_finish ks next) = (case next of None \<Rightarrow> True | Some task \<Rightarrow> \<exists>rid. task = End_pop rid)"
| "is_handler (End_pop rid) = True"
| "is_handler _ = False"

fun steps_left :: "task \<Rightarrow> nat" where
  "steps_left (Lookup_start rid keys n) = 2"
| "steps_left (Store_reserve keys n chunks) = length keys + 2"
| "steps_left (Store_write plan written) = length plan + 1"
| "steps_left (Retrieve_read rid keys world_size) = length keys + 5"
| "steps_left (Retrieve_send rid keys objs) = length objs + 4"
| "steps_left (Retrieve_promote rid keys) = 3"
| "steps_left (Free_first rid num) = 3"
| "steps_left (Release rid keys ending) = (if ending then 3 else 2)"
| "steps_left (Release_finish ks next) = (case next of None \<Rightarrow> 1 | Some _ \<Rightarrow> 2)"
| "steps_left _ = 1"

lemma length_store_plan: "length (store_plan reserved chunks i keys) \<le> length keys"
  by (induction keys arbitrary: i) (auto split: option.splits intro: le_SucI)

lemma length_read: "read keys l = Inr objs \<Longrightarrow> length objs = length keys"
proof -
  have "read_loop l keys = Inr objs \<Longrightarrow> length objs = length keys" for objs
    by (induction keys arbitrary: objs) (auto split: option.splits sum.splits)
  then show "read keys l = Inr objs \<Longrightarrow> length objs = length keys" by (simp add: read_def)
qed

lemma handler_advances:
  assumes "is_handler task" and "advance ch task s = (Inr (Some task'), s')"
  shows "is_handler task' \<and> steps_left task' < steps_left task"
proof (cases task)
  case (Store_write plan written)
  then show ?thesis using assms
    by (cases plan) (auto simp: with_l1_def split: prod.splits sum.splits)
next
  case (Retrieve_send rid keys objs)
  then show ?thesis using assms by (cases objs) auto
next
  case (Store_reserve keys n chunks)
  with assms show ?thesis
    using length_store_plan by (auto simp: on_l1_def Let_def le_imp_less_Suc split: prod.splits)
qed (use assms in \<open>auto simp: with_l1_def on_l1_def length_read split: prod.splits sum.splits option.splits if_splits\<close>)

lemma ended_stays:
  "running c t = None \<Longrightarrow> play ms c = Some c' \<Longrightarrow> \<forall>task. Spawn t task \<notin> set ms \<Longrightarrow> running c' t = None"
proof (induction ms arbitrary: c)
  case Nil
  then show ?case by simp
next
  case (Cons m ms)
  from Cons.prems(2) obtain c1 where c1: "play [m] c = Some c1" "play ms c1 = Some c'"
    unfolding play_Cons [of m ms] by (auto split: option.splits)
  from c1(1) Cons.prems(1,3) have "running c1 t = None"
    by (cases m) (auto simp: run_thread_def split: if_splits option.splits prod.splits)
  with Cons.IH c1(2) Cons.prems(3) show ?case by simp
qed

lemma handler_ends:
  "running c t = Some task \<Longrightarrow> is_handler task \<Longrightarrow> play ms c = Some c' \<Longrightarrow> \<forall>task. Spawn t task \<notin> set ms \<Longrightarrow>
   (case running c' t of None \<Rightarrow> True
    | Some task' \<Rightarrow> is_handler task' \<and> steps_left task' + length (filter (\<lambda>m. \<exists>ch. m = Run t ch) ms) \<le> steps_left task)"
proof (induction ms arbitrary: c task)
  case Nil
  then show ?case by auto
next
  case (Cons m ms)
  from Cons.prems(3) obtain c1 where c1: "play [m] c = Some c1" "play ms c1 = Some c'"
    unfolding play_Cons [of m ms] by (auto split: option.splits)
  have spawn: "\<forall>task. Spawn t task \<notin> set ms" using Cons.prems(4) by simp
  show ?case
  proof (cases "\<exists>ch. m = Run t ch")
    case False
    with c1(1) Cons.prems(1,4) have "running c1 t = Some task"
      by (cases m) (auto simp: run_thread_def split: if_splits option.splits prod.splits)
    from Cons.IH [OF this Cons.prems(2) c1(2) spawn] False show ?thesis by (simp split: option.splits)
  next
    case True
    then obtain ch where m: "m = Run t ch" by blast
    obtain r s where adv: "advance ch task (shared c) = (r, s)" by fastforce
    have now: "running c1 t = (case r of Inl _ \<Rightarrow> None | Inr next \<Rightarrow> next)"
      using c1(1) m Cons.prems(1) adv by (auto simp: run_thread_def)
    show ?thesis
    proof (cases "\<exists>task'. r = Inr (Some task')")
      case True
      then obtain task' where task': "r = Inr (Some task')" by blast
      from handler_advances [OF Cons.prems(2) adv [unfolded task']]
      have h: "is_handler task'" "steps_left task' < steps_left task" by simp_all
      have "running c1 t = Some task'" using now task' by simp
      from Cons.IH [OF this h(1) c1(2) spawn] h(2) m show ?thesis by (auto split: option.splits)
    next
      case False
      then have "running c1 t = None" using now by (auto split: sum.splits option.splits)
      from ended_stays [OF this c1(2) spawn] have "running c' t = None" .
      then show ?thesis by simp
    qed
  qed
qed

subsection \<open>Requests\<close>

text \<open>
  The thread of a request: what its handler does once it has computed the keys.  A request without one
  leaves the storage alone: it registers an engine, asks for a result, or has a payload of another class.
\<close>

definition transfer_keys :: "(byte list \<Rightarrow> byte list) \<Rightarrow> transfer_payload \<Rightarrow> server
    \<Rightarrow> (engine_instance \<times> chunk_key list) res" where
  "transfer_keys H pl sv =
     (case sv_instances sv (tp_instance_id pl) of
        None \<Rightarrow> Inl KeyError
      | Some inst \<Rightarrow> (case op_keys H (tp_op pl) inst sv of Inl x \<Rightarrow> Inl x | Inr keys \<Rightarrow> Inr (inst, keys)))"

fun request_task :: "(byte list \<Rightarrow> byte list) \<Rightarrow> req \<Rightarrow> payload \<Rightarrow> server \<Rightarrow> task option" where
  "request_task H LOOKUP (P_lookup pl) sv =
     (case sv_deployments sv (lp_model pl, lp_world_size pl) of
        None \<Rightarrow> Some (Lookup_start (lp_request_id pl) [] None)
      | Some n \<Rightarrow>
          (case chunk_hashes H (lp_token_ids pl) (sv_chunk_size sv) of
             Inl x \<Rightarrow> Some (Reject x)
           | Inr hashes \<Rightarrow> Some (Lookup_start (lp_request_id pl)
               (keys_for hashes (lp_model pl) (ranks_upto (lp_world_size pl))) (Some n))))"
| "request_task H STORE (P_transfer pl) sv =
     (case transfer_keys H pl sv of
        Inl x \<Rightarrow> Some (Reject x)
      | Inr (inst, keys) \<Rightarrow> Some (Store_reserve keys (ei_chunk_nbytes inst) (tp_chunks pl)))"
| "request_task H RETRIEVE (P_transfer pl) sv =
     (case transfer_keys H pl sv of
        Inl x \<Rightarrow> Some (Reject x)
      | Inr (inst, keys) \<Rightarrow> Some (Retrieve_read (tp_request_id pl) keys (ei_world_size inst)))"
| "request_task H FREE_LOOKUP_LOCKS (P_free_locks pl) sv =
     Some (Free_first (fp_request_id pl) (fp_num_chunks pl * fp_world_size pl))"
| "request_task H END_SESSION (P_request rid) sv = Some (Release rid None True)"
| "request_task H _ _ sv = None"

text \<open>A thread that ended without an exception, or with the one of the handler.\<close>

fun ends_as :: "'a res \<Rightarrow> task \<times> exn + task option \<Rightarrow> bool" where
  "ends_as (Inr _) r = (r = Inr None)"
| "ends_as (Inl x) r = (\<exists>task. r = Inl (task, x))"

lemma run_finish:
  "finish_read ks (st_l1 s) = (r, l) \<Longrightarrow>
   \<exists>r'. along [Go] (Release_finish ks None) s = (r', s\<lparr>st_l1 := l\<rparr>, []) \<and> ends_as r r'"
  by (cases r) (simp_all add: with_l1_def)

lemma release_parts:
  "release rid keys s =
     (case take_held rid keys s of
        (Inl x, s') \<Rightarrow> (Inl x, s')
      | (Inr ks, s') \<Rightarrow> (case finish_read ks (st_l1 s') of (r, l) \<Rightarrow> (r, s'\<lparr>st_l1 := l\<rparr>)))"
proof -
  have "st_l1 (set_held rid h s) = st_l1 s" for h by (simp add: set_held_def)
  then show ?thesis by (auto simp: release_def take_held_def Let_def split: prod.splits sum.splits)
qed

lemma run_release:
  assumes "release rid keys s = (r, s')"
  shows "\<exists>r'. along (replicate 2 Go) (Release rid keys False) s = (r', s', []) \<and> ends_as r r'"
proof (cases "take_held rid keys s")
  case (Pair q s1)
  with assms show ?thesis
    by (cases q; cases r) (auto simp: release_parts with_l1_def numeral_2_eq_2 split: prod.splits)
qed

lemma run_end_session:
  assumes "end_session rid s = (r, s')"
  shows "\<exists>r'. along (replicate 3 Go) (Release rid None True) s = (r', s', []) \<and> ends_as r r'"
proof (cases "take_held rid None s")
  case (Pair q s1)
  with assms show ?thesis
    by (cases q; cases r)
      (auto simp: end_session_def release_parts with_l1_def numeral_3_eq_3 split: prod.splits sum.splits)
qed

lemma run_writes:
  "write_blobs plan (allocator (st_l1 s)) = (r, p) \<Longrightarrow>
   (case r of
      Inl x \<Rightarrow> \<exists>task. along (replicate (length plan) Go @ chs) (Store_write plan ks) s =
        (Inl (task, x), s\<lparr>st_l1 := set_pool p (st_l1 s)\<rparr>, [])
    | Inr _ \<Rightarrow> along (replicate (length plan) Go @ chs) (Store_write plan ks) s =
        along chs (Store_write [] ks) (s\<lparr>st_l1 := set_pool p (st_l1 s)\<rparr>))"
proof (induction plan arbitrary: s)
  case Nil
  then show ?case by (auto simp: set_pool_def)
next
  case (Cons w plan)
  obtain ob blob where w: "w = (ob, blob)" by fastforce
  show ?case
  proof (cases "write_obj ob blob (allocator (st_l1 s))")
    case (Inl x)
    with Cons.prems show ?thesis by (auto simp: w set_pool_def)
  next
    case (Inr p1)
    let ?s = "s\<lparr>st_l1 := set_pool p1 (st_l1 s)\<rparr>"
    have "write_blobs plan (allocator (st_l1 ?s)) = (r, p)" using Cons.prems Inr by (simp add: w set_pool_def)
    from Cons.IH [OF this] Inr show ?thesis
      by (cases r) (auto simp: w set_pool_def)
  qed
qed

lemma run_store:
  assumes "transfer_keys H pl sv = Inr (inst, keys)" and "store H pl sv = (r, sv')"
  shows "\<exists>n r'. along (replicate n Go) (Store_reserve keys (ei_chunk_nbytes inst) (tp_chunks pl)) (sv_sm sv) =
    (r', sv_sm sv', []) \<and> ends_as r r'"
proof -
  let ?s = "sv_sm sv"
  obtain reserved l where rw: "reserve_write keys (ei_chunk_nbytes inst) False (st_l1 ?s) = (reserved, l)" by fastforce
  let ?plan = "store_plan reserved (tp_chunks pl) 0 keys"
  obtain q p where wb: "write_blobs (map snd ?plan) (allocator l) = (q, p)" by fastforce
  obtain f l2 where fw: "finish_write (map fst ?plan) (set_pool p l) = (f, l2)" by fastforce
  have first: "along (Go # chs) (Store_reserve keys (ei_chunk_nbytes inst) (tp_chunks pl)) ?s =
      along chs (Store_write (map snd ?plan) (map fst ?plan)) (?s\<lparr>st_l1 := l\<rparr>)" for chs
    using rw by (auto simp: on_l1_def Let_def split: prod.splits)
  have run: "along (replicate (Suc (length ?plan + 1)) Go)
      (Store_reserve keys (ei_chunk_nbytes inst) (tp_chunks pl)) ?s =
      along (replicate (length (map snd ?plan)) Go @ [Go]) (Store_write (map snd ?plan) (map fst ?plan)) (?s\<lparr>st_l1 := l\<rparr>)"
    unfolding replicate_Suc first replicate_add by simp
  have "write_blobs (map snd ?plan) (allocator (st_l1 (?s\<lparr>st_l1 := l\<rparr>))) = (q, p)" using wb by simp
  note writes = run_writes [OF this, of "[Go]" "map fst ?plan"]
  have "\<exists>r'. along (replicate (Suc (length ?plan + 1)) Go)
      (Store_reserve keys (ei_chunk_nbytes inst) (tp_chunks pl)) ?s = (r', sv_sm sv', []) \<and> ends_as r r'"
    unfolding run using writes assms rw wb fw
    by (cases q; cases f) (auto simp: transfer_keys_def store_def set_l1_def with_l1_def Let_def split: option.splits sum.splits)
  then show ?thesis by blast
qed

lemma run_send:
  "along (replicate (length objs) Go @ chs) (Retrieve_send rid keys objs) s =
     (case along chs (Retrieve_send rid keys []) s of
        (r, s', fs) \<Rightarrow> (r, s', map (read_obj (allocator (st_l1 s))) objs @ fs))"
  by (induction objs) (auto split: prod.splits)

lemma run_retrieve:
  assumes "transfer_keys H pl sv = Inr (inst, keys)"
  shows "case retrieve H pl sv of
      Inl x \<Rightarrow> \<exists>task. along [Go] (Retrieve_read (tp_request_id pl) keys (ei_world_size inst)) (sv_sm sv) = (Inl (task, x), sv_sm sv, [])
    | Inr (objs, keys') \<Rightarrow> keys' = keys \<and>
        (if objs = [] then along [Go] (Retrieve_read (tp_request_id pl) keys (ei_world_size inst)) (sv_sm sv) = (Inr None, sv_sm sv, [])
         else case post_send (tp_request_id pl) keys sv of
            (r, sv') \<Rightarrow> \<exists>n r'. along (replicate n Go) (Retrieve_read (tp_request_id pl) keys (ei_world_size inst)) (sv_sm sv) =
              (r', sv_sm sv', sent_chunks objs sv) \<and> ends_as r r')"
proof (cases "read keys (st_l1 (sv_sm sv))")
  case (Inl x)
  with assms show ?thesis by (auto simp: transfer_keys_def retrieve_def split: option.splits sum.splits)
next
  case (Inr objs)
  let ?rid = "tp_request_id pl" and ?s = "sv_sm sv"
  have ret: "retrieve H pl sv = (if ei_world_size inst = 0 then Inl ZeroDivisionError else Inr (objs, keys))"
    using assms Inr by (auto simp: transfer_keys_def retrieve_def split: option.splits sum.splits)
  show ?thesis
  proof (cases "ei_world_size inst = 0 \<or> objs = []")
    case True
    with ret Inr show ?thesis by auto
  next
    case False
    obtain r s' where rel: "release ?rid (Some keys) (?s\<lparr>st_l1 := promote keys (st_l1 ?s)\<rparr>) = (r, s')" by fastforce
    from run_release [OF rel] obtain r' where
      r': "along (replicate 2 Go) (Release ?rid (Some keys) False) (?s\<lparr>st_l1 := promote keys (st_l1 ?s)\<rparr>) = (r', s', [])"
      "ends_as r r'" by blast
    have "along (Go # replicate (length objs) Go @ (Go # Go # replicate 2 Go)) (Retrieve_read ?rid keys (ei_world_size inst)) ?s =
        (r', s', sent_chunks objs sv)"
      using Inr False r'(1) unfolding along.simps(2) [of Go "replicate (length objs) Go @ (Go # Go # replicate 2 Go)"]
      by (simp add: run_send sent_chunks_def)
    moreover have "Go # replicate (length objs) Go @ (Go # Go # replicate 2 Go) = replicate (length objs + 5) Go"
      by (simp add: replicate_add [symmetric] replicate_append_same numeral_2_eq_2 flip: replicate_Suc)
    ultimately have "along (replicate (length objs + 5) Go) (Retrieve_read ?rid keys (ei_world_size inst)) ?s =
        (r', s', sent_chunks objs sv)"
      by simp
    with ret False rel r'(2) show ?thesis by (auto simp: post_send_def)
  qed
qed

lemma run_lookup:
  assumes "request_task H LOOKUP (P_lookup pl) sv = Some task" and "lookup H pl sv = (r, sv')"
  shows "\<exists>r'. along (replicate 2 Go) task (sv_sm sv) = (r', sv_sm sv', []) \<and> ends_as r r'"
  using assms
  by (auto simp: lookup_def start_session_def numeral_2_eq_2 split: option.splits sum.splits)

definition request_ends :: "nat \<Rightarrow> plain reply list \<Rightarrow> task \<times> exn + task option \<Rightarrow> bool" where
  "request_ends u rs r \<longleftrightarrow> r = Inr None \<or> (\<exists>task x. r = Inl (task, x) \<and> last rs = reply_exc (Some u) x)"

lemma run_bool_handler:
  assumes "mq_handle hs (Call u rq p) sv = (rs, sv')" and "hs rq = Some fn" and "fn p sv = bool_result (r, sv1)"
    and "along chs task (sv_sm sv) = (r', sv_sm sv1, [])" and "ends_as r r'"
  shows "along chs task (sv_sm sv) = (r', sv_sm sv', concat (map r_frames rs)) \<and> request_ends u rs r'"
  using assms
  by (cases r) (auto simp: mq_handle_def bool_result_def reply_ok_def reply_exc_def request_ends_def)

lemma run_request:
  assumes serve: "serve_request H (Call u rq pl) sv = (rs, sv')" and task: "request_task H rq pl sv = Some task"
  shows "\<exists>n r. along (replicate n Go) task (sv_sm sv) = (r, sv_sm sv', concat (map r_frames rs)) \<and> request_ends u rs r"
proof -
  note serve' = serve [unfolded serve_request_def]
  have handled: "handlers H rq = Some (the (handlers H rq))" using every_request_handled [of H rq] by auto
  from task consider
      (Lookup) q where "rq = LOOKUP" "pl = P_lookup q"
    | (Store) q where "rq = STORE" "pl = P_transfer q"
    | (Retrieve) q where "rq = RETRIEVE" "pl = P_transfer q"
    | (Free) q where "rq = FREE_LOOKUP_LOCKS" "pl = P_free_locks q"
    | (End) rid where "rq = END_SESSION" "pl = P_request rid"
    by (cases rq; cases pl) simp_all
  then show ?thesis
  proof cases
    case Lookup
    obtain r sv1 where l: "lookup H q sv = (r, sv1)" by fastforce
    from run_lookup [OF _ l] task Lookup obtain r' where
      "along (replicate 2 Go) task (sv_sm sv) = (r', sv_sm sv1, [])" "ends_as r r'" by blast
    moreover have "the (handlers H rq) pl sv = bool_result (r, sv1)" using l Lookup by simp
    ultimately show ?thesis using run_bool_handler [OF serve' handled] by blast
  next
    case Store
    obtain r sv1 where l: "store H q sv = (r, sv1)" by fastforce
    have "\<exists>n r'. along (replicate n Go) task (sv_sm sv) = (r', sv_sm sv1, []) \<and> ends_as r r'"
    proof (cases "transfer_keys H q sv")
      case (Inl x)
      with task Store l show ?thesis
        by (intro exI [of _ "Suc 0"]) (auto simp: transfer_keys_def store_def split: option.splits sum.splits)
    next
      case (Inr p)
      with task Store run_store [OF _ l] show ?thesis by (cases p) auto
    qed
    moreover have "the (handlers H rq) pl sv = bool_result (r, sv1)" using l Store by simp
    ultimately show ?thesis using run_bool_handler [OF serve' handled] by blast
  next
    case Free
    obtain r s1 where l: "release_first (fp_request_id q) (fp_num_chunks q * fp_world_size q) (sv_sm sv) = (r, s1)"
      by fastforce
    from run_release [OF l [unfolded release_first_def]] obtain r' where
      r': "along (replicate 2 Go) (Release (fp_request_id q)
        (Some (take (fp_num_chunks q * fp_world_size q) (held_of (fp_request_id q) (sv_sm sv)))) False) (sv_sm sv) = (r', s1, [])"
      "ends_as r r'" by blast
    let ?sv = "sv\<lparr>sv_sm := s1\<rparr>"
    have t: "task = Free_first (fp_request_id q) (fp_num_chunks q * fp_world_size q)" using task Free by simp
    have three: "replicate 3 Go = Go # replicate 2 Go" by (simp add: numeral_3_eq_3 numeral_2_eq_2)
    have "along (replicate 3 Go) task (sv_sm sv) = (r', sv_sm ?sv, [])"
      unfolding three along.simps(2) [of Go "replicate 2 Go"] t using r'(1) by simp
    moreover have "free_locks q sv = (map_sum id (\<lambda>_. True) r, ?sv)"
      using l by (cases r) (simp_all add: free_locks_def)
    then have "the (handlers H rq) pl sv = bool_result (map_sum id (\<lambda>_. True) r, ?sv)" using Free by simp
    moreover have "ends_as (map_sum id (\<lambda>_. True) r) r'" using r'(2) by (cases r) simp_all
    ultimately show ?thesis using run_bool_handler [OF serve' handled] by blast
  next
    case End
    obtain r s1 where l: "end_session rid (sv_sm sv) = (r, s1)" by fastforce
    from run_end_session [OF l] End task obtain r' where
      r': "along (replicate 3 Go) task (sv_sm sv) = (r', s1, [])" "ends_as r r'" by auto
    let ?sv = "sv\<lparr>sv_sm := s1\<rparr>"
    have "server_end_session rid sv = (map_sum id (\<lambda>_. True) r, ?sv)"
      using l by (cases r) (simp_all add: server_end_session_def)
    then have "the (handlers H rq) pl sv = bool_result (map_sum id (\<lambda>_. True) r, ?sv)" using End by simp
    moreover have "ends_as (map_sum id (\<lambda>_. True) r) r'" using r'(2) by (cases r) simp_all
    moreover have "along (replicate 3 Go) task (sv_sm sv) = (r', sv_sm ?sv, [])" using r'(1) by simp
    ultimately show ?thesis using run_bool_handler [OF serve' handled] by blast
  next
    case Retrieve
    have h: "handlers H rq = Some (\<lambda>p sv. case p of P_transfer pl \<Rightarrow> retrieve_result H pl sv | _ \<Rightarrow> (Inl AttributeError, sv))"
      using Retrieve by simp
    show ?thesis
    proof (cases "transfer_keys H q sv")
      case (Inl x)
      then have "retrieve H q sv = Inl x" by (auto simp: transfer_keys_def retrieve_def split: option.splits sum.splits)
      with serve' h Retrieve have "rs = [reply_exc (Some u) x]" "sv' = sv"
        by (simp_all add: mq_handle_def retrieve_result_def)
      with task Retrieve Inl show ?thesis
        by (intro exI [of _ "Suc 0"]) (auto simp: request_ends_def reply_exc_def)
    next
      case (Inr p)
      then obtain inst keys where k: "transfer_keys H q sv = Inr (inst, keys)" by (cases p) simp
      with task Retrieve have t: "task = Retrieve_read (tp_request_id q) keys (ei_world_size inst)" by simp
      note run = run_retrieve [OF k, folded t]
      show ?thesis
      proof (cases "retrieve H q sv")
        case (Inl x)
        with serve' h Retrieve have "rs = [reply_exc (Some u) x]" "sv' = sv"
          by (simp_all add: mq_handle_def retrieve_result_def)
        moreover from run Inl obtain tk where "along [Go] task (sv_sm sv) = (Inl (tk, x), sv_sm sv, [])" by auto
        ultimately show ?thesis by (intro exI [of _ "Suc 0"]) (auto simp: request_ends_def reply_exc_def)
      next
        case (Inr p)
        then obtain objs where ret: "retrieve H q sv = Inr (objs, keys)" using run by (cases p) auto
        show ?thesis
        proof (cases "objs = []")
          case True
          with ret serve' h Retrieve have "rs = [reply_exc (Some u) AttributeError]" "sv' = sv"
            by (simp_all add: mq_handle_def retrieve_result_def sent_chunks_def)
          moreover have "along [Go] task (sv_sm sv) = (Inr None, sv_sm sv, [])" using run ret True by simp
          ultimately show ?thesis by (intro exI [of _ "Suc 0"]) (auto simp: request_ends_def reply_exc_def)
        next
          case False
          obtain r sv1 where ps: "post_send (tp_request_id q) keys sv = (r, sv1)" by fastforce
          from run ret False ps obtain n r' where
            "along (replicate n Go) task (sv_sm sv) = (r', sv_sm sv1, sent_chunks objs sv)" "ends_as r r'" by auto
          with ret False serve' h Retrieve ps show ?thesis
            by (intro exI [of _ n] exI [of _ r'], cases r)
              (auto simp: mq_handle_def retrieve_result_def sent_chunks_def reply_ok_def reply_exc_def request_ends_def)
        qed
    qed
    qed
  qed
qed

lemma no_task_no_change:
  assumes "serve_request H (Call u rq pl) sv = (rs, sv')" and "request_task H rq pl sv = None"
  shows "sv_sm sv' = sv_sm sv"
  using assms
  by (cases rq; cases pl)
    (auto simp: serve_request_def mq_handle_def bool_result_def lookup_def store_def retrieve_result_def retrieve_def
      transfer_keys_def register_def unregister_def query_payload_of_def query_result_def Let_def split: option.splits sum.splits prod.splits hresult.splits if_splits)

subsection \<open>The turns of the background threads\<close>

lemma run_resolve:
  assumes "resolve rid l1_keys loaded_keys gbps s = (Inr (), s')"
  shows "\<exists>n. along (replicate n Go) (Prefetch_resolve rid l1_keys loaded_keys (Inr gbps)) s = (Inr (Some Prefetch_get), s', [])"
proof (cases "st_hits s rid = None")
  case False
  with assms show ?thesis by (intro exI [of _ "Suc 0"]) (auto simp: resolve_def publish_def)
next
  case True
  with assms show ?thesis
    by (intro exI [of _ "Suc (Suc 0)"]) (auto simp: resolve_def publish_def with_l1_def split: prod.splits sum.splits)
qed

text \<open>Steps of a task that only write into the pool.\<close>

definition fills :: "task \<Rightarrow> choice list \<Rightarrow> pool \<Rightarrow> pool \<Rightarrow> bool" where
  "fills task chs p p' \<longleftrightarrow> (\<forall>chs' s. allocator (st_l1 s) = p \<longrightarrow>
     along (chs @ chs') task s = along chs' task (s\<lparr>st_l1 := set_pool p' (st_l1 s)\<rparr>))"

lemma fills_Nil: "fills task [] p p"
  by (auto simp: fills_def set_pool_def)

lemma fills_append: "fills task chs p p1 \<Longrightarrow> fills task chs1 p1 p2 \<Longrightarrow> fills task (chs @ chs1) p p2"
  unfolding fills_def by (auto simp: set_pool_def)

lemma fills_slot:
  assumes "drop i objs = ob # rest" and "write_obj ob data p = Inr p'"
  shows "fills (Prefetch_load rid l1_keys cn load_keys objs) [Fill i data] p p'"
proof -
  have "i < length objs" using assms(1) by (metis drop_all linorder_not_less list.distinct(1))
  moreover from this assms(1) have "objs ! i = ob" by (metis list.sel(1) hd_drop_conv_nth)
  ultimately show ?thesis using assms(2) by (auto simp: fills_def split: prod.splits)
qed

lemma fills_front:
  assumes "drop i objs = ob # rest" and "readinto ob data p = (n, p')"
  shows "fills (Prefetch_load rid l1_keys cn load_keys objs) [Fill_front i data] p p'"
proof -
  have "i < length objs" using assms(1) by (metis drop_all linorder_not_less list.distinct(1))
  moreover from this assms(1) have "objs ! i = ob" by (metis list.sel(1) hd_drop_conv_nth)
  ultimately show ?thesis using assms(2) by (auto simp: fills_def split: prod.splits)
qed

lemma drop_next: "drop i xs = y # ys \<Longrightarrow> drop (Suc i) xs = ys"
  by (metis drop_Suc list.sel(3) tl_drop)

lemma mock_fills:
  "mock_load_loop keys os m k p = (Inr n, p') \<Longrightarrow> drop i objs = os \<Longrightarrow>
   \<exists>chs. fills (Prefetch_load rid l1_keys cn load_keys objs) chs p p'"
proof (induction keys os m k p arbitrary: i rule: mock_load_loop.induct)
  case (1 key keys ob os m k p)
  show ?case
  proof (cases "m key")
    case None
    with 1(2) show ?thesis by (auto intro: fills_Nil)
  next
    case (Some data)
    with 1(2) obtain p1 where p1: "write_obj ob data p = Inr p1" "mock_load_loop keys os m (Suc k) p1 = (Inr n, p')"
      by (auto split: sum.splits)
    from 1(1) [OF Some p1(1,2) drop_next [OF 1(3)]] fills_slot [OF 1(3) p1(1)] show ?thesis
      by (meson fills_append)
  qed
qed (auto intro: fills_Nil)

lemma fs_fills:
  "fs_load_loop keys os d k p = (n, p') \<Longrightarrow> drop i objs = os \<Longrightarrow>
   \<exists>chs. fills (Prefetch_load rid l1_keys cn load_keys objs) chs p p'"
proof (induction keys os d k p arbitrary: i rule: fs_load_loop.induct)
  case (1 key keys ob os d k p)
  show ?case
  proof (cases "fs_base d (filename key)")
    case None
    with 1(2) show ?thesis by (auto intro: fills_Nil)
  next
    case (Some data)
    obtain m p1 where r: "readinto ob data p = (m, p1)" by fastforce
    note first = fills_front [OF 1(3) r, of rid l1_keys cn load_keys]
    show ?thesis
    proof (cases "m = mo_nbytes ob")
      case False
      with 1(2) Some r first show ?thesis by auto
    next
      case True
      with 1(2) Some r have "fs_load_loop keys os d (Suc k) p1 = (n, p')" by simp
      from 1(1) [OF Some r [symmetric] _ this drop_next [OF 1(3)]] True first show ?thesis
        by (meson fills_append)
    qed
  qed
qed (auto intro: fills_Nil)

lemma load_fills:
  assumes "l2_load keys os a p = (Inr n, p')" and "drop i objs = os"
  shows "\<exists>chs. fills (Prefetch_load rid l1_keys cn load_keys objs) chs p p'"
proof (cases a)
  case (Fs d)
  with assms fs_fills show ?thesis by (auto simp: fs_load_def split: prod.splits)
next
  case (Mock m)
  with assms mock_fills show ?thesis by (auto simp: mock_load_def)
qed

lemma loads_fill:
  "load_loop is l2s hits keys objs loaded p = (Inr n, p') \<Longrightarrow>
   \<exists>chs. fills (Prefetch_load rid l1_keys cn load_keys objs) chs p p'"
proof (induction "is" l2s hits keys objs loaded p rule: load_loop.induct)
  case (1 l2s hits keys objs loaded p)
  then show ?case by (auto intro: fills_Nil)
next
  case (2 i "is" l2s hits keys objs loaded p)
  show ?case
  proof (cases "loaded = length keys \<or> hits ! i \<le> loaded")
    case True
    with 2(2) show ?thesis by (auto intro: fills_Nil)
  next
    case False
    with 2(2) obtain m p1 where l: "l2_load (drop loaded keys) (drop loaded objs) (l2s ! i) p = (Inr m, p1)"
      and rest: "load_loop is l2s hits keys objs (loaded + m) p1 = (Inr n, p')"
      by (auto split: prod.splits sum.splits)
    from 2(1) [OF False l [symmetric] refl rest] load_fills [OF l refl] show ?thesis by (meson fills_append)
  qed
qed

lemma run_reserve:
  "reserve_load_loop ks n load_keys objs (st_l1 s) = ((load_keys', objs'), l) \<Longrightarrow>
   \<exists>m. \<forall>chs. along (replicate m Go @ chs) (Prefetch_reserve rid l1_keys ks n load_keys objs) s =
     along chs (Prefetch_load rid l1_keys n load_keys' objs') (s\<lparr>st_l1 := l\<rparr>)"
proof (induction ks arbitrary: load_keys objs s)
  case Nil
  then show ?case by (intro exI [of _ "Suc 0"]) (auto split: prod.splits)
next
  case (Cons k ks)
  obtain res l1 where rw: "reserve_write [k] n True (st_l1 s) = (res, l1)" by fastforce
  show ?case
  proof (cases "\<exists>ob. res k = Some (Some ob)")
    case False
    with rw Cons.prems show ?thesis
      by (intro exI [of _ "Suc 0"]) (auto simp: on_l1_def split: prod.splits option.splits)
  next
    case True
    then obtain ob where ob: "res k = Some (Some ob)" by blast
    with rw Cons.prems have "reserve_load_loop ks n (load_keys @ [k]) (objs @ [ob]) (st_l1 (s\<lparr>st_l1 := l1\<rparr>)) =
        ((load_keys', objs'), l)" by simp
    from Cons.IH [OF this] obtain m where m: "\<And>chs. along (replicate m Go @ chs)
        (Prefetch_reserve rid l1_keys ks n (load_keys @ [k]) (objs @ [ob])) (s\<lparr>st_l1 := l1\<rparr>) =
      along chs (Prefetch_load rid l1_keys n load_keys' objs') (s\<lparr>st_l1 := l\<rparr>)" by auto
    have "along (replicate (Suc m) Go @ chs) (Prefetch_reserve rid l1_keys (k # ks) n load_keys objs) s =
      along chs (Prefetch_load rid l1_keys n load_keys' objs') (s\<lparr>st_l1 := l\<rparr>)" for chs
      using rw ob m [of chs] by (simp add: on_l1_def)
    then show ?thesis by blast
  qed
qed

lemma run_prefetch:
  assumes "prefetch dt rid keys chunk_nbytes s = (Inr (), s')"
  shows "\<exists>chs. along chs (Prefetch_prefix rid keys chunk_nbytes) s = (Inr (Some Prefetch_get), s', [])"
proof -
  obtain hit l where pre: "reserve_read_prefix keys (st_l1 s) = (hit, l)" by fastforce
  let ?s = "s\<lparr>st_l1 := l\<rparr>"
  show ?thesis
  proof (cases chunk_nbytes)
    case None
    with assms pre have "resolve rid (take hit keys) [] 0 ?s = (Inr (), s')" by (simp add: prefetch_def)
    from run_resolve [OF this] obtain m where
      "along (replicate m Go) (Prefetch_resolve rid (take hit keys) [] (Inr 0)) ?s = (Inr (Some Prefetch_get), s', [])" by blast
    then show ?thesis using pre None by (intro exI [of _ "Go # replicate m Go"]) (simp add: on_l1_def)
  next
    case (Some n)
    let ?missing = "drop hit keys" and ?hits = "lookup_l2s (drop hit keys) (st_l2s s)"
    obtain load_keys objs l1 where rl: "reserve_load ?missing (max_hits ?hits) n l = ((load_keys, objs), l1)"
      by (metis prod.exhaust)
    from assms pre Some rl obtain loaded p where
      ld: "load_from_l2s load_keys objs ?hits (st_l2s s) (allocator l1) = (Inr loaded, p)"
      by (auto simp: prefetch_def Let_def split: prod.splits sum.splits)
    with assms pre Some rl obtain l2 where
      fw: "finish_write_and_reserve_read (take loaded load_keys) (set_pool p l1) = (Inr (), l2)"
      by (auto simp: prefetch_def Let_def split: prod.splits sum.splits)
    with assms pre Some rl ld obtain c l3 where del: "delete (drop loaded load_keys) True l2 = (Inr c, l3)"
      by (auto simp: prefetch_def Let_def split: prod.splits sum.splits)
    with assms pre Some rl ld fw obtain gbps where
      g: "load_gbps loaded n dt = Inr gbps" and
      res: "resolve rid (take hit keys) (take loaded load_keys) gbps (s\<lparr>st_l1 := l3\<rparr>) = (Inr (), s')"
      by (auto simp: prefetch_def Let_def split: prod.splits sum.splits)
    let ?load = "Prefetch_load rid (take hit keys) n load_keys objs"
    have "\<exists>chs. fills ?load chs (allocator l1) p"
      using ld loads_fill by (auto simp: load_from_l2s_def intro: fills_Nil split: if_splits)
    then obtain chs where chs: "fills ?load chs (allocator l1) p" by blast
    have "reserve_load_loop (take (max_hits ?hits) ?missing) n [] [] (st_l1 ?s) = ((load_keys, objs), l1)"
      using rl by (simp add: reserve_load_def)
    from run_reserve [OF this, of rid "take hit keys"] obtain m where m: "\<And>chs. along (replicate m Go @ chs)
        (Prefetch_reserve rid (take hit keys) (take (max_hits ?hits) ?missing) n [] []) ?s =
      along chs ?load (s\<lparr>st_l1 := l1\<rparr>)" by auto
    from run_resolve [OF res] obtain j where
      j: "along (replicate j Go) (Prefetch_resolve rid (take hit keys) (take loaded load_keys) (Inr gbps)) (s\<lparr>st_l1 := l3\<rparr>) =
        (Inr (Some Prefetch_get), s', [])" by blast
    have tail: "along (Loaded loaded dt # Go # Go # replicate j Go) ?load (s\<lparr>st_l1 := set_pool p l1\<rparr>) =
        (Inr (Some Prefetch_get), s', [])"
      using fw del j g by (simp add: with_l1_def)
    have "along (chs @ Loaded loaded dt # Go # Go # replicate j Go) ?load (s\<lparr>st_l1 := l1\<rparr>) =
        (Inr (Some Prefetch_get), s', [])"
      using chs tail by (simp add: fills_def)
    then have "along (Go # Found (max_hits ?hits) # replicate m Go @ chs @ Loaded loaded dt # Go # Go # replicate j Go)
        (Prefetch_prefix rid keys chunk_nbytes) s = (Inr (Some Prefetch_get), s', [])"
      using pre Some m by (simp add: on_l1_def)
    then show ?thesis by blast
  qed
qed

lemma run_prefetch_turn:
  assumes "prefetch_turn dt s = Some (Inr (), s')"
  shows "\<exists>chs. along chs Prefetch_get s = (Inr (Some Prefetch_get), s', [])"
proof -
  from assms obtain rid keys n js where jobs: "st_jobs s = (rid, keys, n) # js"
    and run: "prefetch dt rid keys n (s\<lparr>st_jobs := js\<rparr>) = (Inr (), s')"
    by (auto simp: prefetch_turn_def split: list.splits)
  from run_prefetch [OF run] obtain chs where
    "along chs (Prefetch_prefix rid keys n) (s\<lparr>st_jobs := js\<rparr>) = (Inr (Some Prefetch_get), s', [])" by blast
  then have "along (Go # chs) Prefetch_get s = (Inr (Some Prefetch_get), s', [])" using jobs by simp
  then show ?thesis by blast
qed

text \<open>The adapters are not part of the threads' state, so a turn of the store controller agrees up to them.\<close>

lemma run_store_turn:
  assumes "store_turn s = Some (Inr (), s')"
  shows "\<exists>chs. along chs Back_get s = (Inr (Some Back_get), s'\<lparr>st_l2s := st_l2s s\<rparr>, [])"
proof -
  from assms obtain keys rest where q: "store_pending (listeners (st_l1 s)) = keys # rest"
    by (auto simp: store_turn_def split: list.splits)
  let ?l = "(st_l1 s)\<lparr>listeners := set_store_pending rest (listeners (st_l1 s))\<rparr>"
  obtain reserved l1 where rr: "reserve_read keys ?l = (reserved, l1)" by fastforce
  let ?locked = "filter (\<lambda>k. reserved k \<noteq> Some None) keys"
  have two: "along (Go # Go # chs) Back_get s =
      along chs (if ?locked = [] then Back_get else Back_store ?locked) (s\<lparr>st_l1 := l1\<rparr>)" for chs
    using q rr by (auto simp: on_l1_def Let_def split: prod.splits)
  show ?thesis
  proof (cases "?locked = []")
    case True
    have s': "s' = s\<lparr>st_l1 := l1\<rparr>" using assms q rr True by (simp add: store_turn_def Let_def)
    have "along [Go, Go] Back_get s = (Inr (Some Back_get), s'\<lparr>st_l2s := st_l2s s\<rparr>, [])"
      unfolding two [of "[]"] using True s' by simp
    then show ?thesis by blast
  next
    case False
    obtain r l2 where fr: "finish_read ?locked l1 = (r, l2)" by fastforce
    have "r = Inr ()" "s' = s\<lparr>st_l1 := l2, st_l2s := st_l2s s'\<rparr>"
      using assms q rr False fr by (auto simp: store_turn_def Let_def)
    then have "along [Go, Go] (Back_store ?locked) (s\<lparr>st_l1 := l1\<rparr>) =
        (Inr (Some Back_get), s'\<lparr>st_l2s := st_l2s s\<rparr>, [])"
      using fr by (cases s') (auto simp: with_l1_def)
    then have "along [Go, Go, Go, Go] Back_get s = (Inr (Some Back_get), s'\<lparr>st_l2s := st_l2s s\<rparr>, [])"
      unfolding two [of "[Go, Go]"] using False by simp
    then show ?thesis by blast
  qed
qed

lemma run_evict_turn:
  assumes "evict_turn (st_l1 s) = (Inr (), l)"
  shows "\<exists>chs. along chs Evict_pick s = (Inr (Some Evict_pick), s\<lparr>st_l1 := l\<rparr>, [])"
proof -
  have total: "snd (l1_usage (st_l1 s)) = capacity (allocator (st_l1 s))" by (simp add: l1_usage_def usage_def)
  with assms have some: "capacity (allocator (st_l1 s)) \<noteq> 0" by (auto simp: evict_turn_def split: prod.splits if_splits)
  show ?thesis
  proof (cases "of_int (fst (l1_usage (st_l1 s))) / of_nat (snd (l1_usage (st_l1 s))) < WATERMARK")
    case True
    with assms have "l = st_l1 s" by (auto simp: evict_turn_def split: prod.splits if_splits)
    with some show ?thesis by (intro exI [of _ "[Go]"]) simp
  next
    case False
    let ?vs = "get_victims EVICTION_RATIO (is_evictable (st_l1 s)) (lru_order (listeners (st_l1 s)))"
    from assms False obtain n where "delete ?vs False (st_l1 s) = (Inr n, l)"
      by (auto simp: evict_turn_def split: prod.splits if_splits sum.splits)
    with some show ?thesis by (intro exI [of _ "[Victims ?vs, Go]"]) (simp add: with_l1_def)
  qed
qed

subsection \<open>Memory that is used again\<close>

text \<open>The last hold on a temporary chunk: its memory is the next the pool hands out for that size.\<close>

lemma finish_read_frees:
  assumes inv: "l1_inv {} l" and e: "entries l k = Some e" "is_temporary e" "read_count e = 1"
  shows "\<exists>l' fl. finish_read [k] l = (Inr (), l') \<and> entries l' = (entries l)(k := None)
    \<and> pool_mem (allocator l') = pool_mem (allocator l)
    \<and> free_segments (allocator l') (mo_nbytes (en_obj e)) = Some (fl @ [mo_offset (en_obj e)])"
proof -
  let ?ob = "en_obj e"
  define e' where "e' = e\<lparr>read_count := 0\<rparr>"
  have e1: "entries (add_read (- 1) k l) k = Some e'" using e by (simp add: add_read_def e'_def)
  have "l1_inv {} (add_read (- 1) k l)" using inv l1_inv_cong [of "add_read (- 1) k l" l] by simp
  from drop_entry_ok [OF this e1 refl] obtain a where
    drop: "drop_entry k e' (add_read (- 1) k l) = (Inr (), (add_read (- 1) k l)\<lparr>allocator := a,
      entries := (entries (add_read (- 1) k l))(k := None)\<rparr>)"
    and mem: "pool_mem a = pool_mem (allocator (add_read (- 1) k l))" by blast
  obtain r b where f: "free [?ob] (allocator l) = (r, b)" by fastforce
  with drop have "r = Inr ()" by (cases r) (simp_all add: drop_entry_def e'_def add_read_def)
  with f have "allocator (snd (drop_entry k e' (add_read (- 1) k l))) = b"
    by (simp add: drop_entry_def e'_def add_read_def)
  with drop f \<open>r = Inr ()\<close> have "free [?ob] (allocator l) = (Inr (), a)" by simp
  then obtain fl where fl: "free_segments a (mo_nbytes ?ob) = Some (fl @ [mo_offset ?ob])"
    by (auto simp: Let_def split: option.splits)
  have "finish_read_loop [k] [] [] l = (Inr ([k], []), (add_read (- 1) k l)\<lparr>allocator := a,
      entries := (entries (add_read (- 1) k l))(k := None)\<rparr>)"
    using e drop by (simp add: Let_def e'_def)
  then have "finish_read [k] l = (Inr (), notify On_removed [k] ((add_read (- 1) k l)\<lparr>allocator := a,
      entries := (entries (add_read (- 1) k l))(k := None)\<rparr>))"
    by (simp add: finish_read_def)
  moreover have "(entries (add_read (- 1) k l))(k := None) = (entries l)(k := None)" by (auto simp: add_read_def)
  ultimately show ?thesis using fl mem by (simp add: notify_def add_read_def)
qed

lemma allocate_last:
  assumes "free_segments p n = Some (fl @ [off])"
  shows "\<exists>a. allocate (Suc 0) n p = (Some [MemoryObj n off], a) \<and> pool_mem a = pool_mem p"
proof -
  have 1: "pop_free (Suc 0) (fl @ [off]) [] = (fl, [off])" by (simp add: pop_free_step pop_free_done)
  have 2: "bump (Suc 0) n (capacity p) (brk p) [off] = (brk p, [off])" by (rule bump_done) simp
  have "allocate (Suc 0) n p = (Some [MemoryObj n off], p\<lparr>brk := brk p, free_segments := (free_segments p)(n \<mapsto> fl),
      used_bytes := used_bytes p + int n\<rparr>)"
    unfolding allocate_def assms Let_def option.case 1 prod.case 2 by simp
  then show ?thesis by simp
qed

lemma reserve_reuses:
  assumes "free_segments (allocator l) n = Some (fl @ [off])" and "entries l k = None"
  shows "\<exists>l'. reserve_write [k] n temp l = ([k \<mapsto> Some (MemoryObj n off)], l')
    \<and> pool_mem (allocator l') = pool_mem (allocator l)"
proof -
  from allocate_last [OF assms(1)] obtain a where
    "allocate (Suc 0) n (allocator l) = (Some [MemoryObj n off], a)" "pool_mem a = pool_mem (allocator l)" by blast
  moreover have "(fromkeys_none [k])(k \<mapsto> Some ob) = [k \<mapsto> Some ob]" for ob by (auto simp: fromkeys_none_def)
  ultimately show ?thesis using assms(2) by (simp add: reserve_write_def Let_def)
qed

text \<open>
  The schedule of an END_SESSION of \<open>rid\<close>, in thread \<open>u\<close>, up to its last step, and of a STORE of one chunk, in thread \<open>v\<close>.
\<close>

definition reuse_moves :: "nat \<Rightarrow> string \<Rightarrow> nat \<Rightarrow> chunk_key \<Rightarrow> nat \<Rightarrow> byte list \<Rightarrow> move list" where
  "reuse_moves u rid v k' n blob =
     [Spawn u (Release rid None True), Run u Go, Run u Go, Run u Go,
      Spawn v (Store_reserve [k'] n [blob]), Run v Go, Run v Go]"

lemma chunk_reused:
  assumes inv: "l1_inv {} (st_l1 (shared c))"
    and e: "entries (st_l1 (shared c)) k = Some e" "is_temporary e" "read_count e = 1"
    and held: "held_of rid (shared c) = [k]" and k': "entries (st_l1 (shared c)) k' = None"
    and blob: "length blob = mo_nbytes (en_obj e)"
    and free: "running c u = None" "running c v = None" and uv: "u \<noteq> v"
  shows "\<exists>c'. play (reuse_moves u rid v k' (mo_nbytes (en_obj e)) blob) c = Some c'
    \<and> raised_by c' = raised_by c \<and> wire c' = wire c \<and> (\<forall>t. t \<noteq> u \<and> t \<noteq> v \<longrightarrow> running c' t = running c t)
    \<and> read_obj (allocator (st_l1 (shared c'))) (en_obj e) = blob"
proof -
  let ?s = "shared c" and ?ob = "en_obj e"
  from finish_read_frees [OF inv e] obtain l fl where
    fr: "finish_read [k] (st_l1 ?s) = (Inr (), l)" and es: "entries l = (entries (st_l1 ?s))(k := None)"
    and mem: "pool_mem (allocator l) = pool_mem (allocator (st_l1 ?s))"
    and fl: "free_segments (allocator l) (mo_nbytes ?ob) = Some (fl @ [mo_offset ?ob])" by blast
  have "entries l k' = None" using es k' by simp
  from reserve_reuses [OF fl this, of False] obtain l2 where
    rw: "reserve_write [k'] (mo_nbytes ?ob) False l = ([k' \<mapsto> Some (MemoryObj (mo_nbytes ?ob) (mo_offset ?ob))], l2)"
    and mem2: "pool_mem (allocator l2) = pool_mem (allocator l)" by blast
  have ob: "MemoryObj (mo_nbytes ?ob) (mo_offset ?ob) = ?ob" by (simp add: MemoryObj_def)
  note within = l1_inv_within [OF inv e(1)]
  have n: "0 < mo_nbytes ?ob" using within by simp
  let ?p = "(allocator l2)\<lparr>pool_mem := write_seg (mo_offset ?ob) blob (pool_mem (allocator l2))\<rparr>"
  have w: "write_obj ?ob blob (allocator l2) = Inr ?p" using blob by (simp add: write_obj_def)
  have "mo_offset ?ob + length blob \<le> length (pool_mem (allocator l2))"
    using within blob mem mem2 by (simp add: capacity_def)
  from slice_write_seg_same [OF this] have rd: "read_obj ?p ?ob = blob" using blob by (simp add: read_obj_def)
  have tk: "take_held rid None ?s = (Inr [k], set_held rid [] ?s)" using held by (simp add: take_held_def Let_def)
  have l1: "st_l1 (set_held rid [] ?s) = st_l1 ?s" by (simp add: set_held_def)
  show ?thesis
    using free uv n fr rw w rd tk l1 ob
    by (simp add: reuse_moves_def run_thread_def with_l1_def on_l1_def Let_def fun_upd_twist)
qed

end
