(* ===== verification/Server_Interleavings.thy ===== *)
theory Server_Interleavings
  imports Server_Threads_Runs
begin

text \<open>
  What holds of the cache server under every interleaving of its threads, and the two points at which
  END_SESSION interferes with them.
\<close>

lemma reachable_locks:
  assumes "thread_step\<^sup>*\<^sup>* (started m l2s) c"
  obtains y where "proto_step\<^sup>*\<^sup>* (quiet_locks m l2s) y" and "sim c y" and "proto_inv y"
proof -
  from sim_reachable [OF assms] obtain y where y: "proto_step\<^sup>*\<^sup>* (quiet_locks m l2s) y" "sim c y" by blast
  have "proto_inv (quiet_locks m l2s)" unfolding quiet_locks_def by (rule proto_inv_init)
  from proto_steps_inv [OF y(1) this] show ?thesis using y that by blast
qed

subsection \<open>A run\<close>

text \<open>
  A lookup of one chunk, which the prefetch thread loads: the request then holds the chunk, a temporary
  entry.
\<close>

definition lookup_moves :: "move list" where
  "lookup_moves =
     [Spawn 0 Prefetch_get, Spawn 1 (Lookup_start ''r'' [demo_key 1] (Some 2)), Run 1 Go, Run 1 Go,
      Run 0 Go, Run 0 Go, Run 0 (Found 1), Run 0 Go, Run 0 Go, Run 0 (Fill 0 [1, 2]), Run 0 (Loaded 1 1),
      Run 0 Go, Run 0 Go, Run 0 Go]"

definition store_moves :: "move list" where
  "store_moves = [Spawn 4 (Store_reserve [demo_key 2] 2 [[8, 9]]), Run 4 Go, Run 4 Go]"

definition demo_start :: threads where
  "demo_start = started [0, 0, 0, 0] []"

definition demo_played :: "move list \<Rightarrow> threads" where
  "demo_played ms = the (play ms demo_start)"

lemma playedD:
  assumes "case play ms demo_start of None \<Rightarrow> False | Some c \<Rightarrow> P c"
  shows "thread_step\<^sup>*\<^sup>* (started [0, 0, 0, 0] []) (demo_played ms)" and "P (demo_played ms)"
    and "play ms demo_start = Some (demo_played ms)"
  using assms play_reaches [of ms demo_start "demo_played ms"]
  by (auto simp: demo_played_def demo_start_def split: option.splits)

lemma lookup_played: "case play lookup_moves demo_start of None \<Rightarrow> False | Some c \<Rightarrow> held_of ''r'' (shared c) = [demo_key 1]"
  by code_simp

lemma play_append: "play (ms @ ms') c = (case play ms c of None \<Rightarrow> None | Some c' \<Rightarrow> play ms' c')"
  by (induction ms c rule: play.induct) simp_all

subsection \<open>Properties\<close>

text \<open>
  C2. The threads follow the lock protocol: whatever the interleaving of the server's threads, their
  atomic steps are steps of the protocol on the same L1 manager, in which every session has the read holds
  its \<open>held\<close> lists, and every thread the holds it is about to give back or hand over and the write
  locks of the chunks it is filling.
\<close>

theorem threads_follow_lock_protocol:
  assumes "thread_step\<^sup>*\<^sup>* (started m l2s) c"
  shows "\<exists>y. proto_step\<^sup>*\<^sup>* (quiet_locks m l2s) y \<and> sy_l1 y = st_l1 (shared c)
    \<and> (\<forall>rid. holds_of (Session rid) (held_of rid (shared c)) \<subseteq># sy_holds y)
    \<and> (\<forall>t task. running c t = Some task \<longrightarrow>
        holds_of (Thread t) (reads_of task) \<subseteq># sy_holds y \<and> {Thread t} \<times> set (writes_of task) \<subseteq> sy_writes y)"
proof -
  from sim_reachable [OF assms] obtain y where y: "proto_step\<^sup>*\<^sup>* (quiet_locks m l2s) y" "sim c y" by blast
  show ?thesis by (rule exI [of _ y]) (use y in \<open>simp add: sim_def owns_def\<close>)
qed

lemma threads_follow_lock_protocol_witness:
  "\<exists>y. proto_step\<^sup>*\<^sup>* (quiet_locks [0, 0, 0, 0] []) y \<and> (Session ''r'', demo_key 1) \<in># sy_holds y"
proof -
  from threads_follow_lock_protocol [OF playedD(1) [OF lookup_played]] playedD(2) [OF lookup_played]
  obtain y where "proto_step\<^sup>*\<^sup>* (quiet_locks [0, 0, 0, 0] []) y"
    "holds_of (Session ''r'') [demo_key 1] \<subseteq># sy_holds y" by metis
  then show ?thesis by (auto simp: holds_of_def)
qed

text \<open>
  C11. What is being written is nobody else's: while a thread fills a chunk (a STORE handler, or the
  prefetch thread loading from L2), its entry is in the table, write-locked and without readers, no
  session lists it as held, no thread has a read hold on it and no other thread writes it.
\<close>

theorem writers_are_alone:
  assumes "thread_step\<^sup>*\<^sup>* (started m l2s) c" and "running c t = Some task" and "k \<in> set (writes_of task)"
  shows "(\<exists>e. entries (st_l1 (shared c)) k = Some e \<and> write_locked e \<and> read_count e = 0)
    \<and> (\<forall>rid. k \<notin> set (held_of rid (shared c)))
    \<and> (\<forall>t' task'. running c t' = Some task' \<longrightarrow> k \<notin> set (reads_of task') \<and> (t' \<noteq> t \<longrightarrow> k \<notin> set (writes_of task')))"
proof -
  from reachable_locks [OF assms(1)] obtain y where y: "sim c y" "proto_inv y" by blast
  have ok: "parties_ok (sy_holds y) (sy_writes y) (entries (st_l1 (shared c)))"
    and W: "\<And>t task. running c t = Some task \<Longrightarrow> {Thread t} \<times> set (writes_of task) \<subseteq> sy_writes y"
    and R: "\<And>t task. running c t = Some task \<Longrightarrow> holds_of (Thread t) (reads_of task) \<subseteq># sy_holds y"
    and S: "\<And>rid. holds_of (Session rid) (held_of rid (shared c)) \<subseteq># sy_holds y"
    using y by (auto simp: sim_def proto_inv_def owns_def)
  have own: "(Thread t, k) \<in> sy_writes y" using W [OF assms(2)] assms(3) by blast
  from parties_okD(3) [OF ok own] obtain e where e: "entries (st_l1 (shared c)) k = Some e" "write_locked e" by blast
  with parties_okD(1) [OF ok e(1)] have none: "hold_count (sy_holds y) k = 0" and "read_count e = 0"
    by (simp_all add: entry_ok_def)
  have free: "k \<notin> set ks" if "holds_of p ks \<subseteq># sy_holds y" for p ks
    using hold_count_mono [OF that, of k] none by (simp add: count_list_0_iff)
  have alone: "k \<notin> set (writes_of task')" if "running c t' = Some task'" "t' \<noteq> t" for t' task'
    using W [OF that(1)] parties_okD(4) [OF ok own] that(2) by blast
  show ?thesis using e \<open>read_count e = 0\<close> free R S alone by blast
qed

lemma writers_are_alone_witness:
  "(let c = demo_played (take 9 lookup_moves) in \<exists>e. entries (st_l1 (shared c)) (demo_key 1) = Some e \<and> write_locked e)"
proof -
  let ?c = "demo_played (take 9 lookup_moves)"
  have p: "case play (take 9 lookup_moves) demo_start of None \<Rightarrow> False | Some c \<Rightarrow>
      (case running c 0 of Some task \<Rightarrow> demo_key 1 \<in> set (writes_of task) | None \<Rightarrow> False)" by code_simp
  then obtain task where "running ?c 0 = Some task" "demo_key 1 \<in> set (writes_of task)"
    using playedD(2) [OF p] by (auto split: option.splits)
  from writers_are_alone [OF playedD(1) [OF p] this] show ?thesis by (auto simp: Let_def)
qed

text \<open>
  C3. A held chunk stays put: as long as a request has a chunk among its \<open>held\<close>, no interleaving of
  stores, loads, evictions, write-backs and other requests moves it or changes its bytes, and a RETRIEVE that
  sends its view meanwhile puts these bytes on the wire.
\<close>

theorem session_hold_protects:
  assumes "thread_step\<^sup>*\<^sup>* (started m l2s) c" and "k \<in> set (held_of rid (shared c))"
    and "(keeping_step rid k)\<^sup>*\<^sup>* c c'"
  shows "\<exists>ob. objs_of (st_l1 (shared c)) k = Some ob \<and> objs_of (st_l1 (shared c')) k = Some ob
    \<and> read_obj (allocator (st_l1 (shared c'))) ob = read_obj (allocator (st_l1 (shared c))) ob
    \<and> (\<forall>t rid' keys objs. running c' t = Some (Retrieve_send rid' keys (ob # objs)) \<longrightarrow>
        wire (run_thread t Go c') = wire c' @ [(t, read_obj (allocator (st_l1 (shared c))) ob)])"
proof -
  from reachable_locks [OF assms(1)] obtain y where "sim c y" "proto_inv y" by blast
  from kept_bytes [OF assms(3) this assms(2)] obtain ob where
    "objs_of (st_l1 (shared c)) k = Some ob" "objs_of (st_l1 (shared c')) k = Some ob"
    "read_obj (allocator (st_l1 (shared c'))) ob = read_obj (allocator (st_l1 (shared c))) ob" by blast
  then show ?thesis by (intro exI [of _ ob]) (simp add: run_thread_def)
qed

lemma session_hold_protects_witness:
  "(let c = demo_played lookup_moves; c' = demo_played (lookup_moves @ store_moves)
    in \<exists>ob. objs_of (st_l1 (shared c)) (demo_key 1) = Some ob \<and> objs_of (st_l1 (shared c')) (demo_key 1) = Some ob
      \<and> read_obj (allocator (st_l1 (shared c'))) ob = read_obj (allocator (st_l1 (shared c))) ob)"
proof -
  have p: "case play lookup_moves demo_start of None \<Rightarrow> False | Some c \<Rightarrow> keeps ''r'' (demo_key 1) store_moves c"
    "case play (lookup_moves @ store_moves) demo_start of None \<Rightarrow> False | Some c \<Rightarrow> True" by code_simp+
  have "play store_moves (demo_played lookup_moves) = Some (demo_played (lookup_moves @ store_moves))"
    using playedD(3) [OF p(2)] playedD(3) [OF p(1)] by (simp add: play_append)
  with keeps_run [OF playedD(2) [OF p(1)]]
  have "(keeping_step ''r'' (demo_key 1))\<^sup>*\<^sup>* (demo_played lookup_moves) (demo_played (lookup_moves @ store_moves))"
    by blast
  from session_hold_protects [OF playedD(1) [OF lookup_played] _ this] playedD(2) [OF lookup_played]
  show ?thesis unfolding Let_def by auto
qed

text \<open>
  C32. Giving back never raises: in no interleaving does a call that gives locks back, hands them over
  or deletes chunks (\<open>finish_write\<close>, \<open>finish_read\<close>, \<open>finish_write_and_reserve_read\<close>,
  \<open>delete\<close>) raise.  Every step of a thread that raises is one of these, with the exception named: a request
  that is refused before it touches the storage; a write of a chunk of the wrong length; a RETRIEVE of a
  chunk that is not there, or for an engine of world size 0; a release that names a key twice; a call of an
  adapter; the division of a load by no time at all; and that of the usage by an empty pool.
\<close>

theorem giving_back_never_raises:
  assumes "thread_step\<^sup>*\<^sup>* (started m l2s) c" and "(task, x) \<in> set (raised_by c)"
  shows "may_raise task x"
  using sim_reachable [OF assms(1)] assms(2) unfolding sim_def by blast

lemma giving_back_never_raises_witness:
  "(case raised_by (demo_played [Spawn 0 (Retrieve_read ''r'' [demo_key 1] 1), Run 0 Go]) of
      [(task, x)] \<Rightarrow> may_raise task x | _ \<Rightarrow> False)"
proof -
  let ?ms = "[Spawn 0 (Retrieve_read ''r'' [demo_key 1] 1), Run 0 Go]"
  have p: "case play ?ms demo_start of None \<Rightarrow> False | Some c \<Rightarrow> length (raised_by c) = 1" by code_simp
  then obtain task x where r: "raised_by (demo_played ?ms) = [(task, x)]"
    using playedD(2) [OF p] by (cases "raised_by (demo_played ?ms)") auto
  with giving_back_never_raises [OF playedD(1) [OF p], of task x] show ?thesis by simp
qed

text \<open>
  C12. Nothing leaks otherwise: in an interleaving none of whose steps is one that leaves a lock behind
  (\<open>leaks\<close>), every lock is somebody's.  A chunk that no session lists as held, that no thread is writing and
  on which no thread has a hold to give back, has no reader and no write lock, is no longer a temporary entry,
  and the evictor can take it.
\<close>

theorem nothing_leaks:
  assumes "clean_step\<^sup>*\<^sup>* (started m l2s) c" and "entries (st_l1 (shared c)) k = Some e"
    and "\<forall>rid. k \<notin> set (held_of rid (shared c))"
    and "\<forall>t task. running c t = Some task \<longrightarrow> k \<notin> set (reads_of task) \<union> set (writes_of task)"
  shows "read_count e = 0 \<and> \<not> write_locked e \<and> \<not> is_temporary e \<and> is_evictable (st_l1 (shared c)) k"
proof -
  from clean_reachable [OF assms(1)] obtain y where y: "proto_inv y" "sim c y" "tight c y" by blast
  have idle: "k \<notin> set (reads_at (running c t)) \<union> set (writes_at (running c t))" for t
    using assms(4) by (cases "running c t") auto
  have "(p, k) \<notin># sy_holds y" "(p, k) \<notin> sy_writes y" for p
    using y(3) assms(3) idle unfolding tight_def
    by (cases p; simp add: count_list_0_iff flip: count_eq_zero_iff; metis UnCI count_list_0_iff le_zero_eq)+
  moreover have "entry_ok (sy_holds y) (sy_writes y) k e"
    using y(1,2) parties_okD(1) assms(2) by (auto simp: sim_def proto_inv_def)
  moreover have "hold_count (sy_holds y) k = 0" using calculation(1) hold_count_pos [of "sy_holds y" k] by simp
  ultimately show ?thesis using assms(2) by (auto simp: entry_ok_def is_evictable_def unlocked_def)
qed

text \<open>A chunk that is stored, looked up by a request, held by it until it ends, and then free again.\<close>

definition clean_moves :: "move list" where
  "clean_moves = store_moves @ [Run 4 Go, Spawn 0 Prefetch_get, Spawn 1 (Lookup_start ''r'' [demo_key 2] (Some 2)), Run 1 Go,
     Run 1 Go, Run 0 Go, Run 0 Go, Run 0 (Found 0), Run 0 Go, Run 0 (Loaded 0 0), Run 0 Go, Run 0 Go, Run 0 Go,
     Spawn 3 (Release ''r'' None True), Run 3 Go, Run 3 Go, Run 3 Go]"

lemma clean_played:
  "case play clean_moves demo_start of None \<Rightarrow> False | Some c \<Rightarrow> leak_free clean_moves demo_start
    \<and> (case entries (st_l1 (shared c)) (demo_key 2) of None \<Rightarrow> False | Some _ \<Rightarrow> True)"
  by code_simp

lemma clean_played_held: "case play clean_moves demo_start of None \<Rightarrow> False | Some c \<Rightarrow> held_of rid (shared c) = []"
  by (code_simp, simp)

lemma clean_played_running: "case play clean_moves demo_start of None \<Rightarrow> False
    | Some c \<Rightarrow> reads_at (running c t) = [] \<and> writes_at (running c t) = []"
  by (code_simp, simp)

lemma nothing_leaks_witness:
  "(let c = demo_played clean_moves in \<exists>e. entries (st_l1 (shared c)) (demo_key 2) = Some e \<and> read_count e = 0)"
proof -
  let ?c = "demo_played clean_moves"
  obtain e where e: "entries (st_l1 (shared ?c)) (demo_key 2) = Some e"
    using playedD(2) [OF clean_played] by (auto split: option.splits)
  have run: "clean_step\<^sup>*\<^sup>* (started [0, 0, 0, 0] []) ?c"
    using leak_free_run [OF _ playedD(3) [OF clean_played]] playedD(2) [OF clean_played] by (simp add: demo_start_def)
  have "\<forall>rid. demo_key 2 \<notin> set (held_of rid (shared ?c))" using playedD(2) [OF clean_played_held] by simp
  moreover have "\<forall>t task. running ?c t = Some task \<longrightarrow> demo_key 2 \<notin> set (reads_of task) \<union> set (writes_of task)"
  proof (intro allI impI)
    fix t task assume "running ?c t = Some task"
    with playedD(2) [OF clean_played_running, of t] show "demo_key 2 \<notin> set (reads_of task) \<union> set (writes_of task)" by simp
  qed
  ultimately show ?thesis using nothing_leaks [OF run e] e by (auto simp: Let_def)
qed

text \<open>
  C13. Handlers end: whatever the other threads do in between, the thread of a request has ended after
  a number of its own steps that is fixed by the request (the keys it names), as no step of it waits for
  anybody.
\<close>

theorem handlers_end:
  assumes "running c t = Some task" and "is_handler task" and "play ms c = Some c'"
    and "\<forall>task. Spawn t task \<notin> set ms"
    and "steps_left task \<le> length (filter (\<lambda>m. \<exists>ch. m = Run t ch) ms)"
  shows "running c' t = None"
proof (rule ccontr)
  assume "running c' t \<noteq> None"
  then obtain task' where r: "running c' t = Some task'" by blast
  have "0 < steps_left task'" by (cases task' rule: steps_left.cases) (auto split: option.splits)
  with handler_ends [OF assms(1-4)] r assms(5) show False by simp
qed

lemma handlers_end_witness:
  "(let ms = [Run 2 Go, Spawn 3 (Release ''r'' None True), Run 3 Go, Run 2 Go, Run 2 Go, Run 2 Go, Run 2 Go, Run 2 Go];
        c = (demo_played lookup_moves)\<lparr>running := [2 \<mapsto> Retrieve_read ''r'' [demo_key 1] 1]\<rparr>
    in \<exists>c'. play ms c = Some c' \<and> running c' 2 = None)"
proof -
  let ?ms = "[Run 2 Go, Spawn 3 (Release ''r'' None True), Run 3 Go, Run 2 Go, Run 2 Go, Run 2 Go, Run 2 Go, Run 2 Go]"
  let ?c = "(demo_played lookup_moves)\<lparr>running := [2 \<mapsto> Retrieve_read ''r'' [demo_key 1] 1]\<rparr>"
  have "running (run_thread 2 Go ?c) 3 = None"
    by (simp add: run_thread_def split: sum.splits prod.splits)
  then obtain c' where p: "play ?ms ?c = Some c'" by simp
  have "steps_left (Retrieve_read ''r'' [demo_key 1] 1) \<le> length (filter (\<lambda>m. \<exists>ch. m = Run 2 ch) ?ms)" by simp
  with handlers_end [of ?c 2 "Retrieve_read ''r'' [demo_key 1] 1", OF _ _ p] have "running c' 2 = None" by simp
  with p show ?thesis unfolding Let_def by blast
qed

text \<open>
  A handler is a thread that is not interrupted: the steps of its thread in a row leave the storage the
  sequential model of the request leaves and put the frames of its reply on the wire, and they end with an exception
  only where the last reply is that exception.  A request without a thread does not touch the storage.
\<close>

theorem requests_are_threads:
  assumes "serve_request H (Call u rq pl) sv = (rs, sv')"
  shows "case request_task H rq pl sv of
      None \<Rightarrow> sv_sm sv' = sv_sm sv
    | Some task \<Rightarrow> \<forall>c t. shared c = sv_sm sv \<longrightarrow> running c t = Some task \<longrightarrow>
        (\<exists>n xs. (run_thread t Go ^^ n) c = c\<lparr>shared := sv_sm sv', running := (running c)(t := None),
            raised_by := raised_by c @ xs, wire := wire c @ map (Pair t) (concat (map r_frames rs))\<rparr>
          \<and> (xs = [] \<or> (\<exists>task x. xs = [(task, x)] \<and> last rs = reply_exc (Some u) x)))"
proof (cases "request_task H rq pl sv")
  case None
  with no_task_no_change [OF assms] show ?thesis by simp
next
  case (Some task)
  from run_request [OF assms Some] obtain n r where
    r: "along (replicate n Go) task (sv_sm sv) = (r, sv_sm sv', concat (map r_frames rs))" "request_ends u rs r" by blast
  have "\<exists>n xs. (run_thread t Go ^^ n) c = c\<lparr>shared := sv_sm sv', running := (running c)(t := None),
        raised_by := raised_by c @ xs, wire := wire c @ map (Pair t) (concat (map r_frames rs))\<rparr>
      \<and> (xs = [] \<or> (\<exists>task x. xs = [(task, x)] \<and> last rs = reply_exc (Some u) x))"
    if "shared c = sv_sm sv" "running c t = Some task" for c t
  proof -
    have "(run_thread t Go ^^ n) c = after_run t (r, sv_sm sv', concat (map r_frames rs)) c"
      using along_runs [OF that(2), of "replicate n Go"] that(1) r(1) by simp
    with r(2) show ?thesis
      by (intro exI [of _ n] exI [of _ "case r of Inl x \<Rightarrow> [x] | Inr _ \<Rightarrow> []"]) (auto simp: after_run_def request_ends_def)
  qed
  then show ?thesis unfolding Some option.case by blast
qed

text \<open>
  A turn of a background thread is one that is not interrupted: with the answers of the model's adapters
  and the victims of its policy as choices, the steps of the prefetch worker, the store controller
  and the evictor leave the storage their sequential turns leave, and the thread where it was.  (The adapters
  themselves are not part of the threads' state.)
\<close>

theorem background_turns_are_threads:
  shows "(running c t = Some Prefetch_get \<longrightarrow> prefetch_turn dt (shared c) = Some (Inr (), s) \<longrightarrow>
      (\<exists>chs. fold (run_thread t) chs c = c\<lparr>shared := s\<rparr>))
    \<and> (running c t = Some Back_get \<longrightarrow> store_turn (shared c) = Some (Inr (), s) \<longrightarrow>
      (\<exists>chs. fold (run_thread t) chs c = c\<lparr>shared := s\<lparr>st_l2s := st_l2s (shared c)\<rparr>\<rparr>))
    \<and> (running c t = Some Evict_pick \<longrightarrow> evict_turn (st_l1 (shared c)) = (Inr (), l) \<longrightarrow>
      (\<exists>chs. fold (run_thread t) chs c = c\<lparr>shared := (shared c)\<lparr>st_l1 := l\<rparr>\<rparr>))"
proof -
  have again: "\<exists>chs. fold (run_thread t) chs c = c\<lparr>shared := s'\<rparr>"
    if "running c t = Some task" "\<exists>chs. along chs task (shared c) = (Inr (Some task), s', [])" for task s'
  proof -
    from that(2) obtain chs where "along chs task (shared c) = (Inr (Some task), s', [])" by blast
    with along_runs [OF that(1), of chs] that(1) have "fold (run_thread t) chs c = c\<lparr>shared := s'\<rparr>"
      by (simp add: after_run_def fun_upd_idem)
    then show ?thesis by blast
  qed
  show ?thesis using again run_prefetch_turn run_store_turn run_evict_turn by blast
qed

text \<open>
  The lookup of the run above up to the publication of its result, and END_SESSION in another thread: all of
  it, and up to the point where it has taken the (empty) list of holds.
\<close>

definition end_session_moves :: "nat \<Rightarrow> move list" where
  "end_session_moves t = [Spawn t (Release ''r'' None True), Run t Go, Run t Go, Run t Go]"

definition race_moves :: "move list" where
  "race_moves = butlast lookup_moves @ take 2 (end_session_moves 3)"





text \<open>An END_SESSION that comes before or after the publication frees the chunk.\<close>

lemma end_session_frees_otherwise:
  "case play (race_moves @ [Run 3 Go, Run 3 Go, Run 0 Go, Run 0 Go]) demo_start of None \<Rightarrow> False | Some c \<Rightarrow> raised_by c = []
    \<and> (case entries (st_l1 (shared c)) (demo_key 1) of None \<Rightarrow> True | Some _ \<Rightarrow> False)"
  "case play (lookup_moves @ end_session_moves 3) demo_start of None \<Rightarrow> False | Some c \<Rightarrow> raised_by c = []
    \<and> (case entries (st_l1 (shared c)) (demo_key 1) of None \<Rightarrow> True | Some _ \<Rightarrow> False)"
  by code_simp+





end
