(* ===== verification/Server_Writes.thy ===== *)
theory Server_Writes
  imports Server_Interleavings
begin

text \<open>
  The bytes of the pool under every interleaving: only the thread that has a chunk write-locked changes
  them, so a STORE publishes exactly the chunks of its payload.
\<close>

subsection \<open>Who changes the bytes of the pool\<close>

definition same_bytes :: "chunk_key l1 \<Rightarrow> chunk_key l1 \<Rightarrow> bool" where
  "same_bytes l l' \<longleftrightarrow> pool_mem (allocator l') = pool_mem (allocator l)"

named_theorems same_bytes

lemma same_bytes_refl [simp]: "same_bytes l l" "same_bytes l (add_read d k l)" "same_bytes l (notify ev ks l)"
  by (simp_all add: same_bytes_def add_read_def notify_def)

lemma same_bytes_trans: "same_bytes l l1 \<Longrightarrow> same_bytes l1 l2 \<Longrightarrow> same_bytes l l2"
  by (simp add: same_bytes_def)

lemma same_bytes_notify [simp]: "same_bytes l (notify ev ks l') = same_bytes l l'"
  by (simp add: same_bytes_def notify_def)

lemma same_bytes_reserve_write [same_bytes]: "reserve_write keys n temp l = (res, l') \<Longrightarrow> same_bytes l l'"
  by (auto simp: reserve_write_def Let_def same_bytes_def dest: allocate_mem split: prod.splits option.splits)

lemma same_bytes_unlock: "unlock_writes hold keys l = (r, l') \<Longrightarrow> same_bytes l l'"
  by (drule unlock_writes_frame) (simp add: same_bytes_def)

lemma same_bytes_finish_write [same_bytes]: "finish_write keys l = (r, l') \<Longrightarrow> same_bytes l l'"
  by (auto simp: finish_write_def dest: same_bytes_unlock split: prod.splits sum.splits)

lemma same_bytes_hand_over [same_bytes]: "finish_write_and_reserve_read keys l = (r, l') \<Longrightarrow> same_bytes l l'"
  by (auto simp: finish_write_and_reserve_read_def dest: same_bytes_unlock split: prod.splits sum.splits)

lemma same_bytes_drop_entry: "drop_entry k e l = (r, l') \<Longrightarrow> same_bytes l l'"
  by (auto simp: drop_entry_def same_bytes_def simp del: free.simps dest: free_mem split: prod.splits sum.splits)

lemma same_bytes_finish_read_loop: "finish_read_loop keys freed touched l = (r, l') \<Longrightarrow> same_bytes l l'"
proof (induction keys arbitrary: freed touched l)
  case Nil
  then show ?case by simp
next
  case (Cons k keys)
  have "same_bytes l l1" if "drop_entry k e (add_read (- 1) k l) = (q, l1)" for e q l1
    using same_bytes_trans [OF same_bytes_refl(2) same_bytes_drop_entry [OF that]] .
  moreover have "same_bytes (add_read (- 1) k l) l' \<Longrightarrow> same_bytes l l'" by (rule same_bytes_trans [OF same_bytes_refl(2)])
  ultimately show ?case
    using Cons.prems Cons.IH same_bytes_trans
    by (auto simp: Let_def split: option.splits if_splits prod.splits sum.splits) blast+
qed

lemma same_bytes_finish_read [same_bytes]: "finish_read keys l = (r, l') \<Longrightarrow> same_bytes l l'"
  by (auto simp: finish_read_def Let_def dest: same_bytes_finish_read_loop split: prod.splits sum.splits)

lemma same_bytes_delete_loop: "delete_loop force keys deleted l = (r, l') \<Longrightarrow> same_bytes l l'"
proof (induction keys arbitrary: deleted l)
  case Nil
  then show ?case by simp
next
  case (Cons k keys)
  then show ?case
    using same_bytes_drop_entry same_bytes_trans
    by (auto split: option.splits if_splits prod.splits sum.splits) blast+
qed

lemma same_bytes_delete [same_bytes]: "delete keys force l = (r, l') \<Longrightarrow> same_bytes l l'"
  by (auto simp: delete_def dest: same_bytes_delete_loop split: prod.splits sum.splits)

lemma same_bytes_reads [same_bytes]: "reserve_read keys l = (res, l') \<Longrightarrow> same_bytes l l'"
  "reserve_read_prefix keys l = (n, l') \<Longrightarrow> same_bytes l l'"
  by (auto simp: reserve_read_eq reserve_read_prefix_eq same_bytes_def)

lemma same_bytes_promote: "same_bytes l (promote keys l)"
  by (simp add: same_bytes_def objs_of_promote)

text \<open>What a step does to the bytes: nothing, or it writes into an object of a chunk it has write-locked.\<close>

definition writes_into :: "mem_obj \<Rightarrow> byte list \<Rightarrow> chunk_key l1 \<Rightarrow> chunk_key l1 \<Rightarrow> bool" where
  "writes_into ob bs l l' \<longleftrightarrow> length bs \<le> mo_nbytes ob
     \<and> pool_mem (allocator l') = write_seg (mo_offset ob) bs (pool_mem (allocator l))"

lemma writes_into_apart:
  assumes "writes_into ob bs l l'" and "seg_disjoint (seg_of ob) (seg_of ob')"
    and "mo_offset ob + mo_nbytes ob \<le> capacity (allocator l)"
  shows "read_obj (allocator l') ob' = read_obj (allocator l) ob'"
proof -
  have le: "mo_offset ob + length bs \<le> length (pool_mem (allocator l))"
    using assms(1,3) by (simp add: writes_into_def capacity_def)
  have "mo_offset ob' + mo_nbytes ob' \<le> mo_offset ob \<or> mo_offset ob + length bs \<le> mo_offset ob'"
    using assms(1,2) by (auto simp: writes_into_def seg_disjoint_def seg_of_def)
  from slice_write_seg_other [OF le this] assms(1) show ?thesis by (simp add: read_obj_def writes_into_def)
qed

lemma advance_bytes:
  assumes "advance ch task s = (r, s')" and "task_ok task (st_l1 s)"
  shows "same_bytes (st_l1 s) (st_l1 s')
    \<or> (\<exists>k \<in> set (writes_of task). \<exists>ob bs. objs_of (st_l1 s) k = Some ob \<and> writes_into ob bs (st_l1 s) (st_l1 s'))"
proof (cases task)
  case (Store_write plan written)
  show ?thesis
  proof (cases plan)
    case Nil
    with assms(1) Store_write show ?thesis by (auto simp: with_l1_def dest: same_bytes split: prod.splits sum.splits)
  next
    case (Cons w rest)
    obtain ob blob where w: "w = (ob, blob)" by fastforce
    from assms(2) Store_write Cons w obtain k where "k \<in> set written" "objs_of (st_l1 s) k = Some ob" by auto
    moreover have "st_l1 s' = st_l1 s \<or> writes_into ob blob (st_l1 s) (st_l1 s')"
      using assms(1) Store_write Cons w by (auto simp: write_obj_def writes_into_def set_pool_def split: sum.splits if_splits)
    ultimately show ?thesis using Store_write by auto
  qed
next
  case (Prefetch_load rid l1_keys n load_keys objs)
  then have slots: "slots_ok load_keys objs (st_l1 s)" using assms(2) by simp
  have "st_l1 s' = st_l1 s \<or> (\<exists>i bs. i < length objs \<and> writes_into (objs ! i) bs (st_l1 s) (st_l1 s'))"
  proof (cases ch)
    case (Fill i bytes)
    have "st_l1 s' = st_l1 s \<or> i < length objs \<and> writes_into (objs ! i) bytes (st_l1 s) (st_l1 s')"
      using assms(1) Prefetch_load Fill
      by (auto simp: write_obj_def writes_into_def set_pool_def split: sum.splits if_splits)
    then show ?thesis by blast
  next
    case (Fill_front i bytes)
    show ?thesis
    proof (cases "i < length objs")
      case True
      then have "writes_into (objs ! i) (take (mo_nbytes (objs ! i)) bytes) (st_l1 s) (st_l1 s')"
        using Fill_front assms(1) Prefetch_load by (auto simp: readinto_def Let_def writes_into_def set_pool_def)
      with True show ?thesis by blast
    qed (use Fill_front assms(1) Prefetch_load in auto)
  qed (use assms(1) Prefetch_load in auto)
  then show ?thesis
  proof
    assume "\<exists>i bs. i < length objs \<and> writes_into (objs ! i) bs (st_l1 s) (st_l1 s')"
    then obtain i bs where i: "i < length objs" "writes_into (objs ! i) bs (st_l1 s) (st_l1 s')" by blast
    from slots have "length load_keys = length objs" unfolding slots_ok_def by (metis length_map)
    moreover from this have "objs_of (st_l1 s) (load_keys ! i) = Some (objs ! i)"
      using slots i(1) unfolding slots_ok_def by (metis nth_map)
    ultimately show ?thesis using i Prefetch_load by (auto intro!: bexI [of _ "load_keys ! i"])
  qed simp
next
  case (Release rid keys ending)
  have "st_l1 s1 = st_l1 s" if "take_held rid keys s = (q, s1)" for q s1
    using that by (auto simp: take_held_def set_held_def Let_def split: prod.splits sum.splits)
  with assms(1) Release show ?thesis by (auto split: prod.splits sum.splits)
next
  case (Retrieve_send rid keys objs)
  with assms(1) show ?thesis by (cases objs) auto
next
  case (Prefetch_resolve rid l1_keys loaded_keys gbps)
  with assms(1) show ?thesis by (cases gbps) (auto simp: publish_def split: if_splits)
next
  case Prefetch_get
  with assms(1) show ?thesis by (auto split: list.splits)
next
  case (Prefetch_lookup rid l1_keys missing n)
  with assms(1) show ?thesis by (cases ch) auto
next
  case (Prefetch_reserve rid l1_keys ks n load_keys objs)
  with assms(1) show ?thesis by (cases ks) (auto simp: on_l1_def dest: same_bytes split: prod.splits)
next
  case Back_get
  with assms(1) show ?thesis by (auto simp: same_bytes_def split: list.splits)
next
  case Evict_pick
  with assms(1) show ?thesis by auto
qed (use assms(1) same_bytes_promote in \<open>auto simp: with_l1_def on_l1_def Let_def dest: same_bytes split: prod.splits sum.splits if_splits\<close>)

subsection \<open>The other threads\<close>

text \<open>What other threads do leaves the objects and the bytes of what a thread is writing alone.\<close>

lemma others_keep_bytes:
  assumes sim: "sim c y" and inv: "proto_inv y" and mine: "running c t = Some mine" "k \<in> set (writes_of mine)"
    and other: "t' \<noteq> t" and ob: "objs_of (st_l1 (shared c)) k = Some ob"
    and c': "c' = run_thread t' ch c"
  shows "objs_of (st_l1 (shared c')) k = Some ob
    \<and> read_obj (allocator (st_l1 (shared c'))) ob = read_obj (allocator (st_l1 (shared c))) ob"
proof (cases "running c t'")
  case None
  with c' ob show ?thesis by (simp add: run_thread_def)
next
  case (Some task)
  obtain r s where adv: "advance ch task (shared c) = (r, s)" by fastforce
  have after: "c' = after_step t' task r s c" using Some adv c' by (simp add: run_thread_def after_step_def)
  from sim_advance [OF sim inv Some adv] after obtain y' where y': "sim c' y'"
    and u: "undisturbed (insert (Thread t') (range Session)) y y'" unfolding follows_def by blast
  note d = simD [OF sim Some] and i = proto_invD [OF inv]
  have l1: "sy_l1 y = st_l1 (shared c)" "sy_l1 y' = st_l1 (shared c')" "shared c' = s"
    using sim y' after by (simp_all add: sim_def)
  have own: "(Thread t, k) \<in> sy_writes y" using simD(3) [OF sim mine(1)] mine(2) by blast
  from ob obtain e where e: "entries (st_l1 (shared c)) k = Some e" "en_obj e = ob" by (auto simp: objs_of_def)
  have "Thread t \<notin> insert (Thread t') (range Session)" using other by auto
  with u own e l1 obtain e' where "entries (st_l1 (shared c')) k = Some e'" "en_obj e' = ob"
    unfolding undisturbed_def by metis
  then have kept: "objs_of (st_l1 (shared c')) k = Some ob" by (simp add: objs_of_def)
  from advance_bytes [OF adv d(4)]
  show ?thesis
  proof
    assume "same_bytes (st_l1 (shared c)) (st_l1 s)"
    with kept l1(3) show ?thesis by (simp add: same_bytes_def read_obj_def)
  next
    assume "\<exists>j \<in> set (writes_of task). \<exists>ob' bs. objs_of (st_l1 (shared c)) j = Some ob'
      \<and> writes_into ob' bs (st_l1 (shared c)) (st_l1 s)"
    then obtain j ob' bs where j: "j \<in> set (writes_of task)" "objs_of (st_l1 (shared c)) j = Some ob'"
      "writes_into ob' bs (st_l1 (shared c)) (st_l1 s)" by blast
    have "(Thread t', j) \<in> sy_writes y" using d(3) j(1) by blast
    with own other have "j \<noteq> k" using parties_okD(4) [OF i(2)] by blast
    from j(2) obtain f where f: "entries (st_l1 (shared c)) j = Some f" "en_obj f = ob'" by (auto simp: objs_of_def)
    have l1inv: "l1_inv {} (st_l1 (shared c))" using i(1) l1 by simp
    have "read_obj (allocator (st_l1 s)) ob = read_obj (allocator (st_l1 (shared c))) ob"
      by (rule writes_into_apart [OF j(3)])
        (use l1_inv_disjoint [OF l1inv f(1) e(1) \<open>j \<noteq> k\<close>] l1_inv_within [OF l1inv f(1)] f(2) e(2) in simp_all)
    with kept l1(3) show ?thesis by simp
  qed
qed

subsection \<open>A STORE between its reservation and its publication\<close>

text \<open>
  \<open>writing plan written t c\<close>: thread \<open>t\<close> is filling the objects of the plan, those of the keys \<open>written\<close>; a
  first part of them has its bytes.
\<close>

definition writing :: "(mem_obj \<times> byte list) list \<Rightarrow> chunk_key list \<Rightarrow> nat \<Rightarrow> threads \<Rightarrow> bool" where
  "writing plan written t c \<longleftrightarrow> (\<exists>m \<le> length plan. running c t = Some (Store_write (drop m plan) written)
     \<and> map (objs_of (st_l1 (shared c))) written = map (Some \<circ> fst) plan
     \<and> (\<forall>i < m. read_obj (allocator (st_l1 (shared c))) (fst (plan ! i)) = snd (plan ! i)))"

lemma written_apart:
  assumes inv: "l1_inv {} l" and map: "map (objs_of l) written = map (Some \<circ> fst) plan" and "distinct written"
    and ij: "i < length plan" "j < length plan" "i \<noteq> j"
  shows "seg_disjoint (seg_of (fst (plan ! i))) (seg_of (fst (plan ! j)))"
    and "mo_offset (fst (plan ! i)) + mo_nbytes (fst (plan ! i)) \<le> capacity (allocator l)"
proof -
  have len: "length written = length plan" using map by (metis length_map)
  have ob: "\<exists>e. entries l (written ! q) = Some e \<and> en_obj e = fst (plan ! q)" if "q < length plan" for q
  proof -
    have "objs_of l (written ! q) = Some (fst (plan ! q))" using map that len by (metis comp_apply nth_map)
    then show ?thesis by (auto simp: objs_of_def)
  qed
  from ob [OF ij(1)] ob [OF ij(2)] obtain e e' where
    e: "entries l (written ! i) = Some e" "en_obj e = fst (plan ! i)"
      "entries l (written ! j) = Some e'" "en_obj e' = fst (plan ! j)" by blast
  have "written ! i \<noteq> written ! j" using assms(3) ij len by (simp add: nth_eq_iff_index_eq)
  from l1_inv_disjoint [OF inv e(1,3) this] l1_inv_within [OF inv e(1)] e(2,4)
  show "seg_disjoint (seg_of (fst (plan ! i))) (seg_of (fst (plan ! j)))"
    "mo_offset (fst (plan ! i)) + mo_nbytes (fst (plan ! i)) \<le> capacity (allocator l)" by simp_all
qed

lemma writing_own_step:
  assumes sim: "sim c y" and inv: "proto_inv y" and w: "writing plan written t c" and "distinct written"
  shows "writing plan written t (run_thread t ch c) \<or> running (run_thread t ch c) t = None"
proof -
  from w obtain m where m: "m \<le> length plan" "running c t = Some (Store_write (drop m plan) written)"
    and map: "map (objs_of (st_l1 (shared c))) written = map (Some \<circ> fst) plan"
    and past: "\<forall>i < m. read_obj (allocator (st_l1 (shared c))) (fst (plan ! i)) = snd (plan ! i)"
    by (auto simp: writing_def)
  have l1inv: "l1_inv {} (st_l1 (shared c))" using proto_invD(1) [OF inv] sim by (simp add: sim_def)
  show ?thesis
  proof (cases "m = length plan")
    case True
    with m(2) show ?thesis by (auto simp: run_thread_def with_l1_def split: prod.splits sum.splits)
  next
    case False
    then have lt: "m < length plan" using m(1) by simp
    obtain ob blob where ob: "plan ! m = (ob, blob)" by fastforce
    have dr: "drop m plan = (ob, blob) # drop (Suc m) plan" using lt ob by (metis Cons_nth_drop_Suc)
    show ?thesis
    proof (cases "write_obj ob blob (allocator (st_l1 (shared c)))")
      case (Inl x)
      with m(2) dr show ?thesis by (simp add: run_thread_def)
    next
      case (Inr p)
      let ?l = "set_pool p (st_l1 (shared c))"
      have c': "shared (run_thread t ch c) = (shared c)\<lparr>st_l1 := ?l\<rparr>"
        "running (run_thread t ch c) t = Some (Store_write (drop (Suc m) plan) written)"
        using m(2) dr Inr by (simp_all add: run_thread_def)
      have into: "writes_into ob blob (st_l1 (shared c)) ?l"
        using write_obj_InrD [OF Inr] by (simp add: writes_into_def)
      have "length written = length plan" using map by (metis length_map)
      then have "objs_of (st_l1 (shared c)) (written ! m) = Some ob" using map lt ob by (metis comp_apply fst_conv nth_map)
      then obtain e where "entries (st_l1 (shared c)) (written ! m) = Some e" "en_obj e = ob" by (auto simp: objs_of_def)
      with l1_inv_within [OF l1inv, of "written ! m" e]
      have within: "mo_offset ob + mo_nbytes ob \<le> capacity (allocator (st_l1 (shared c)))" by simp
      have "read_obj (allocator ?l) (fst (plan ! i)) = snd (plan ! i)" if "i < Suc m" for i
      proof (cases "i = m")
        case True
        have "length blob = mo_nbytes ob" using Inr by (simp add: write_obj_def split: if_splits)
        with within slice_write_seg_same [of "mo_offset ob" blob "pool_mem (allocator (st_l1 (shared c)))"]
          write_obj_InrD(2) [OF Inr] True ob
        show ?thesis by (simp add: read_obj_def capacity_def)
      next
        case False
        then have "i < m" "i < length plan" using that lt by simp_all
        have "read_obj (allocator ?l) (fst (plan ! i)) = read_obj (allocator (st_l1 (shared c))) (fst (plan ! i))"
          by (rule writes_into_apart [OF into])
            (use written_apart(1) [OF l1inv map assms(4) lt \<open>i < length plan\<close>] False ob within in simp_all)
        with past \<open>i < m\<close> show ?thesis by simp
      qed
      then have "writing plan written t (run_thread t ch c)"
        unfolding writing_def c' using map lt by (intro exI [of _ "Suc m"]) (simp add: Suc_le_eq)
      then show ?thesis by blast
    qed
  qed
qed

lemma writing_other_step:
  assumes sim: "sim c y" and inv: "proto_inv y" and w: "writing plan written t c" and other: "t' \<noteq> t"
  shows "writing plan written t (run_thread t' ch c)"
proof -
  from w obtain m where m: "m \<le> length plan" "running c t = Some (Store_write (drop m plan) written)"
    and map: "map (objs_of (st_l1 (shared c))) written = map (Some \<circ> fst) plan"
    and past: "\<forall>i < m. read_obj (allocator (st_l1 (shared c))) (fst (plan ! i)) = snd (plan ! i)"
    by (auto simp: writing_def)
  let ?c = "run_thread t' ch c"
  have len: "length written = length plan" using map by (metis length_map)
  have keep: "objs_of (st_l1 (shared ?c)) (written ! i) = Some (fst (plan ! i))
      \<and> read_obj (allocator (st_l1 (shared ?c))) (fst (plan ! i)) = read_obj (allocator (st_l1 (shared c))) (fst (plan ! i))"
    if i: "i < length plan" for i
  proof (rule others_keep_bytes [OF sim inv m(2) _ other _ refl])
    show "written ! i \<in> set (writes_of (Store_write (drop m plan) written))" using i len by simp
    show "objs_of (st_l1 (shared c)) (written ! i) = Some (fst (plan ! i))"
      using map i len by (metis comp_apply nth_map)
  qed
  have "running ?c t = running c t" using other by (auto simp: run_thread_def split: option.splits prod.splits)
  moreover have "map (objs_of (st_l1 (shared ?c))) written = map (Some \<circ> fst) plan"
    using keep len by (intro nth_equalityI) simp_all
  ultimately show ?thesis unfolding writing_def using m keep past by (intro exI [of _ m]) simp
qed

lemma writing_run:
  "play ms c = Some c' \<Longrightarrow> \<forall>task. Spawn t task \<notin> set ms \<Longrightarrow> sim c y \<Longrightarrow> proto_inv y \<Longrightarrow>
   writing plan written t c \<Longrightarrow> distinct written \<Longrightarrow> writing plan written t c' \<or> running c' t = None"
proof (induction ms arbitrary: c y)
  case Nil
  then show ?case by simp
next
  case (Cons m ms)
  from Cons.prems(1) obtain c1 where c1: "play [m] c = Some c1" "play ms c1 = Some c'"
    unfolding play_Cons [of m ms] by (auto split: option.splits)
  have spawn: "\<forall>task. Spawn t task \<notin> set ms" using Cons.prems(2) by simp
  have "writing plan written t c1 \<or> running c1 t = None"
  proof (cases m)
    case (Spawn u task)
    with c1(1) Cons.prems(2,5) show ?thesis by (auto simp: writing_def split: if_splits)
  next
    case (Run u ch)
    with c1(1) writing_own_step [OF Cons.prems(3-6), of ch] writing_other_step [OF Cons.prems(3-5), of u ch]
    show ?thesis by (cases "u = t") auto
  qed
  then show ?case
  proof
    assume w: "writing plan written t c1"
    from sim_run [OF play_reaches [OF c1(1)] Cons.prems(3,4)] obtain y1 where
      y1: "proto_step\<^sup>*\<^sup>* y y1" "sim c1 y1" by blast
    from Cons.IH [OF c1(2) spawn y1(2) proto_steps_inv [OF y1(1) Cons.prems(4)] w Cons.prems(6)] show ?case .
  next
    assume "running c1 t = None"
    from ended_stays [OF this c1(2) spawn] show ?case by blast
  qed
qed

subsection \<open>The plan of a STORE\<close>

lemma store_plan_at:
  "(k, ob, blob) \<in> set (store_plan reserved chunks j keys) \<Longrightarrow>
   \<exists>i < length keys. keys ! i = k \<and> j + i < length chunks \<and> blob = chunks ! (j + i)"
proof (induction keys arbitrary: j)
  case Nil
  then show ?case by simp
next
  case (Cons k' keys)
  show ?case
  proof (cases "(k, ob, blob) \<in> set (store_plan reserved chunks (Suc j) keys)")
    case True
    from Cons.IH [OF this] obtain i where "i < length keys" "keys ! i = k" "Suc j + i < length chunks" "blob = chunks ! (Suc j + i)"
      by blast
    then show ?thesis by (intro exI [of _ "Suc i"]) simp
  next
    case False
    with Cons.prems have "k = k'" "j < length chunks" "blob = chunks ! j" by (auto split: option.splits if_splits)
    then show ?thesis by (intro exI [of _ 0]) simp
  qed
qed

lemma store_plan_has:
  "i < length keys \<Longrightarrow> reserved (keys ! i) = Some (Some ob) \<Longrightarrow> j + i < length chunks \<Longrightarrow>
   keys ! i \<in> fst ` set (store_plan reserved chunks j keys)"
proof (induction keys arbitrary: i j)
  case Nil
  then show ?case by simp
next
  case (Cons k keys)
  show ?case
  proof (cases i)
    case 0
    with Cons.prems show ?thesis by simp
  next
    case (Suc q)
    with Cons.prems have "keys ! q \<in> fst ` set (store_plan reserved chunks (Suc j) keys)"
      by (intro Cons.IH) simp_all
    with Suc show ?thesis by (auto split: option.splits)
  qed
qed

lemma store_plan_distinct: "distinct keys \<Longrightarrow> distinct (map fst (store_plan reserved chunks j keys))"
proof (induction keys arbitrary: j)
  case (Cons k keys)
  have "fst x \<in> set keys" if "x \<in> set (store_plan reserved chunks (Suc j) keys)" for x
    using that store_plan_sound [of "fst x" "fst (snd x)" "snd (snd x)"] by simp
  with Cons show ?case by (fastforce split: option.splits)
qed simp

lemma reserved_all:
  assumes "l1_inv {} l" and "0 < n" and "enough_room (length (missing_keys keys l)) n (allocator l)"
    and "reserve_write keys n temp l = (res, l')" and "k \<in> set keys" and "entries l k = None"
  shows "\<exists>ob. res k = Some (Some ob)"
proof -
  from reserve_write_granted [OF assms(1-3), of temp] assms(4) obtain objs where
    len: "length objs = length (missing_keys keys l)"
    and res: "res = (\<lambda>k. case map_of (rev (zip (missing_keys keys l) objs)) k of
        None \<Rightarrow> fromkeys_none keys k | Some ob \<Rightarrow> Some (Some ob))" by auto
  have "k \<in> set (missing_keys keys l)" using assms(5,6) by simp
  then have "k \<in> fst ` set (rev (zip (missing_keys keys l) objs))" using len by (simp flip: set_map add: map_fst_zip)
  then have "map_of (rev (zip (missing_keys keys l) objs)) k \<noteq> None" by (subst map_of_eq_None_iff) simp
  then show ?thesis by (auto simp: res)
qed

text \<open>The state after the first step of a STORE.\<close>

lemma store_starts_writing:
  assumes sim: "sim c y" and inv: "proto_inv y" and run: "running c t = Some (Store_reserve keys n chunks)"
  shows "\<exists>plan. let c1 = run_thread t ch c; written = map fst plan in
    writing (map snd plan) written t c1 \<and> distinct written
    \<and> (\<forall>(k, ob, blob) \<in> set plan. \<exists>i < length keys. keys ! i = k \<and> i < length chunks \<and> blob = chunks ! i)
    \<and> (enough_room (length (missing_keys keys (st_l1 (shared c)))) n (allocator (st_l1 (shared c))) \<longrightarrow>
        (\<forall>i < length keys. i < length chunks \<longrightarrow> entries (st_l1 (shared c)) (keys ! i) = None \<longrightarrow> keys ! i \<in> set written))"
proof -
  let ?l = "st_l1 (shared c)"
  have ok: "0 < n" "distinct keys" using simD(4) [OF sim run] by simp_all
  have l1inv: "l1_inv {} ?l" using proto_invD(1) [OF inv] sim by (simp add: sim_def)
  obtain res l where rw: "reserve_write keys n False ?l = (res, l)" by fastforce
  define plan where "plan = store_plan res chunks 0 keys"
  have c1: "running (run_thread t ch c) t = Some (Store_write (map snd plan) (map fst plan))"
    "st_l1 (shared (run_thread t ch c)) = l"
    using run rw by (simp_all add: run_thread_def on_l1_def Let_def plan_def)
  have ob: "objs_of l k = Some ob" if "(k, ob, blob) \<in> set plan" for k ob blob
    using store_plan_sound [OF that [unfolded plan_def]] reserve_write_effect(1) [OF l1inv ok(1) rw, of k ob]
    by (simp add: objs_of_def Entry_def)
  then have "map (objs_of l) (map fst plan) = map (Some \<circ> fst) (map snd plan)" by auto
  then have "writing (map snd plan) (map fst plan) t (run_thread t ch c)"
    unfolding writing_def c1(2) using c1(1) by (intro exI [of _ 0]) simp
  moreover have "distinct (map fst plan)" unfolding plan_def by (rule store_plan_distinct [OF ok(2)])
  moreover have "\<forall>(k, ob, blob) \<in> set plan. \<exists>i < length keys. keys ! i = k \<and> i < length chunks \<and> blob = chunks ! i"
    using store_plan_at [of _ _ _ res chunks 0 keys] by (fastforce simp: plan_def)
  moreover have "keys ! i \<in> set (map fst plan)"
    if "enough_room (length (missing_keys keys ?l)) n (allocator ?l)" "i < length keys" "i < length chunks"
      "entries ?l (keys ! i) = None" for i
    using reserved_all [OF l1inv ok(1) that(1) rw _ that(4)] store_plan_has [OF that(2), of res _ 0 chunks] that(2,3)
    by (auto simp: plan_def)
  ultimately show ?thesis by (intro exI [of _ plan]) (simp only: Let_def, blast)
qed

subsection \<open>Property\<close>

text \<open>
  C16. A STORE publishes the bytes of its payload under every interleaving: whatever other requests, loads,
  evictions and write-backs do between the reservation of its chunks, its writes and their publication, when
  its thread publishes the keys \<open>written\<close>, each of them is readable with exactly the chunk the payload has at its
  place.  If the pool had room at the reservation, these are all keys that had a chunk and were not in the table.
\<close>

theorem store_publishes_its_payload:
  assumes "thread_step\<^sup>*\<^sup>* (started m l2s) c" and "running c t = Some (Store_reserve keys n chunks)"
    and "play ms (run_thread t ch c) = Some c'" and "\<forall>task. Spawn t task \<notin> set ms"
    and "running c' t = Some (Store_write [] written)" and "d = run_thread t ch' c'"
  shows "running d t = None \<and> raised_by d = raised_by c'
    \<and> (\<forall>k \<in> set written. \<exists>i < length keys. keys ! i = k \<and> i < length chunks \<and> is_readable (st_l1 (shared d)) k
        \<and> (\<exists>ob. objs_of (st_l1 (shared d)) k = Some ob \<and> read_obj (allocator (st_l1 (shared d))) ob = chunks ! i))
    \<and> (enough_room (length (missing_keys keys (st_l1 (shared c)))) n (allocator (st_l1 (shared c))) \<longrightarrow>
        (\<forall>i < length keys. i < length chunks \<longrightarrow> entries (st_l1 (shared c)) (keys ! i) = None \<longrightarrow> keys ! i \<in> set written))"
proof -
  from sim_reachable [OF assms(1)] obtain y where y: "proto_step\<^sup>*\<^sup>* (quiet_locks m l2s) y" "sim c y" by blast
  have "proto_inv (quiet_locks m l2s)" unfolding quiet_locks_def by (rule proto_inv_init)
  with proto_steps_inv [OF y(1)] have inv: "proto_inv y" by blast
  from store_starts_writing [OF y(2) inv assms(2), of ch] obtain plan where
    w: "writing (map snd plan) (map fst plan) t (run_thread t ch c)" and dist: "distinct (map fst plan)"
    and chunk: "\<forall>(k, ob, blob) \<in> set plan. \<exists>i < length keys. keys ! i = k \<and> i < length chunks \<and> blob = chunks ! i"
    and all: "enough_room (length (missing_keys keys (st_l1 (shared c)))) n (allocator (st_l1 (shared c))) \<longrightarrow>
        (\<forall>i < length keys. i < length chunks \<longrightarrow> entries (st_l1 (shared c)) (keys ! i) = None \<longrightarrow> keys ! i \<in> set (map fst plan))"
    unfolding Let_def by blast
  from sim_run [OF run_thread_steps y(2) inv] obtain y1 where y1: "proto_step\<^sup>*\<^sup>* y y1" "sim (run_thread t ch c) y1" by blast
  have inv1: "proto_inv y1" by (rule proto_steps_inv [OF y1(1) inv])
  from writing_run [OF assms(3,4) y1(2) inv1 w dist] assms(5) have "writing (map snd plan) (map fst plan) t c'" by simp
  then obtain q where q: "q \<le> length plan" "Store_write [] written = Store_write (drop q (map snd plan)) (map fst plan)"
    and map: "map (objs_of (st_l1 (shared c'))) (map fst plan) = map (Some \<circ> fst) (map snd plan)"
    and bytes: "\<forall>i < q. read_obj (allocator (st_l1 (shared c'))) (fst (map snd plan ! i)) = snd (map snd plan ! i)"
    using assms(5) by (auto simp: writing_def)
  have written: "written = map fst plan" and full: "q = length plan" using q by simp_all
  from sim_run [OF play_reaches [OF assms(3)] y1(2) inv1] obtain y2 where y2: "proto_step\<^sup>*\<^sup>* y1 y2" "sim c' y2" by blast
  have inv2: "proto_inv y2" by (rule proto_steps_inv [OF y2(1) inv1])
  note d = simD [OF y2(2) assms(5)] and i = proto_invD [OF inv2]
  obtain u l where fw: "finish_write written (st_l1 (shared c')) = (u, l)" by fastforce
  have "{Thread t} \<times> set written \<subseteq> sy_writes y2" using d(3) by simp
  from own_writes_in_dom [OF i(2) this] d(1) have dom: "set written \<subseteq> dom (entries (st_l1 (shared c')))" by simp
  note fin = finish_write_ok [OF dom fw]
  have fl: "allocator l = allocator (st_l1 (shared c'))" "objs_of l = objs_of (st_l1 (shared c'))"
    using finish_write_frame [OF fw] by simp_all
  have step: "running d t = None" "raised_by d = raised_by c'" "st_l1 (shared d) = l"
    using assms(5,6) fw fin(1) by (simp_all add: run_thread_def with_l1_def)
  have "\<exists>i < length keys. keys ! i = k \<and> i < length chunks \<and> is_readable l k
      \<and> (\<exists>ob. objs_of l k = Some ob \<and> read_obj (allocator l) ob = chunks ! i)" if k: "k \<in> set written" for k
  proof -
    from k written obtain p where p: "p < length plan" "fst (plan ! p) = k" by (auto simp: in_set_conv_nth)
    obtain ob blob where pl: "plan ! p = (k, ob, blob)" using p(2) by (cases "plan ! p") auto
    have "(k, ob, blob) \<in> set plan" using p(1) pl by (metis nth_mem)
    with chunk obtain j where "j < length keys" "keys ! j = k" "j < length chunks" "blob = chunks ! j" by blast
    moreover have "objs_of l k = Some ob"
      using arg_cong [OF map, of "\<lambda>xs. xs ! p"] p pl fl(2) by simp
    moreover have "read_obj (allocator l) ob = blob" using bytes full p(1) pl fl(1) by auto
    moreover from k dom obtain e where "entries (st_l1 (shared c')) k = Some e" by blast
    then have "is_readable l k" using fin(2) k by (simp add: is_readable_iff unlocked_entry_def)
    ultimately show ?thesis by blast
  qed
  with step all written show ?thesis by blast
qed

text \<open>A STORE whose reservation, write and publication have a lookup of another chunk in between.\<close>

definition store_start :: "move list" where
  "store_start = [Spawn 4 (Store_reserve [demo_key 2] 2 [[8, 9]])]"

definition store_rest :: "move list" where
  "store_rest = take 11 lookup_moves @ [Run 4 Go] @ drop 11 lookup_moves"

lemma store_start_played:
  "case play store_start demo_start of None \<Rightarrow> False | Some c \<Rightarrow>
     (case running c 4 of Some (Store_reserve keys n chunks) \<Rightarrow> keys = [demo_key 2] \<and> n = 2 \<and> chunks = [[8, 9]] | _ \<Rightarrow> False)
     \<and> (case entries (st_l1 (shared c)) (demo_key 2) of None \<Rightarrow> True | Some _ \<Rightarrow> False)
     \<and> free_list (allocator (st_l1 (shared c))) 2 = [] \<and> capacity (allocator (st_l1 (shared c))) = 4
     \<and> brk (allocator (st_l1 (shared c))) = 0"
  by code_simp

lemma store_rest_played:
  "case play (store_start @ Run 4 Go # store_rest) demo_start of None \<Rightarrow> False | Some c \<Rightarrow>
     (case running c 4 of Some (Store_write plan written) \<Rightarrow> plan = [] | _ \<Rightarrow> False)"
  by code_simp

lemma store_publishes_its_payload_witness:
  "(let d = run_thread 4 Go (demo_played (store_start @ Run 4 Go # store_rest))
    in is_readable (st_l1 (shared d)) (demo_key 2)
      \<and> (\<exists>ob. objs_of (st_l1 (shared d)) (demo_key 2) = Some ob \<and> read_obj (allocator (st_l1 (shared d))) ob = [8, 9]))"
proof -
  let ?c = "demo_played store_start" and ?c' = "demo_played (store_start @ Run 4 Go # store_rest)"
  note p = playedD [OF store_start_played] and q = playedD [OF store_rest_played]
  from p(2) have run: "running ?c 4 = Some (Store_reserve [demo_key 2] 2 [[8, 9]])"
    and free: "entries (st_l1 (shared ?c)) (demo_key 2) = None"
    by (auto split: option.splits task.splits)
  from p(2) have room: "enough_room (length (missing_keys [demo_key 2] (st_l1 (shared ?c)))) 2 (allocator (st_l1 (shared ?c)))"
    by (simp add: enough_room_def missing_keys_def)
  from q(2) obtain written where w: "running ?c' 4 = Some (Store_write [] written)" by (auto split: option.splits task.splits)
  have pl: "play store_rest (run_thread 4 Go ?c) = Some ?c'" using q(3) p(3) by (simp add: play_append)
  have "\<forall>task. Spawn 4 task \<notin> set store_rest" by (simp add: store_rest_def lookup_moves_def)
  from store_publishes_its_payload [OF p(1) run pl this w refl, of Go] room free show ?thesis
    unfolding Let_def by (metis One_nat_def length_Cons less_one list.size(3) nth_Cons_0)
qed

end
