(* ===== verification/Server_Main.thy ===== *)
theory Server_Main
  imports Server_Threads_Laws Server
begin

text \<open>
  How the server process starts (\<open>main\<close>, \<open>serve\<close> and \<open>build_l2s\<close> of \<open>mini_llmcache/server.py\<close>): command line
  options, adapter specs, the pool, the socket.  What the process finds outside is the argument \<open>platform\<close>:
  how \<open>json.loads\<close> reads a spec, what \<open>FSAdapter\<close> finds in (or why it cannot make) its directory,
  the pinned memory \<open>torch.empty\<close> gives, and whether the socket can be bound.
\<close>

datatype json =
    JNull | JBool bool | JNumber rat | JString string | JList "json list" | JObject "(string \<times> json) list"

record platform =
  json_loads :: "string \<Rightarrow> json res"
  open_dir :: "string \<Rightarrow> fs res"
  torch_empty :: "int \<Rightarrow> byte list res"
  bind_socket :: "string \<Rightarrow> unit res"

subsection \<open>Adapters\<close>

text \<open>
  \<open>FSAdapter(**kwargs)\<close> and \<open>MockAdapter(**kwargs)\<close>: one argument \<open>base_path\<close>, which \<open>Path\<close>
  takes only as a string, and none.
\<close>

definition call_fs :: "platform \<Rightarrow> (string \<times> json) list \<Rightarrow> adapter res" where
  "call_fs P kwargs =
     (case kwargs of
        [(name, v)] \<Rightarrow>
          if name \<noteq> ''base_path'' then Inl TypeError
          else (case v of JString path \<Rightarrow> map_sum id Fs (open_dir P path) | _ \<Rightarrow> Inl TypeError)
      | _ \<Rightarrow> Inl TypeError)"

definition call_mock :: "(string \<times> json) list \<Rightarrow> adapter res" where
  "call_mock kwargs = (if kwargs = [] then Inr (Mock Map.empty) else Inl TypeError)"

text \<open>\<open>REGISTRY[...]\<close>: a key that is a list or a dictionary cannot be hashed.\<close>

definition REGISTRY :: "platform \<Rightarrow> json \<Rightarrow> ((string \<times> json) list \<Rightarrow> adapter res) res" where
  "REGISTRY P t =
     (case t of
        JString name \<Rightarrow>
          if name = ''fs'' then Inr (call_fs P) else if name = ''mock'' then Inr call_mock else Inl KeyError
      | JList _ \<Rightarrow> Inl TypeError
      | JObject _ \<Rightarrow> Inl TypeError
      | _ \<Rightarrow> Inl KeyError)"

text \<open>
  \<open>spec.pop("type")\<close> of a value that is no dictionary: a list has a \<open>pop\<close> that wants a number, the
  other values have none.
\<close>

definition build_adapter :: "platform \<Rightarrow> json \<Rightarrow> adapter res" where
  "build_adapter P spec =
     (case spec of
        JObject items \<Rightarrow>
          (case map_of items ''type'' of
             None \<Rightarrow> Inl KeyError
           | Some t \<Rightarrow>
               (case REGISTRY P t of
                  Inl x \<Rightarrow> Inl x
                | Inr cls \<Rightarrow> cls (filter (\<lambda>(name, _). name \<noteq> ''type'') items)))
      | JList _ \<Rightarrow> Inl TypeError
      | _ \<Rightarrow> Inl AttributeError)"

fun build_l2s :: "platform \<Rightarrow> string list \<Rightarrow> adapter list res" where
  "build_l2s P [] = Inr []"
| "build_l2s P (spec # specs) =
     (case json_loads P spec of
        Inl x \<Rightarrow> Inl x
      | Inr j \<Rightarrow>
          (case build_adapter P j of
             Inl x \<Rightarrow> Inl x
           | Inr a \<Rightarrow> map_sum id (\<lambda>l2s. a # l2s) (build_l2s P specs)))"

subsection \<open>Starting\<close>

text \<open>The server that answers on the bound socket, or the exception that ends the process.\<close>

definition serve :: "platform \<Rightarrow> string \<Rightarrow> nat \<Rightarrow> int \<Rightarrow> string list \<Rightarrow> (string \<times> server) res" where
  "serve P bind_url chunk_size capacity_bytes l2_specs =
     (case build_l2s P l2_specs of
        Inl x \<Rightarrow> Inl x
      | Inr l2s \<Rightarrow>
          (case torch_empty P capacity_bytes of
             Inl x \<Rightarrow> Inl x
           | Inr mem \<Rightarrow>
               (case bind_socket P bind_url of
                  Inl x \<Rightarrow> Inl x
                | Inr _ \<Rightarrow> Inr (bind_url, CacheServer chunk_size mem l2s))))"

text \<open>The options, in the order of the command line; \<open>--l2-adapter\<close> adds to a list, the others overwrite.\<close>

datatype cli_option =
    Host string | Port int | Bind_url string | Chunk_size nat | L1_size_gb rat | L2_adapter string

record args =
  ar_host :: string
  ar_port :: int
  ar_bind_url :: "string option"
  ar_chunk_size :: nat
  ar_l1_size_gb :: rat
  ar_l2_adapter :: "string list"

definition default_args :: args where
  "default_args = \<lparr>ar_host = ''127.0.0.1'', ar_port = 5555, ar_bind_url = None, ar_chunk_size = 256,
     ar_l1_size_gb = 20, ar_l2_adapter = []\<rparr>"

fun apply_option :: "cli_option \<Rightarrow> args \<Rightarrow> args" where
  "apply_option (Host h) a = a\<lparr>ar_host := h\<rparr>"
| "apply_option (Port n) a = a\<lparr>ar_port := n\<rparr>"
| "apply_option (Bind_url u) a = a\<lparr>ar_bind_url := Some u\<rparr>"
| "apply_option (Chunk_size n) a = a\<lparr>ar_chunk_size := n\<rparr>"
| "apply_option (L1_size_gb g) a = a\<lparr>ar_l1_size_gb := g\<rparr>"
| "apply_option (L2_adapter s) a = a\<lparr>ar_l2_adapter := ar_l2_adapter a @ [s]\<rparr>"

definition parse_args :: "cli_option list \<Rightarrow> args" where
  "parse_args options = fold apply_option options default_args"

text \<open>Decimal digits, and \<open>int()\<close> of a number, which drops the fraction.\<close>

fun dec_nat :: "nat \<Rightarrow> string" where
  "dec_nat n = (if n < 10 then [''0123456789'' ! n] else dec_nat (n div 10) @ [''0123456789'' ! (n mod 10)])"

declare dec_nat.simps [simp del]

definition dec_int :: "int \<Rightarrow> string" where
  "dec_int i = (if i < 0 then CHR ''-'' # dec_nat (nat (- i)) else dec_nat (nat i))"

definition int_of :: "rat \<Rightarrow> int" where
  "int_of x = (if 0 \<le> x then \<lfloor>x\<rfloor> else \<lceil>x\<rceil>)"

definition bind_url_of :: "args \<Rightarrow> string" where
  "bind_url_of a =
     (let address = ''tcp://'' @ ar_host a @ '':'' @ dec_int (ar_port a)
      in case ar_bind_url a of None \<Rightarrow> address | Some url \<Rightarrow> if url = '''' then address else url)"

definition main :: "platform \<Rightarrow> cli_option list \<Rightarrow> (string \<times> server) res" where
  "main P options =
     (let a = parse_args options
      in serve P (bind_url_of a) (ar_chunk_size a) (int_of (ar_l1_size_gb a * 2 ^ 30)) (ar_l2_adapter a))"

subsection \<open>Lemmas\<close>

text \<open>A spec \<open>json\<close> describes the adapter \<open>a\<close>.\<close>

definition describes :: "platform \<Rightarrow> json \<Rightarrow> adapter \<Rightarrow> bool" where
  "describes P spec a \<longleftrightarrow> (\<exists>items. spec = JObject items \<and> distinct (map fst items) \<and>
     (set items = {(''type'', JString ''mock'')} \<and> a = Mock Map.empty
      \<or> (\<exists>path d. set items = {(''type'', JString ''fs''), (''base_path'', JString path)}
            \<and> open_dir P path = Inr d \<and> a = Fs d)))"

lemma map_sum_Inr: "map_sum id f r = Inr y \<longleftrightarrow> (\<exists>x. r = Inr x \<and> y = f x)"
  by (cases r) auto

lemma filter_others:
  assumes "distinct (map fst items)" and "map_of items k = Some t"
  shows "set items = insert (k, t) (set (filter (\<lambda>(name, _). name \<noteq> k) items))"
  using assms by (auto simp: eq_key_imp_eq_value dest: map_of_SomeD)

lemma build_adapter_describes:
  assumes "build_adapter P spec = Inr a" and "\<And>items. spec = JObject items \<Longrightarrow> distinct (map fst items)"
  shows "describes P spec a"
proof -
  from assms(1) obtain items t cls where spec: "spec = JObject items" "map_of items ''type'' = Some t"
    "REGISTRY P t = Inr cls" "cls (filter (\<lambda>(name, _). name \<noteq> ''type'') items) = Inr a"
    by (auto simp: build_adapter_def split: json.splits option.splits sum.splits)
  note items = filter_others [OF assms(2) [OF spec(1)] spec(2)]
  from spec(3) consider "t = JString ''fs''" "cls = call_fs P" | "t = JString ''mock''" "cls = call_mock"
    by (auto simp: REGISTRY_def split: json.splits if_splits)
  then show ?thesis
  proof cases
    case 1
    with spec(4) obtain path d where "filter (\<lambda>(name, _). name \<noteq> ''type'') items = [(''base_path'', JString path)]"
      "open_dir P path = Inr d" "a = Fs d"
      by (cases "filter (\<lambda>(name, _). name \<noteq> ''type'') items" rule: remdups_adj.cases)
        (auto simp: call_fs_def map_sum_Inr split: if_splits json.splits prod.splits)
    with items 1 spec(1) assms(2) show ?thesis by (auto simp: describes_def)
  next
    case 2
    with spec(4) have "filter (\<lambda>(name, _). name \<noteq> ''type'') items = []" "a = Mock Map.empty"
      by (auto simp: call_mock_def split: if_splits)
    with items 2 spec(1) assms(2) show ?thesis by (auto simp: describes_def)
  qed
qed

lemma describes_build_adapter:
  assumes "describes P spec a"
  shows "build_adapter P spec = Inr a"
proof -
  from assms obtain items where spec: "spec = JObject items" and dis: "distinct (map fst items)"
    and cases: "(set items = {(''type'', JString ''mock'')} \<and> a = Mock Map.empty)
      \<or> (\<exists>path d. set items = {(''type'', JString ''fs''), (''base_path'', JString path)}
            \<and> open_dir P path = Inr d \<and> a = Fs d)"
    unfolding describes_def by blast
  have dis': "distinct items" using dis by (simp add: distinct_map)
  note len = distinct_card [OF dis']
  from cases show ?thesis
  proof (elim disjE conjE exE)
    assume m: "set items = {(''type'', JString ''mock'')}" "a = Mock Map.empty"
    with len have "length items = 1" by simp
    then obtain x where x: "items = [x]" by (cases items) auto
    with m(1) have "items = [(''type'', JString ''mock'')]" by simp
    then show ?thesis by (simp add: build_adapter_def spec REGISTRY_def call_mock_def m(2))
  next
    fix path d assume f: "set items = {(''type'', JString ''fs''), (''base_path'', JString path)}"
      "open_dir P path = Inr d" "a = Fs d"
    with len have "length items = 2" by simp
    then obtain x y where xy: "items = [x, y]" by (auto simp: numeral_2_eq_2 length_Suc_conv)
    with f(1) have "items = [(''type'', JString ''fs''), (''base_path'', JString path)]
        \<or> items = [(''base_path'', JString path), (''type'', JString ''fs'')]"
      by (auto simp: doubleton_eq_iff)
    then show ?thesis by (auto simp: build_adapter_def spec REGISTRY_def call_fs_def f)
  qed
qed

text \<open>What \<open>json.loads\<close> gives: dictionaries name each key once.\<close>

definition json_ok :: "platform \<Rightarrow> bool" where
  "json_ok P \<longleftrightarrow> (\<forall>s items. json_loads P s = Inr (JObject items) \<longrightarrow> distinct (map fst items))"

definition loads_adapter :: "platform \<Rightarrow> string \<Rightarrow> adapter res" where
  "loads_adapter P spec = (case json_loads P spec of Inl x \<Rightarrow> Inl x | Inr j \<Rightarrow> build_adapter P j)"

lemma loads_adapter_iff:
  "json_ok P \<Longrightarrow> loads_adapter P spec = Inr a \<longleftrightarrow> (\<exists>j. json_loads P spec = Inr j \<and> describes P j a)"
proof (cases "json_loads P spec")
  case (Inr j)
  assume "json_ok P"
  with Inr have "\<And>items. j = JObject items \<Longrightarrow> distinct (map fst items)" by (auto simp: json_ok_def)
  with build_adapter_describes [of P j a] describes_build_adapter [of P j a] Inr show ?thesis
    by (auto simp: loads_adapter_def)
qed (simp add: loads_adapter_def)

lemma build_l2s_ok: "build_l2s P specs = Inr l2s \<longleftrightarrow> list_all2 (\<lambda>spec a. loads_adapter P spec = Inr a) specs l2s"
  by (induction specs arbitrary: l2s) (auto simp: loads_adapter_def map_sum_Inr list_all2_Cons1 split: sum.splits)

lemma build_l2s_error:
  "build_l2s P specs = Inl x \<longleftrightarrow> (\<exists>good spec rest. specs = good @ spec # rest
     \<and> (\<forall>s \<in> set good. \<exists>a. loads_adapter P s = Inr a) \<and> loads_adapter P spec = Inl x)"
proof (induction specs)
  case (Cons s specs)
  show ?case
  proof (cases "loads_adapter P s")
    case (Inl y)
    then have "build_l2s P (s # specs) = Inl y" by (auto simp: loads_adapter_def split: sum.splits)
    moreover have "loads_adapter P t = Inl z \<Longrightarrow> s # specs = good @ t # rest \<Longrightarrow>
        \<forall>s \<in> set good. \<exists>a. loads_adapter P s = Inr a \<Longrightarrow> z = y" for t z good rest
      using Inl by (cases good) auto
    ultimately show ?thesis using Inl by (metis append_Nil empty_iff empty_set sum.inject(1))
  next
    case (Inr a)
    then have "build_l2s P (s # specs) = map_sum id (\<lambda>l2s. a # l2s) (build_l2s P specs)"
      by (auto simp: loads_adapter_def split: sum.splits)
    then have "build_l2s P (s # specs) = Inl x \<longleftrightarrow> build_l2s P specs = Inl x" by (cases "build_l2s P specs") auto
    also note Cons.IH
    also have "(\<exists>good spec rest. specs = good @ spec # rest
       \<and> (\<forall>s \<in> set good. \<exists>a. loads_adapter P s = Inr a) \<and> loads_adapter P spec = Inl x) \<longleftrightarrow>
      (\<exists>good spec rest. s # specs = good @ spec # rest
       \<and> (\<forall>s \<in> set good. \<exists>a. loads_adapter P s = Inr a) \<and> loads_adapter P spec = Inl x)"
    proof
      assume "\<exists>good spec rest. specs = good @ spec # rest
        \<and> (\<forall>s \<in> set good. \<exists>a. loads_adapter P s = Inr a) \<and> loads_adapter P spec = Inl x"
      then obtain good spec rest where "specs = good @ spec # rest"
        "\<forall>s \<in> set good. \<exists>a. loads_adapter P s = Inr a" "loads_adapter P spec = Inl x" by blast
      with Inr have "s # specs = (s # good) @ spec # rest \<and> (\<forall>s \<in> set (s # good). \<exists>a. loads_adapter P s = Inr a)
        \<and> loads_adapter P spec = Inl x" by simp
      then show "\<exists>good spec rest. s # specs = good @ spec # rest
        \<and> (\<forall>s \<in> set good. \<exists>a. loads_adapter P s = Inr a) \<and> loads_adapter P spec = Inl x" by blast
    next
      assume "\<exists>good spec rest. s # specs = good @ spec # rest
        \<and> (\<forall>s \<in> set good. \<exists>a. loads_adapter P s = Inr a) \<and> loads_adapter P spec = Inl x"
      then obtain good spec rest where g: "s # specs = good @ spec # rest"
        "\<forall>s \<in> set good. \<exists>a. loads_adapter P s = Inr a" "loads_adapter P spec = Inl x" by blast
      with Inr obtain good' where "good = s # good'" "specs = good' @ spec # rest" by (cases good) auto
      with g show "\<exists>good spec rest. specs = good @ spec # rest
        \<and> (\<forall>s \<in> set good. \<exists>a. loads_adapter P s = Inr a) \<and> loads_adapter P spec = Inl x"
        by (intro exI [of _ good'] exI [of _ spec] exI [of _ rest]) simp
    qed
    finally show ?thesis .
  qed
qed simp

subsection \<open>Properties\<close>

text \<open>
  C31. The process starts a fresh server, or ends with the right exception: when it comes up, it listens on the
  address of the options, its L1 is one empty pool of as many bytes as \<open>--l1-size-gb\<close> says, its adapters are those
  the specs describe, in their order, no engine is registered, and its threads are in the initial state of
  all theorems on their interleavings; otherwise the exception is that of the first spec that is no
  adapter, of the allocation or of the socket.
\<close>

theorem main_starts_fresh_server:
  assumes "json_ok P" and "\<forall>n mem. torch_empty P n = Inr mem \<longrightarrow> int (length mem) = n"
  shows "let a = parse_args options in
    (case main P options of
       Inr (url, sv) \<Rightarrow> url = bind_url_of a \<and> bind_socket P url = Inr ()
         \<and> (\<exists>mem l2s. init_threads (sv_sm sv) = started mem l2s \<and> int (length mem) = int_of (ar_l1_size_gb a * 2 ^ 30)
           \<and> list_all2 (\<lambda>spec l2. \<exists>j. json_loads P spec = Inr j \<and> describes P j l2) (ar_l2_adapter a) l2s)
         \<and> sv_chunk_size sv = ar_chunk_size a \<and> sv_instances sv = Map.empty \<and> sv_deployments sv = Map.empty
     | Inl x \<Rightarrow>
         (\<exists>good spec rest. ar_l2_adapter a = good @ spec # rest \<and> loads_adapter P spec = Inl x
           \<and> (\<forall>s \<in> set good. \<exists>l2 j. json_loads P s = Inr j \<and> describes P j l2))
         \<or> torch_empty P (int_of (ar_l1_size_gb a * 2 ^ 30)) = Inl x \<or> bind_socket P (bind_url_of a) = Inl x)"
proof -
  let ?a = "parse_args options"
  let ?mem = "torch_empty P (int_of (ar_l1_size_gb ?a * 2 ^ 30))"
  have main: "main P options = serve P (bind_url_of ?a) (ar_chunk_size ?a) (int_of (ar_l1_size_gb ?a * 2 ^ 30)) (ar_l2_adapter ?a)"
    by (simp add: main_def Let_def)
  show ?thesis
  proof (cases "build_l2s P (ar_l2_adapter ?a)")
    case (Inl x)
    then have "main P options = Inl x" by (simp add: main serve_def)
    with Inl [unfolded build_l2s_error loads_adapter_iff [OF assms(1)]] show ?thesis unfolding Let_def by auto
  next
    case (Inr l2s)
    note l2s = Inr [unfolded build_l2s_ok loads_adapter_iff [OF assms(1)]]
    show ?thesis
    proof (cases ?mem)
      case (Inl x)
      with Inr show ?thesis by (simp add: main serve_def Let_def)
    next
      case mem: (Inr mem)
      show ?thesis
      proof (cases "bind_socket P (bind_url_of ?a)")
        case (Inl x)
        with Inr mem show ?thesis by (simp add: main serve_def Let_def)
      next
        case bound: (Inr u)
        have "main P options = Inr (bind_url_of ?a, CacheServer (ar_chunk_size ?a) mem l2s)"
          using Inr mem bound by (simp add: main serve_def)
        with l2s mem bound assms(2) show ?thesis by (auto simp: Let_def CacheServer_def started_def)
      qed
    qed
  qed
qed

text \<open>A platform that knows two specs and has sixteen bytes.\<close>

definition demo_platform :: platform where
  "demo_platform = \<lparr>json_loads = (\<lambda>s.
       if s = ''m'' then Inr (JObject [(''type'', JString ''mock'')])
       else if s = ''f'' then Inr (JObject [(''base_path'', JString ''/d''), (''type'', JString ''fs'')])
       else if s = ''x'' then Inr (JObject [(''type'', JString ''s3'')])
       else Inl ValueError),
     open_dir = (\<lambda>path. Inr (FSAdapter Map.empty Map.empty)),
     torch_empty = (\<lambda>n. if 0 \<le> n \<and> n \<le> 16 then Inr (replicate (nat n) 0) else Inl RuntimeError),
     bind_socket = (\<lambda>url. Inr ())\<rparr>"

lemma main_starts_fresh_server_witness:
  "(\<exists>url sv. main demo_platform [L2_adapter ''f'', L1_size_gb (1 / 67108864), L2_adapter ''m''] = Inr (url, sv)
     \<and> url = ''tcp://127.0.0.1:5555'' \<and> capacity (allocator (st_l1 (sv_sm sv))) = 16)
   \<and> main demo_platform [L2_adapter ''m'', L2_adapter ''x''] = Inl KeyError"
proof -
  have ok: "json_ok demo_platform" "\<forall>n mem. torch_empty demo_platform n = Inr mem \<longrightarrow> int (length mem) = n"
    by (auto simp: json_ok_def demo_platform_def split: if_splits)
  let ?o = "[L2_adapter ''f'', L1_size_gb (1 / 67108864), L2_adapter ''m'']"
  have o: "parse_args ?o = default_args\<lparr>ar_l1_size_gb := 1 / 67108864, ar_l2_adapter := [''f'', ''m'']\<rparr>"
    by (simp add: parse_args_def default_args_def)
  have port: "dec_int 5555 = ''5555''"
    by (simp add: dec_int_def dec_nat.simps [of 5555] dec_nat.simps [of 555] dec_nat.simps [of 55] dec_nat.simps [of 5])
  have "bind_url_of (parse_args ?o) = ''tcp://127.0.0.1:'' @ dec_int 5555"
    by (simp add: o bind_url_of_def default_args_def)
  then have a: "bind_url_of (parse_args ?o) = ''tcp://127.0.0.1:5555''"
    "int_of (ar_l1_size_gb (parse_args ?o) * 2 ^ 30) = 16"
    unfolding port by (simp_all add: o int_of_def)
  have l: "build_l2s demo_platform [''f'', ''m''] = Inr [Fs (FSAdapter Map.empty Map.empty), Mock Map.empty]"
    by (simp add: build_adapter_def REGISTRY_def demo_platform_def call_mock_def call_fs_def)
  have env: "torch_empty demo_platform 16 = Inr (replicate 16 0)" "bind_socket demo_platform url = Inr ()" for url
    by (simp_all add: demo_platform_def)
  have "ar_l2_adapter (parse_args ?o) = [''f'', ''m'']" by (simp add: o)
  then obtain url sv where m: "main demo_platform ?o = Inr (url, sv)"
    unfolding main_def Let_def a serve_def using l env by simp
  from main_starts_fresh_server [OF ok, of ?o, unfolded Let_def m] obtain mem l2s where
    "url = ''tcp://127.0.0.1:5555''" "init_threads (sv_sm sv) = started mem l2s" "int (length mem) = 16"
    unfolding a by auto
  moreover from this(2) have "sv_sm sv = StorageManager mem l2s" by (simp add: started_def init_threads_def)
  ultimately have "capacity (allocator (st_l1 (sv_sm sv))) = 16"
    by (simp add: StorageManager_def Let_def L1Manager_def PoolAllocator_def capacity_def register_listener_def)
  moreover have "main demo_platform [L2_adapter ''m'', L2_adapter ''x''] = Inl KeyError"
    by (simp add: main_def parse_args_def default_args_def serve_def build_adapter_def REGISTRY_def demo_platform_def call_mock_def)
  ultimately show ?thesis using m \<open>url = _\<close> by blast
qed

end
