(* ===== verification/Server_Locks.thy ===== *)
theory Server_Locks
  imports L1_Manager
begin

text \<open>
  The mutexes of the server process and the data behind them.  What the other theories take as one step
  (a method of \<open>L1Manager\<close>, a critical section of \<open>PrefetchController\<close>) is here the sequence of the
  lock operations it makes, the calls of the listeners under the manager's lock included; threads run any
  sequence of these sections, with waits for queues and futures in between.  One wait is under a mutex:
  the loop of the server's socket takes a message from its queue with the send lock held, after it has
  seen outside the lock that the queue is not empty; so the number of queued messages is part of the state.
\<close>

datatype mutex = L1_lock | Policy_lock | Prefetch_lock | Register_lock | Send_lock

text \<open>
  The manager's table and pool, the order of the policy, \<open>hits\<close> and \<open>held\<close>, the registered engines, the
  server's socket.
\<close>

datatype data = Table | Order | Sessions | Registry | Socket

text \<open>
  \<open>Peek\<close> is a single look-up in a dictionary without its lock; \<open>Put\<close> and \<open>Get\<close> are those of the send queue,
  and \<open>Get\<close> blocks while it is empty; \<open>Wait\<close> may last until another thread has done something (a \<open>get\<close> of
  another queue, \<open>future.result\<close>, \<open>poll\<close>, a write to a full pipe, \<open>sleep\<close>).
\<close>

datatype act = Acquire mutex | Release mutex | Access data | Peek data | Put | Get | Wait

subsection \<open>Sections of the code\<close>

fun handle_acts :: "event \<Rightarrow> 'k listener \<Rightarrow> act list" where
  "handle_acts On_write_finished (LRUPolicy order) = []"
| "handle_acts ev (LRUPolicy order) = [Acquire Policy_lock, Access Order, Release Policy_lock]"
| "handle_acts ev li = []"

definition notify_acts :: "event \<Rightarrow> 'k listener list \<Rightarrow> act list" where
  "notify_acts ev ls = concat (map (handle_acts ev) ls)"

text \<open>The events a method of the manager may announce, none when it raises before.\<close>

datatype l1_method =
    Reserve_write | Finish_write | Finish_write_and_reserve_read | Reserve_read | Reserve_read_prefix
  | Read | Finish_read | Promote | Delete | Usage

fun announces :: "l1_method \<Rightarrow> event list list" where
  "announces Finish_write = [[], [On_created, On_write_finished]]"
| "announces Finish_write_and_reserve_read = [[], [On_created]]"
| "announces Finish_read = [[], [On_touched], [On_removed], [On_touched, On_removed]]"
| "announces Delete = [[], [On_removed]]"
| "announces _ = [[]]"

definition l1_acts :: "'k listener list \<Rightarrow> event list \<Rightarrow> act list" where
  "l1_acts ls evs = [Acquire L1_lock, Access Table] @ concat (map (\<lambda>ev. notify_acts ev ls) evs) @ [Release L1_lock]"

text \<open>\<open>is_evictable\<close> takes no lock, as it is called under that of the policy.\<close>

definition is_evictable_acts :: "act list" where
  "is_evictable_acts = [Peek Table]"

definition get_victims_acts :: "nat \<Rightarrow> act list" where
  "get_victims_acts n = [Acquire Policy_lock, Access Order] @ concat (replicate n is_evictable_acts) @ [Release Policy_lock]"

definition session_acts :: "act list" where
  "session_acts = [Acquire Prefetch_lock, Access Sessions, Release Prefetch_lock]"

definition register_acts :: "act list" where
  "register_acts = [Acquire Register_lock, Access Registry, Release Register_lock]"

text \<open>
  \<open>send\<close>: the frames are queued, and a byte is written to the pipe.  \<open>send_now\<close>: the frames are sent by the
  calling thread.  A \<open>ROUTER\<close> socket, which the server has, drops what it cannot send: its
  \<open>send_multipart\<close> returns and is an access to the socket.
\<close>

definition send_acts :: "act list" where
  "send_acts = [Put, Wait]"

definition send_now_acts :: "act list" where
  "send_now_acts = [Acquire Send_lock, Access Socket, Release Send_lock]"

text \<open>
  The loop: one turn of the flush, \<open>with self.send_lock: self.sock.send_multipart(self.send_queue.get())\<close>,
  and the receipt of a message, which takes no lock.
\<close>

definition flush_acts :: "act list" where
  "flush_acts = [Acquire Send_lock, Get, Access Socket, Release Send_lock]"

definition recv_acts :: "act list" where
  "recv_acts = [Access Socket]"

text \<open>What any thread may run.\<close>

inductive_set sections :: "'k listener list \<Rightarrow> act list set" for ls :: "'k listener list" where
  l1_method: "evs \<in> set (announces m) \<Longrightarrow> l1_acts ls evs \<in> sections ls"
| get_victims: "get_victims_acts n \<in> sections ls"
| session: "session_acts \<in> sections ls"
| register: "register_acts \<in> sections ls"
| look_up: "[Peek Registry] \<in> sections ls"
| send: "send_acts \<in> sections ls"
| send_now: "send_now_acts \<in> sections ls"
| wait: "[Wait] \<in> sections ls"

subsection \<open>Threads and their scheduler\<close>

text \<open>\<open>queued\<close> is the length of the send queue.\<close>

record sched =
  todo :: "nat \<Rightarrow> act list"
  owner :: "mutex \<rightharpoonup> nat"
  queued :: nat

definition idle :: sched where
  "idle = \<lparr>todo = (\<lambda>_. []), owner = Map.empty, queued = 0\<rparr>"

text \<open>\<open>while not self.send_queue.empty()\<close>\<close>

definition may_flush :: "sched \<Rightarrow> bool" where
  "may_flush s \<longleftrightarrow> queued s \<noteq> 0"

text \<open>Thread 0 is that of the loop.\<close>

abbreviation loop_thread :: nat where
  "loop_thread \<equiv> 0"

text \<open>A step of a thread that waits for nobody, for a mutex that is free, or for a message that is there.\<close>

inductive work_step :: "sched \<Rightarrow> sched \<Rightarrow> bool" where
  acquire: "todo s t = Acquire l # p \<Longrightarrow> owner s l = None \<Longrightarrow>
    work_step s (s\<lparr>todo := (todo s)(t := p), owner := (owner s)(l \<mapsto> t)\<rparr>)"
| release: "todo s t = Release l # p \<Longrightarrow>
    work_step s (s\<lparr>todo := (todo s)(t := p), owner := (owner s)(l := None)\<rparr>)"
| access: "todo s t = Access d # p \<Longrightarrow> work_step s (s\<lparr>todo := (todo s)(t := p)\<rparr>)"
| peek: "todo s t = Peek d # p \<Longrightarrow> work_step s (s\<lparr>todo := (todo s)(t := p)\<rparr>)"
| put: "todo s t = Put # p \<Longrightarrow> work_step s (s\<lparr>todo := (todo s)(t := p), queued := Suc (queued s)\<rparr>)"
| get: "todo s t = Get # p \<Longrightarrow> 0 < queued s \<Longrightarrow>
    work_step s (s\<lparr>todo := (todo s)(t := p), queued := queued s - 1\<rparr>)"

inductive sched_step :: "act list set \<Rightarrow> sched \<Rightarrow> sched \<Rightarrow> bool" for secs :: "act list set" where
  work: "work_step s s' \<Longrightarrow> sched_step secs s s'"
| waited: "todo s t = Wait # p \<Longrightarrow> sched_step secs s (s\<lparr>todo := (todo s)(t := p)\<rparr>)"
| enter: "todo s t = [] \<Longrightarrow> p \<in> secs \<Longrightarrow> sched_step secs s (s\<lparr>todo := (todo s)(t := p)\<rparr>)"
| flush: "todo s loop_thread = [] \<Longrightarrow> may_flush s \<Longrightarrow> sched_step secs s (s\<lparr>todo := (todo s)(loop_thread := flush_acts)\<rparr>)"
| recv: "todo s loop_thread = [] \<Longrightarrow> sched_step secs s (s\<lparr>todo := (todo s)(loop_thread := recv_acts)\<rparr>)"

text \<open>What is left to do for the threads that are in a section.\<close>

definition busy :: "sched \<Rightarrow> nat set" where
  "busy s = {t. todo s t \<noteq> []}"

definition acts_left :: "sched \<Rightarrow> nat" where
  "acts_left s = (\<Sum>t \<in> busy s. length (todo s t))"

subsection \<open>A lock order\<close>

text \<open>
  \<open>nested rank guard look H p\<close>: a thread with the mutexes \<open>H\<close> (the last taken first) that still does \<open>p\<close> takes mutexes
  in rising order, gives them back in the opposite order, touches guarded data under their mutex only, looks
  into data without it under the mutexes \<open>look\<close> says only, and waits for others without any.  (\<open>Get\<close> is dealt
  with below.)
\<close>

fun nested :: "(mutex \<Rightarrow> nat) \<Rightarrow> (data \<Rightarrow> mutex option) \<Rightarrow> (data \<Rightarrow> mutex list option) \<Rightarrow> mutex list \<Rightarrow> act list \<Rightarrow> bool" where
  "nested rank guard look H [] = (H = [])"
| "nested rank guard look H (Acquire l # p) =
     ((\<forall>h \<in> set H. rank h < rank l) \<and> nested rank guard look (l # H) p)"
| "nested rank guard look H (Release l # p) =
     (case H of [] \<Rightarrow> False | h # H' \<Rightarrow> h = l \<and> nested rank guard look H' p)"
| "nested rank guard look H (Access d # p) =
     ((case guard d of None \<Rightarrow> True | Some l \<Rightarrow> l \<in> set H) \<and> nested rank guard look H p)"
| "nested rank guard look H (Peek d # p) =
     ((case look d of None \<Rightarrow> False | Some ls \<Rightarrow> set ls \<subseteq> set H) \<and> nested rank guard look H p)"
| "nested rank guard look H (Put # p) = nested rank guard look H p"
| "nested rank guard look H (Get # p) = nested rank guard look H p"
| "nested rank guard look H (Wait # p) = (H = [] \<and> nested rank guard look H p)"

text \<open>The mutexes a thread has according to what it still does, and those it owns, agree.\<close>

definition consistent :: "(mutex \<Rightarrow> nat) \<Rightarrow> (data \<Rightarrow> mutex option) \<Rightarrow> (data \<Rightarrow> mutex list option) \<Rightarrow> sched \<Rightarrow> bool" where
  "consistent rank guard look s \<longleftrightarrow>
     (\<forall>t. \<exists>H. nested rank guard look H (todo s t) \<and> distinct H \<and> (\<forall>l. l \<in> set H \<longleftrightarrow> owner s l = Some t))"

lemma nested_rest:
  assumes "nested rank guard look H (a # p)" and "distinct H"
  shows "\<exists>H'. nested rank guard look H' p \<and> distinct H'
    \<and> set H' = (case a of Acquire l \<Rightarrow> insert l (set H) | Release l \<Rightarrow> set H - {l} | _ \<Rightarrow> set H)
    \<and> (case a of Acquire l \<Rightarrow> l \<notin> set H | Release l \<Rightarrow> l \<in> set H | Wait \<Rightarrow> H = [] | _ \<Rightarrow> True)"
proof (cases a)
  case (Acquire l)
  with assms show ?thesis by (intro exI [of _ "l # H"]) auto
next
  case (Release l)
  with assms show ?thesis by (cases H) auto
qed (use assms in auto)

text \<open>
  A step of one thread keeps consistency when it changes the owners as its action says.
\<close>

lemma consistent_step:
  assumes con: "consistent rank guard look s" and t: "todo s t = a # p"
    and free: "\<And>l. a = Acquire l \<Longrightarrow> owner s l = None"
    and o': "owner s' = (case a of Acquire l \<Rightarrow> (owner s)(l \<mapsto> t) | Release l \<Rightarrow> (owner s)(l := None) | _ \<Rightarrow> owner s)"
    and d': "todo s' = (todo s)(t := p)"
  shows "consistent rank guard look s'"
  unfolding consistent_def
proof
  fix u
  from con obtain H where H: "nested rank guard look H (todo s u)" "distinct H" "\<And>l. l \<in> set H \<longleftrightarrow> owner s l = Some u"
    unfolding consistent_def by blast
  show "\<exists>H. nested rank guard look H (todo s' u) \<and> distinct H \<and> (\<forall>l. l \<in> set H \<longleftrightarrow> owner s' l = Some u)"
  proof (cases "u = t")
    case True
    with H t have "nested rank guard look H (a # p)" by simp
    from nested_rest [OF this H(2)] obtain H' where H': "nested rank guard look H' p" "distinct H'"
      "set H' = (case a of Acquire l \<Rightarrow> insert l (set H) | Release l \<Rightarrow> set H - {l} | _ \<Rightarrow> set H)" by blast
    have "\<forall>l. l \<in> set H' \<longleftrightarrow> owner s' l = Some u"
      unfolding H'(3) o' using H(3) True by (auto split: act.splits)
    with H' d' True show ?thesis by auto
  next
    case False
    from con obtain G where G: "nested rank guard look G (todo s t)" "distinct G" "\<And>l. l \<in> set G \<longleftrightarrow> owner s l = Some t"
      unfolding consistent_def by blast
    have "owner s l = Some t" if "a = Release l" for l
      using nested_rest [of rank guard look G a p] G t that by auto
    with free False H(3) o' have "\<forall>l. l \<in> set H \<longleftrightarrow> owner s' l = Some u"
      by (auto split: act.splits)
    with H d' False show ?thesis by auto
  qed
qed

lemma consistent_work: "work_step s s' \<Longrightarrow> consistent rank guard look s \<Longrightarrow> consistent rank guard look s'"
proof (induction rule: work_step.induct)
  case (acquire s t l p)
  then show ?case by (intro consistent_step [OF acquire(3,1)]) auto
next
  case (release s t l p)
  then show ?case by (intro consistent_step [OF release(2,1)]) auto
next
  case (access s t d p)
  then show ?case by (intro consistent_step [OF access(2,1)]) auto
next
  case (peek s t d p)
  then show ?case by (intro consistent_step [OF peek(2,1)]) auto
next
  case (put s t p)
  then show ?case by (intro consistent_step [OF put(2,1)]) auto
next
  case (get s t p)
  then show ?case by (intro consistent_step [OF get(3,1)]) auto
qed

lemma consistent_idle: "consistent rank guard look idle"
  by (auto simp: consistent_def idle_def)

text \<open>Guarded data is touched by one thread at a time.\<close>

lemma consistent_guard:
  assumes "consistent rank guard look s" and "todo s t = Access d # p" and "guard d = Some l"
  shows "owner s l = Some t"
proof -
  from assms(1) obtain H where "nested rank guard look H (todo s t)" "\<forall>l. l \<in> set H \<longleftrightarrow> owner s l = Some t"
    unfolding consistent_def by blast
  with assms(2,3) show ?thesis by simp
qed

lemma consistent_look:
  assumes "consistent rank guard look s" and "todo s t = Peek d # p"
  shows "\<exists>ls. look d = Some ls \<and> (\<forall>l \<in> set ls. owner s l = Some t)"
proof -
  from assms(1) obtain H where "nested rank guard look H (todo s t)" "\<forall>l. l \<in> set H \<longleftrightarrow> owner s l = Some t"
    unfolding consistent_def by blast
  with assms(2) show ?thesis by (cases "look d") auto
qed

lemma consistent_enter:
  assumes "consistent rank guard look s" and "todo s t = []" and "nested rank guard look [] p"
  shows "consistent rank guard look (s\<lparr>todo := (todo s)(t := p)\<rparr>)"
proof -
  have "\<exists>H. nested rank guard look H (((todo s)(t := p)) u) \<and> distinct H \<and> (\<forall>l. l \<in> set H \<longleftrightarrow> owner s l = Some u)" for u
  proof -
    from assms(1) obtain H where "nested rank guard look H (todo s u)" "distinct H" "\<forall>l. l \<in> set H \<longleftrightarrow> owner s l = Some u"
      unfolding consistent_def by blast
    then show ?thesis using assms(2,3) by (cases "u = t") auto
  qed
  then show ?thesis by (simp add: consistent_def)
qed

text \<open>
  A \<open>Get\<close> never blocks: only the thread of the loop takes messages, one at a time, and from the moment it
  has seen one until it takes it, the queue does not become empty.
\<close>

definition get_ready :: "sched \<Rightarrow> bool" where
  "get_ready s \<longleftrightarrow> (\<forall>t. Get \<in> set (todo s t) \<longrightarrow> t = loop_thread \<and> queued s \<noteq> 0)
     \<and> count_list (todo s loop_thread) Get \<le> 1"

lemma get_not_empty: "get_ready s \<Longrightarrow> Get \<in> set (todo s t) \<Longrightarrow> 0 < queued s"
  unfolding get_ready_def by blast

lemma get_ready_step:
  assumes "get_ready s" and "todo s t = a # p" and "a \<noteq> Get" and "todo s' = (todo s)(t := p)" and "queued s \<le> queued s'"
  shows "get_ready s'"
proof -
  have "Get \<in> set (todo s u)" if "Get \<in> set (todo s' u)" for u
    using that assms(2,4) by (auto split: if_splits)
  moreover have "count_list (todo s' loop_thread) Get \<le> count_list (todo s loop_thread) Get"
    using assms(2,4) by (auto split: if_splits)
  ultimately show ?thesis using assms(1,5) unfolding get_ready_def by fastforce
qed

lemma get_ready_work: "work_step s s' \<Longrightarrow> get_ready s \<Longrightarrow> get_ready s'"
proof (induction rule: work_step.induct)
  case (acquire s t l p)
  then show ?case by (intro get_ready_step [OF acquire(3,1)]) auto
next
  case (release s t l p)
  then show ?case by (intro get_ready_step [OF release(2,1)]) auto
next
  case (access s t d p)
  then show ?case by (intro get_ready_step [OF access(2,1)]) auto
next
  case (peek s t d p)
  then show ?case by (intro get_ready_step [OF peek(2,1)]) auto
next
  case (put s t p)
  then show ?case by (intro get_ready_step [OF put(2,1)]) auto
next
  case (get s t p)
  then have t: "t = loop_thread" by (auto simp: get_ready_def)
  with get have "count_list p Get = 0" by (auto simp: get_ready_def)
  then have "Get \<notin> set p" by (simp add: count_list_0_iff)
  with get t show ?case by (auto simp: get_ready_def count_list_0_iff split: if_splits)
qed

lemma get_ready_enter:
  assumes "get_ready s" and "Get \<notin> set p"
  shows "get_ready (s\<lparr>todo := (todo s)(t := p)\<rparr>)"
proof -
  have "count_list p Get = 0" using assms(2) by (simp add: count_list_0_iff)
  with assms show ?thesis by (auto simp: get_ready_def split: if_splits)
qed

text \<open>What runs on sections that respect one order.\<close>

locale lock_order =
  fixes rank :: "mutex \<Rightarrow> nat" and guard :: "data \<Rightarrow> mutex option" and look :: "data \<Rightarrow> mutex list option"
    and secs :: "act list set" and bound :: nat
  assumes section_nested: "p \<in> secs \<Longrightarrow> nested rank guard look [] p"
    and section_no_get: "p \<in> secs \<Longrightarrow> Get \<notin> set p"
    and flush_nested: "nested rank guard look [] flush_acts"
    and recv_nested: "nested rank guard look [] recv_acts"
    and rank_bound: "rank l < bound"
begin

lemma consistent_sched: "sched_step secs s s' \<Longrightarrow> consistent rank guard look s \<Longrightarrow> consistent rank guard look s'"
proof (induction rule: sched_step.induct)
  case (work s s')
  then show ?case by (rule consistent_work)
next
  case (waited s t p)
  then show ?case by (intro consistent_step [OF waited(2,1)]) auto
next
  case (enter s t p)
  then show ?case using consistent_enter section_nested by blast
next
  case (flush s)
  then show ?case using consistent_enter flush_nested by blast
next
  case (recv s)
  then show ?case using consistent_enter recv_nested by blast
qed

lemma get_ready_sched: "sched_step secs s s' \<Longrightarrow> get_ready s \<Longrightarrow> get_ready s'"
proof (induction rule: sched_step.induct)
  case (work s s')
  then show ?case by (rule get_ready_work)
next
  case (waited s t p)
  then show ?case by (intro get_ready_step [OF waited(2,1)]) auto
next
  case (enter s t p)
  then show ?case using get_ready_enter section_no_get by blast
next
  case (flush s)
  then show ?case by (auto simp: get_ready_def flush_acts_def may_flush_def split: if_splits)
next
  case (recv s)
  then show ?case by (intro get_ready_enter) (simp_all add: recv_acts_def)
qed

lemma reachable_get_ready: "(sched_step secs)\<^sup>*\<^sup>* idle s \<Longrightarrow> get_ready s"
proof (induction rule: rtranclp_induct)
  case base
  show ?case by (simp add: get_ready_def idle_def)
next
  case (step s s')
  then show ?case using get_ready_sched by blast
qed

lemma reachable_consistent: "(sched_step secs)\<^sup>*\<^sup>* idle s \<Longrightarrow> consistent rank guard look s"
  by (induction rule: rtranclp_induct) (auto intro: consistent_idle consistent_sched)

text \<open>A thread that wants a mutex waits for one further up the order, and the last of them can go on.\<close>

lemma progress:
  assumes "consistent rank guard look s" and gets: "get_ready s" and "todo s t = a # p" and "a \<noteq> Wait"
  shows "\<exists>s'. work_step s s'"
  using assms(3,4)
proof (induction "case a of Acquire l \<Rightarrow> bound - rank l | _ \<Rightarrow> 0" arbitrary: a p t rule: less_induct)
  case less
  show ?case
  proof (cases "\<exists>l u. a = Acquire l \<and> owner s l = Some u")
    case False
    moreover have "0 < queued s" if "a = Get"
      using get_not_empty [OF gets, of t] that less(2) by simp
    ultimately show ?thesis using less(2,3) by (cases a) (auto intro: work_step.intros)
  next
    case True
    then obtain l u where lu: "a = Acquire l" "owner s l = Some u" by blast
    from assms(1) obtain H where H: "nested rank guard look H (todo s u)" "distinct H" "\<forall>l. l \<in> set H \<longleftrightarrow> owner s l = Some u"
      unfolding consistent_def by blast
    with lu(2) have l: "l \<in> set H" by simp
    then obtain b q where b: "todo s u = b # q" using H(1) by (cases "todo s u") auto
    have "b \<noteq> Wait" using H(1) l b by auto
    show ?thesis
    proof (cases "\<exists>m. b = Acquire m")
      case False
      moreover have "0 < queued s" if "b = Get"
        using get_not_empty [OF gets, of u] that b by simp
      ultimately show ?thesis using b \<open>b \<noteq> Wait\<close> by (cases b) (auto intro: work_step.intros)
    next
      case True
      then obtain m where m: "b = Acquire m" by blast
      with H(1) b l have "rank l < rank m" by simp
      with rank_bound [of m] have "bound - rank m < bound - rank l" by linarith
      with less(1) [OF _ b] m lu(1) show ?thesis by simp
    qed
  qed
qed

text \<open>When nobody can go on, nobody is in a section.\<close>

lemma quiet:
  assumes con: "consistent rank guard look s" and gets: "get_ready s" and stop: "\<not> (\<exists>s'. work_step s s')"
  shows "owner s = Map.empty \<and> (\<forall>t. todo s t = [] \<or> hd (todo s t) = Wait)"
proof -
  have at_rest: "todo s t = [] \<or> hd (todo s t) = Wait" for t
    using progress [OF con gets, of t] stop by (cases "todo s t") auto
  have "owner s l = None" for l
  proof (rule ccontr)
    assume "owner s l \<noteq> None"
    then obtain t where t: "owner s l = Some t" by blast
    from con obtain H where H: "nested rank guard look H (todo s t)" "\<forall>l. l \<in> set H \<longleftrightarrow> owner s l = Some t"
      unfolding consistent_def by blast
    then have "H = []" using at_rest [of t] by (cases "todo s t") auto
    with H(2) t show False by simp
  qed
  with at_rest show ?thesis by auto
qed

end

subsection \<open>Every step is one less to do\<close>

lemma acts_left_step:
  assumes "finite (busy s)" and "todo s t = a # p" and "todo s' = (todo s)(t := p)"
  shows "finite (busy s') \<and> Suc (acts_left s') = acts_left s"
proof -
  have sub: "busy s' \<subseteq> busy s" using assms(2,3) by (auto simp: busy_def split: if_splits)
  have "acts_left s' = (\<Sum>u \<in> busy s. length (todo s' u))"
    unfolding acts_left_def using assms(1) sub by (rule sum.mono_neutral_left) (auto simp: busy_def)
  also have "\<dots> = length p + (\<Sum>u \<in> busy s - {t}. length (todo s u))"
    using assms by (subst sum.remove [of _ t]) (auto simp: busy_def intro: sum.cong)
  finally have "Suc (acts_left s') = length (todo s t) + (\<Sum>u \<in> busy s - {t}. length (todo s u))" using assms(2) by simp
  also have "\<dots> = acts_left s" unfolding acts_left_def using assms(1,2) by (subst sum.remove [of _ t]) (auto simp: busy_def)
  finally show ?thesis using finite_subset [OF sub assms(1)] by simp
qed

lemma acts_left_work: "work_step s s' \<Longrightarrow> finite (busy s) \<Longrightarrow> finite (busy s') \<and> Suc (acts_left s') = acts_left s"
  by (induction rule: work_step.induct) (rule acts_left_step; simp)+

lemma relpowp_keeps:
  assumes "(R ^^ n) s s'" and "P s" and "\<And>s s'. R s s' \<Longrightarrow> P s \<Longrightarrow> P s'"
  shows "P s'"
  using relpowp_imp_rtranclp [OF assms(1)] by (induction rule: rtranclp_induct) (use assms(2,3) in auto)

lemma acts_left_works: "(work_step ^^ n) s s' \<Longrightarrow> finite (busy s) \<Longrightarrow> n + acts_left s' = acts_left s"
proof (induction n arbitrary: s')
  case (Suc n)
  then obtain s1 where s1: "(work_step ^^ n) s s1" "work_step s1 s'" by auto
  have "finite (busy s1)"
    using relpowp_keeps [OF s1(1), of "\<lambda>s. finite (busy s)"] Suc.prems(2) acts_left_work by blast
  from acts_left_work [OF s1(2) this] Suc.IH [OF s1(1) Suc.prems(2)] show ?case by simp
qed simp

lemma busy_enter: "finite (busy s) \<Longrightarrow> finite (busy (s\<lparr>todo := (todo s)(t := p)\<rparr>))"
proof -
  have "busy (s\<lparr>todo := (todo s)(t := p)\<rparr>) \<subseteq> insert t (busy s)" by (auto simp: busy_def)
  then show "finite (busy s) \<Longrightarrow> ?thesis" by (meson finite.insertI finite_subset)
qed

lemma sched_finite: "sched_step secs s s' \<Longrightarrow> finite (busy s) \<Longrightarrow> finite (busy s')"
proof (induction rule: sched_step.induct)
  case (work s s')
  then show ?case using acts_left_work by blast
next
  case (waited s t p)
  then have "busy (s\<lparr>todo := (todo s)(t := p)\<rparr>) \<subseteq> busy s" by (auto simp: busy_def)
  with waited(2) show ?case by (rule finite_subset [rotated])
next
  case (enter s t p)
  then show ?case by (intro busy_enter)
next
  case (flush s)
  then show ?case by (intro busy_enter)
next
  case (recv s)
  then show ?case by (intro busy_enter)
qed

lemma reachable_finite: "(sched_step secs)\<^sup>*\<^sup>* idle s \<Longrightarrow> finite (busy s)"
  by (induction rule: rtranclp_induct) (simp_all add: sched_finite, simp add: busy_def idle_def)

subsection \<open>The order of the server\<close>

text \<open>The mutex of the policy is taken under the manager's, the others never with one another.\<close>

fun rank_of :: "mutex \<Rightarrow> nat" where
  "rank_of Policy_lock = 1"
| "rank_of _ = 0"

fun guard_of :: "data \<Rightarrow> mutex option" where
  "guard_of Table = Some L1_lock"
| "guard_of Order = Some Policy_lock"
| "guard_of Sessions = Some Prefetch_lock"
| "guard_of Registry = Some Register_lock"
| "guard_of Socket = None"

text \<open>
  Without its mutex, \<open>is_evictable\<close> looks into the table, called under the mutex of the policy, and the handlers
  look into the registered engines.
\<close>

fun look_of :: "data \<Rightarrow> mutex list option" where
  "look_of Table = Some [Policy_lock]"
| "look_of Registry = Some []"
| "look_of _ = None"

lemma nested_notify:
  "nested rank_of guard_of look_of [L1_lock] (concat (map (\<lambda>ev. notify_acts ev ls) evs) @ [Release L1_lock])"
proof -
  have listener: "nested rank_of guard_of look_of [L1_lock] (handle_acts ev li @ p) = nested rank_of guard_of look_of [L1_lock] p" for ev li p
    by (cases ev; cases li) simp_all
  have event: "nested rank_of guard_of look_of [L1_lock] (notify_acts ev ls @ p) = nested rank_of guard_of look_of [L1_lock] p" for ev p
    unfolding notify_acts_def by (induction ls) (simp_all add: listener)
  have "nested rank_of guard_of look_of [L1_lock] (concat (map (\<lambda>ev. notify_acts ev ls) evs) @ p) = nested rank_of guard_of look_of [L1_lock] p" for p
    by (induction evs) (simp_all add: event)
  then show ?thesis by simp
qed

lemma nested_victims:
  "nested rank_of guard_of look_of [Policy_lock] (concat (replicate n is_evictable_acts) @ [Release Policy_lock])"
  by (induction n) (simp_all add: is_evictable_acts_def)

lemma no_get_notify:
  fixes ls :: "'a listener list"
  shows "Get \<notin> set (concat (map (\<lambda>ev. notify_acts ev ls) evs))"
proof -
  have "Get \<notin> set (handle_acts ev li)" for ev and li :: "'a listener" by (cases ev; cases li) simp_all
  then show ?thesis by (auto simp: notify_acts_def)
qed

lemmas acts_defs = get_victims_acts_def session_acts_def register_acts_def send_acts_def send_now_acts_def
  flush_acts_def recv_acts_def

interpretation server_locks: lock_order rank_of guard_of look_of "sections ls" 2
proof
  show "nested rank_of guard_of look_of [] p" if "p \<in> sections ls" for p
    using that by cases (simp_all add: l1_acts_def nested_notify nested_victims acts_defs)
  show "Get \<notin> set p" if "p \<in> sections ls" for p
    using that by cases (use no_get_notify [of ls] in \<open>simp_all add: l1_acts_def is_evictable_acts_def acts_defs\<close>)
  show "rank_of l < 2" for l by (cases l) simp_all
qed (simp_all add: acts_defs)

subsection \<open>Properties\<close>

text \<open>
  C15. Every mutex guards its data: whatever sections the threads run, with any listeners registered, two threads
  are never at the order of the policy or the sessions at the same time, nor both in a critical section on the
  manager's table or on the engines.  When two threads do meet at the same data, it is either the table, and
  then one of them is in a section of the manager and the other is the evictor's look-up \<open>is_evictable\<close>,
  under the policy's mutex; or it is the engines, and then one of them at least only looks up an engine.
  (The socket has no mutex that receivers take.)
\<close>

definition touches :: "act list \<Rightarrow> data \<Rightarrow> bool" where
  "touches p d \<longleftrightarrow> p \<noteq> [] \<and> (hd p = Access d \<or> hd p = Peek d)"

theorem mutexes_guard_their_data:
  assumes "(sched_step (sections ls))\<^sup>*\<^sup>* idle s" and "t \<noteq> u"
    and "touches (todo s t) d" and "touches (todo s u) d" and "d \<noteq> Socket"
  shows "\<exists>v w. {v, w} = {t, u} \<and> hd (todo s v) = Peek d \<and>
    (d = Table \<and> owner s Policy_lock = Some v \<and> hd (todo s w) = Access Table \<and> owner s L1_lock = Some w \<or> d = Registry)"
proof -
  note con = server_locks.reachable_consistent [OF assms(1)]
  have look: "(d = Table \<and> owner s Policy_lock = Some v) \<or> d = Registry"
    if "hd (todo s v) = Peek d" "touches (todo s v) d" for v
  proof -
    have "todo s v = Peek d # tl (todo s v)" using that by (cases "todo s v") (auto simp: touches_def)
    from consistent_look [OF con this] show ?thesis by (cases d) auto
  qed
  have guard: "guard_of d = Some l \<Longrightarrow> owner s l = Some v"
    if "hd (todo s v) = Access d" "touches (todo s v) d" for v l
  proof -
    have "todo s v = Access d # tl (todo s v)" using that by (cases "todo s v") (auto simp: touches_def)
    from consistent_guard [OF con this] show "guard_of d = Some l \<Longrightarrow> ?thesis" .
  qed
  obtain l where l: "guard_of d = Some l" using assms(5) by (cases d) auto
  have "\<not> (hd (todo s t) = Access d \<and> hd (todo s u) = Access d)"
    using guard [OF _ assms(3) l] guard [OF _ assms(4) l] assms(2) by auto
  then obtain v w where vw: "{v, w} = {t, u}" "hd (todo s v) = Peek d" "v \<noteq> w"
    using assms(2-4) unfolding touches_def by (metis insert_commute)
  then have touch: "touches (todo s v) d" "touches (todo s w) d" using assms(3,4) by (auto simp: doubleton_eq_iff)
  show ?thesis
  proof (cases "d = Registry")
    case False
    with look [OF vw(2) touch(1)] have d: "d = Table" "owner s Policy_lock = Some v" by auto
    have "hd (todo s w) \<noteq> Peek d" using look [OF _ touch(2)] d vw(3) by auto
    then have "hd (todo s w) = Access d" using touch(2) by (auto simp: touches_def)
    with guard [OF this touch(2)] d vw show ?thesis by auto
  qed (use vw in auto)
qed

text \<open>
  C14. No deadlock: from every state the server's threads can reach, as long as they do not enter new sections,
  each step is one less of those left, and when no step is possible any more, all sections are done: no
  mutex is taken, and every thread is outside or waits without any mutex.  In particular the loop, which takes
  the next message from its queue with the send lock held, never waits there: it has seen that the queue is
  not empty, and nobody else takes messages.
\<close>

theorem sections_never_deadlock:
  assumes "(sched_step (sections ls))\<^sup>*\<^sup>* idle s" and "(work_step ^^ n) s s'"
  shows "n + acts_left s' = acts_left s \<and>
    ((\<exists>s''. work_step s' s'') \<or> owner s' = Map.empty \<and> (\<forall>t. todo s' t = [] \<or> hd (todo s' t) = Wait))"
proof -
  have "consistent rank_of guard_of look_of s'"
    using relpowp_keeps [OF assms(2), of "consistent rank_of guard_of look_of"]
      server_locks.reachable_consistent [OF assms(1)] consistent_work by blast
  moreover have "get_ready s'"
    using relpowp_keeps [OF assms(2), of get_ready] server_locks.reachable_get_ready [OF assms(1)] get_ready_work by blast
  ultimately show ?thesis
    using server_locks.quiet acts_left_works [OF assms(2) reachable_finite [OF assms(1)]] by blast
qed

text \<open>The evictor has asked about one of two chunks while a handler is about to announce another.\<close>

definition demo_sched :: sched where
  "demo_sched = \<lparr>todo = (\<lambda>_. [])(2 := [Peek Table, Release Policy_lock],
       1 := [Access Table, Acquire Policy_lock, Access Order, Release Policy_lock, Release L1_lock]),
     owner = [Policy_lock \<mapsto> 2, L1_lock \<mapsto> 1], queued = 0\<rparr>"

lemma demo_sched_reachable: "(sched_step (sections [LRUPolicy ([] :: nat list)]))\<^sup>*\<^sup>* idle demo_sched"
proof -
  let ?S = "sections [LRUPolicy ([] :: nat list)]"
  let ?a = "\<lambda>s t p. s\<lparr>todo := (todo s)(t := p)\<rparr>"
  let ?v = "get_victims_acts 2" and ?m = "l1_acts [LRUPolicy ([] :: nat list)] [On_created]"
  have v: "?v = [Acquire Policy_lock, Access Order, Peek Table, Peek Table, Release Policy_lock]"
    by (simp add: get_victims_acts_def is_evictable_acts_def numeral_2_eq_2)
  have m: "?m = [Acquire L1_lock, Access Table, Acquire Policy_lock, Access Order, Release Policy_lock, Release L1_lock]"
    by (simp add: l1_acts_def notify_acts_def)
  have in_S: "?v \<in> ?S" "?m \<in> ?S"
    using sections.l1_method [of "[On_created]" Finish_write_and_reserve_read] by (auto intro: sections.get_victims)
  define s1 where "s1 = ?a idle 2 ?v"
  define s2 where "s2 = ?a s1 1 ?m"
  define s3 where "s3 = (?a s2 2 (tl ?v))\<lparr>owner := (owner s2)(Policy_lock \<mapsto> 2)\<rparr>"
  define s4 where "s4 = ?a s3 2 (tl (tl ?v))"
  define s5 where "s5 = (?a s4 1 (tl ?m))\<lparr>owner := (owner s4)(L1_lock \<mapsto> 1)\<rparr>"
  note defs = s1_def s2_def s3_def s4_def s5_def idle_def v m
  have "sched_step ?S idle s1" unfolding s1_def by (rule sched_step.enter) (simp_all add: idle_def in_S)
  moreover have "sched_step ?S s1 s2" unfolding s2_def by (rule sched_step.enter) (simp_all add: s1_def idle_def in_S)
  moreover have "work_step s2 s3"
    using work_step.acquire [of s2 2 Policy_lock "tl ?v"] by (simp add: defs)
  moreover have "work_step s3 s4" using work_step.access [of s3 2 Order "tl (tl ?v)"] by (simp add: defs)
  moreover have "work_step s4 s5" using work_step.acquire [of s4 1 L1_lock "tl ?m"] by (simp add: defs)
  moreover have "work_step s5 demo_sched"
    using work_step.peek [of s5 2 Table "tl (tl (tl ?v))"] by (simp add: defs demo_sched_def fun_upd_twist)
  ultimately show ?thesis by (meson converse_rtranclp_into_rtranclp rtranclp.rtrancl_refl sched_step.work)
qed

lemma mutexes_guard_their_data_witness:
  "hd (todo demo_sched 2) = Peek Table \<and> owner demo_sched Policy_lock = Some 2
    \<and> hd (todo demo_sched 1) = Access Table \<and> owner demo_sched L1_lock = Some 1"
proof -
  have "touches (todo demo_sched 2) Table" "touches (todo demo_sched 1) Table"
    by (simp_all add: demo_sched_def touches_def)
  from mutexes_guard_their_data [OF demo_sched_reachable _ this] obtain v w where
    vw: "{v, w} = {2, 1}" "hd (todo demo_sched v) = Peek Table" "owner demo_sched Policy_lock = Some v"
      "hd (todo demo_sched w) = Access Table" "owner demo_sched L1_lock = Some w" by auto
  moreover have "hd (todo demo_sched 1) \<noteq> Peek Table" by (simp add: demo_sched_def)
  ultimately show ?thesis by (auto simp: doubleton_eq_iff)
qed

text \<open>A handler has queued a reply; the loop has the send lock and is about to take it.\<close>

definition demo_flush :: sched where
  "demo_flush = \<lparr>todo = (\<lambda>_. [])(0 := [Get, Access Socket, Release Send_lock], 1 := [Wait]),
     owner = [Send_lock \<mapsto> 0], queued = 1\<rparr>"

lemma demo_flush_reachable: "(sched_step (sections ls))\<^sup>*\<^sup>* idle demo_flush"
proof -
  let ?S = "sections ls"
  let ?a = "\<lambda>s t p. s\<lparr>todo := (todo s)(t := p)\<rparr>"
  define s1 where "s1 = ?a idle 1 send_acts"
  define s2 where "s2 = (?a s1 1 [Wait])\<lparr>queued := 1\<rparr>"
  define s3 where "s3 = ?a s2 loop_thread flush_acts"
  note defs = s1_def s2_def s3_def idle_def send_acts_def flush_acts_def
  have "sched_step ?S idle s1" unfolding s1_def
    by (rule sched_step.enter) (simp_all add: idle_def sections.send)
  moreover have "work_step s1 s2"
    using work_step.put [of s1 1 "[Wait]"] by (simp add: defs)
  moreover have "sched_step ?S s2 s3" unfolding s3_def
    by (rule sched_step.flush) (simp_all add: defs may_flush_def)
  moreover have "work_step s3 demo_flush"
    using work_step.acquire [of s3 loop_thread Send_lock "tl flush_acts"]
    by (simp add: defs demo_flush_def fun_upd_twist)
  ultimately show ?thesis by (meson converse_rtranclp_into_rtranclp rtranclp.rtrancl_refl sched_step.work)
qed

lemma sections_never_deadlock_witness: "(\<exists>s'. work_step demo_flush s') \<and> (\<exists>s'. work_step demo_sched s')"
  using sections_never_deadlock [OF demo_flush_reachable, of 0 demo_flush]
    sections_never_deadlock [OF demo_sched_reachable, of 0 demo_sched]
  by (auto simp: demo_sched_def demo_flush_def)

text \<open>
  The socket is not guarded: the mutex is for senders only, so the thread of the loop can be polling or
  receiving while the thread of a handler is in the middle of a send on the same socket.
\<close>

theorem socket_is_used_by_two_threads:
  "\<exists>s. (sched_step (sections ls))\<^sup>*\<^sup>* idle s \<and> owner s Send_lock = Some 1
    \<and> todo s 0 = [Access Socket] \<and> todo s 1 = [Access Socket, Release Send_lock]"
proof -
  let ?S = "sections ls"
  let ?a = "\<lambda>s t p. s\<lparr>todo := (todo s)(t := p)\<rparr>"
  define s1 where "s1 = ?a idle 0 recv_acts"
  define s2 where "s2 = ?a s1 1 send_now_acts"
  define s3 where "s3 = (?a s2 1 (tl send_now_acts))\<lparr>owner := (owner s2)(Send_lock \<mapsto> 1)\<rparr>"
  note defs = s1_def s2_def s3_def idle_def recv_acts_def send_now_acts_def
  have "sched_step ?S idle s1" unfolding s1_def by (rule sched_step.recv) (simp add: idle_def)
  moreover have "sched_step ?S s1 s2" unfolding s2_def
    by (rule sched_step.enter) (simp_all add: s1_def idle_def sections.send_now)
  moreover have "work_step s2 s3"
    using work_step.acquire [of s2 1 Send_lock "tl send_now_acts"] by (simp add: defs)
  ultimately have "(sched_step ?S)\<^sup>*\<^sup>* idle s3" by (meson converse_rtranclp_into_rtranclp rtranclp.rtrancl_refl sched_step.work)
  then show ?thesis by (intro exI [of _ s3]) (simp add: defs)
qed

end
