(* ===== verification/L2_Worker.thy ===== *)
theory L2_Worker
  imports Prelude
begin

text \<open>
  The worker of \<open>L2Adapter\<close> (\<open>mini_llmcache/l2/base.py\<close>): \<open>submit\<close> queues a task and
  returns its future; the worker thread runs the tasks one after the other and settles each
  future with the result or the exception.  A task is the bound method with its arguments,
  \<open>'t\<close>; running it on the adapter's state is the parameter \<open>exec\<close>, given by the subclass.
\<close>

record ('s, 't, 'r) worker =
  adapter_state :: 's
  tasks :: "(nat \<times> 't) list"
  futures :: "nat \<rightharpoonup> 'r res option"
  next_future :: nat

definition init_worker :: "'s \<Rightarrow> ('s, 't, 'r) worker" where
  "init_worker s = \<lparr>adapter_state = s, tasks = [], futures = Map.empty, next_future = 0\<rparr>"

text \<open>A new future is pending (\<open>Some None\<close>) until the worker settles it.\<close>

definition submit :: "'t \<Rightarrow> ('s, 't, 'r) worker \<Rightarrow> nat \<times> ('s, 't, 'r) worker" where
  "submit t w =
     (let fut = next_future w
      in (fut, w\<lparr>tasks := tasks w @ [(fut, t)], futures := (futures w)(fut \<mapsto> None),
              next_future := Suc fut\<rparr>))"

text \<open>One turn of \<open>run\<close>: blocked (the same state) when the queue is empty.\<close>

definition run_task :: "('t \<Rightarrow> 's \<Rightarrow> 'r res \<times> 's) \<Rightarrow> ('s, 't, 'r) worker \<Rightarrow> ('s, 't, 'r) worker" where
  "run_task exec w =
     (case tasks w of
        [] \<Rightarrow> w
      | (fut, t) # rest \<Rightarrow>
          (case exec t (adapter_state w) of
             (r, s') \<Rightarrow>
               w\<lparr>adapter_state := s', tasks := rest, futures := (futures w)(fut \<mapsto> Some r)\<rparr>))"

text \<open>Running the whole queue in the order of submission is the reference.\<close>

fun exec_all :: "('t \<Rightarrow> 's \<Rightarrow> 'r res \<times> 's) \<Rightarrow> 't list \<Rightarrow> 's \<Rightarrow> 'r res list \<times> 's" where
  "exec_all exec [] s = ([], s)"
| "exec_all exec (t # ts) s =
     (case exec t s of (r, s1) \<Rightarrow> (case exec_all exec ts s1 of (rs, s2) \<Rightarrow> (r # rs, s2)))"

definition submit_all :: "'t list \<Rightarrow> ('s, 't, 'r) worker \<Rightarrow> ('s, 't, 'r) worker" where
  "submit_all ts w = fold (\<lambda>t w. snd (submit t w)) ts w"

lemma submit_all_eq:
  "submit_all ts w = w\<lparr>tasks := tasks w @ zip [next_future w..<next_future w + length ts] ts,
     futures := (\<lambda>i. if next_future w \<le> i \<and> i < next_future w + length ts then Some None
                      else futures w i),
     next_future := next_future w + length ts\<rparr>"
proof (induction ts arbitrary: w)
  case Nil
  have "(\<lambda>i. if next_future w \<le> i \<and> i < next_future w then Some None else futures w i) = futures w"
    by (rule ext) auto
  then show ?case by (simp add: submit_all_def)
next
  case (Cons t ts)
  have "submit_all (t # ts) w = submit_all ts (snd (submit t w))"
    by (simp add: submit_all_def)
  also have "\<dots> = w\<lparr>tasks := tasks w @ zip [next_future w..<next_future w + length (t # ts)] (t # ts),
     futures := (\<lambda>i. if next_future w \<le> i \<and> i < next_future w + length (t # ts) then Some None
                      else futures w i),
     next_future := next_future w + length (t # ts)\<rparr>"
  proof -
    let ?n = "next_future w" and ?m = "length ts"
    have u: "[?n..<?n + length (t # ts)] = ?n # [Suc ?n..<Suc ?n + ?m]"
      by (simp add: upt_conv_Cons del: upt_Suc)
    have f: "(\<lambda>i. if Suc ?n \<le> i \<and> i < Suc ?n + ?m then Some None else ((futures w)(?n \<mapsto> None)) i) =
        (\<lambda>i. if ?n \<le> i \<and> i < ?n + length (t # ts) then Some None else futures w i)"
      by (rule ext) auto
    have s: "snd (submit t w) = w\<lparr>tasks := tasks w @ [(?n, t)],
        futures := (futures w)(?n \<mapsto> None), next_future := Suc ?n\<rparr>"
      by (simp add: submit_def Let_def)
    show ?thesis unfolding Cons.IH s u f [symmetric]
      by (simp del: upt_Suc fun_upd_apply cong: if_cong)
  qed
  finally show ?case .
qed

lemma run_tasks_eq:
  "distinct (map fst (tasks w)) \<Longrightarrow> tasks w = zip is ts \<Longrightarrow> length is = length ts \<Longrightarrow>
   (run_task exec ^^ length ts) w =
     w\<lparr>adapter_state := snd (exec_all exec ts (adapter_state w)), tasks := [],
       futures := (futures w) ++ map_of (zip is (map Some (fst (exec_all exec ts (adapter_state w)))))\<rparr>"
proof (induction ts arbitrary: w "is")
  case Nil
  then show ?case by simp
next
  case (Cons t ts)
  from Cons.prems have dis: "distinct is" by (metis map_fst_zip)
  from Cons.prems obtain i is' where is': "is = i # is'" by (cases "is") auto
  obtain r s1 where ex: "exec t (adapter_state w) = (r, s1)" by fastforce
  obtain rs s2 where ex2: "exec_all exec ts s1 = (rs, s2)" by fastforce
  define w1 where "w1 = run_task exec w"
  have w1: "w1 = w\<lparr>adapter_state := s1, tasks := zip is' ts, futures := (futures w)(i \<mapsto> Some r)\<rparr>"
    using Cons.prems is' by (simp add: w1_def run_task_def ex)
  have "(run_task exec ^^ length (t # ts)) w = (run_task exec ^^ length ts) w1"
    by (simp add: w1_def funpow_swap1)
  also have "\<dots> = w1\<lparr>adapter_state := s2, tasks := [],
       futures := (futures w1) ++ map_of (zip is' (map Some rs))\<rparr>"
    using Cons.IH [of w1 is'] Cons.prems is' ex2 by (simp add: w1 del: fun_upd_apply)
  also have "(futures w1) ++ map_of (zip is' (map Some rs)) =
      (futures w) ++ map_of (zip (i # is') (map Some (r # rs)))"
  proof -
    have "i \<notin> set is'" using dis is' by simp
    then have "map_of (zip is' (map Some rs)) i = None" by (metis map_of_eq_None_iff set_zip_leftD imageE prod.collapse)
    then show ?thesis by (auto simp: w1 fun_eq_iff map_add_def split: option.splits)
  qed
  finally show ?case by (simp add: w1 is' ex ex2 del: fun_upd_apply)
qed

lemma length_exec_all: "length (fst (exec_all exec ts s)) = length ts"
proof (induction ts arbitrary: s)
  case Nil
  then show ?case by simp
next
  case (Cons t ts)
  obtain r s1 where "exec t s = (r, s1)" by fastforce
  moreover obtain rs s2 where "exec_all exec ts s1 = (rs, s2)" by fastforce
  moreover note Cons.IH [of s1]
  ultimately show ?case by simp
qed

lemma worker_run:
  fixes exec :: "'t \<Rightarrow> 's \<Rightarrow> 'r res \<times> 's"
  shows "let w = (run_task exec ^^ length ts) (submit_all ts (init_worker s)) in
     adapter_state w = snd (exec_all exec ts s) \<and> tasks w = []
     \<and> (\<forall>i < length ts. futures w i = Some (Some (fst (exec_all exec ts s) ! i)))"
proof -
  define w0 :: "('s, 't, 'r) worker" where "w0 = submit_all ts (init_worker s)"
  have w0: "tasks w0 = zip [0..<length ts] ts" "adapter_state w0 = s"
    unfolding w0_def submit_all_eq by (simp_all add: init_worker_def)
  have "distinct (map fst (tasks w0))" by (simp add: w0)
  from run_tasks_eq [OF this w0(1), where exec = exec] have
    run: "(run_task exec ^^ length ts) w0 = w0\<lparr>adapter_state := snd (exec_all exec ts s), tasks := [],
      futures := (futures w0) ++ map_of (zip [0..<length ts] (map Some (fst (exec_all exec ts s))))\<rparr>"
    by (simp add: w0)
  have "(futures w0 ++ map_of (zip [0..<length ts] (map Some (fst (exec_all exec ts s))))) i =
      Some (Some (fst (exec_all exec ts s) ! i))" if i: "i < length ts" for i
    using map_of_zip_nth [of "[0..<length ts]" "map Some (fst (exec_all exec ts s))" i] i
    by (simp add: length_exec_all)
  then show ?thesis unfolding Let_def w0_def [symmetric] run by simp
qed

lemma worker_futures:
  "i < length ts \<Longrightarrow> futures ((run_task exec ^^ length ts) (submit_all ts (init_worker s))) i =
     Some (Some (fst (exec_all exec ts s) ! i))"
  using worker_run [of ts exec s] unfolding Let_def by blast

subsection \<open>Properties\<close>

text \<open>
  C34. The worker refines running the tasks one by one: tasks submitted in some order and run to the
  end of the queue leave the adapter in the state the tasks leave it in when executed in that
  order, and settle the future of each task, in order, with its own result or exception; an
  exception does not keep the later tasks from running.
\<close>

theorem worker_refines_sequential_run:
  fixes exec :: "'t \<Rightarrow> 's \<Rightarrow> 'r res \<times> 's"
  shows "let w = (run_task exec ^^ length ts) (submit_all ts (init_worker s)) in
     adapter_state w = snd (exec_all exec ts s) \<and> tasks w = []
     \<and> (\<forall>i < length ts. futures w i = Some (Some (fst (exec_all exec ts s) ! i)))"
  by (rule worker_run)

text \<open>A counter with a task that fails at zero.\<close>

lemma worker_refines_sequential_run_witness:
  "(let exec = (\<lambda>t s. if t then (Inr s, s + 1) else if s = 0 then (Inl ValueError, s) else (Inr s, s - 1));
        w = (run_task exec ^^ 3) (submit_all [False, True, False] (init_worker (0 :: nat)))
    in adapter_state w = 0 \<and> futures w 0 = Some (Some (Inl ValueError)) \<and> futures w 2 = Some (Some (Inr 1)))"
proof -
  let ?exec = "(\<lambda>t s. if t then (Inr s, s + 1) else if s = 0 then (Inl ValueError, s) else (Inr s, s - 1))
    :: bool \<Rightarrow> nat \<Rightarrow> nat res \<times> nat"
  let ?ts = "[False, True, False]"
  define w where "w = (run_task ?exec ^^ length ?ts) (submit_all ?ts (init_worker 0))"
  have w: "adapter_state w = snd (exec_all ?exec ?ts 0)"
    "\<forall>i < length ?ts. futures w i = Some (Some (fst (exec_all ?exec ?ts 0) ! i))"
    using worker_refines_sequential_run [where exec = ?exec and ts = ?ts and s = 0]
    unfolding Let_def w_def [symmetric] by blast+
  have "length ?ts = 3" by simp
  then have ww: "w = (run_task ?exec ^^ 3) (submit_all ?ts (init_worker 0))" by (simp only: w_def)
  have "futures w 0 = Some (Some (Inl ValueError))" "futures w 2 = Some (Some (Inr 1))" "adapter_state w = 0"
    using w(1) w(2) [rule_format, of 0] w(2) [rule_format, of 2] by simp_all
  then show ?thesis unfolding Let_def ww [symmetric] by blast
qed

end
