(* ===== verification/L2_Service.thy ===== *)
theory L2_Service
  imports L2_Worker L2_Contract
begin

text \<open>
  An adapter behind its worker (\<open>mini_llmcache/l2/base.py\<close>): the three \<open>submit_\<close> methods the controllers call,
  and the operations the worker runs for them on the adapter and the pool the objects are views of.  The memory
  itself may be written by other threads between two tasks; what a lookup answers does not depend on it.
\<close>

datatype l2_task =
    L2_Store "chunk_key list" "mem_obj list"
  | L2_Lookup "chunk_key list"
  | L2_Load "chunk_key list" "mem_obj list"

datatype l2_result = L2_None | L2_Count nat

fun exec_task :: "l2_task \<Rightarrow> adapter \<times> pool \<Rightarrow> l2_result res \<times> (adapter \<times> pool)" where
  "exec_task (L2_Store keys objs) (a, p) = (Inr L2_None, (l2_store keys objs p a, p))"
| "exec_task (L2_Lookup keys) (a, p) = (Inr (L2_Count (l2_lookup keys a)), (a, p))"
| "exec_task (L2_Load keys objs) (a, p) =
     (case l2_load keys objs a p of (Inl x, p') \<Rightarrow> (Inl x, (a, p')) | (Inr n, p') \<Rightarrow> (Inr (L2_Count n), (a, p')))"

type_synonym l2_worker = "(adapter \<times> pool, l2_task, l2_result) worker"

definition submit_store :: "chunk_key list \<Rightarrow> mem_obj list \<Rightarrow> l2_worker \<Rightarrow> nat \<times> l2_worker" where
  "submit_store keys objs w = submit (L2_Store keys objs) w"

definition submit_lookup :: "chunk_key list \<Rightarrow> l2_worker \<Rightarrow> nat \<times> l2_worker" where
  "submit_lookup keys w = submit (L2_Lookup keys) w"

definition submit_load :: "chunk_key list \<Rightarrow> mem_obj list \<Rightarrow> l2_worker \<Rightarrow> nat \<times> l2_worker" where
  "submit_load keys objs w = submit (L2_Load keys objs) w"

text \<open>Which method submits a task, and the submissions of a list of tasks in order.\<close>

fun submit_task :: "l2_task \<Rightarrow> l2_worker \<Rightarrow> nat \<times> l2_worker" where
  "submit_task (L2_Store keys objs) w = submit_store keys objs w"
| "submit_task (L2_Lookup keys) w = submit_lookup keys w"
| "submit_task (L2_Load keys objs) w = submit_load keys objs w"

definition submit_tasks :: "l2_task list \<Rightarrow> l2_worker \<Rightarrow> l2_worker" where
  "submit_tasks ts w = fold (\<lambda>t w. snd (submit_task t w)) ts w"

subsection \<open>Lemmas\<close>

lemma submit_task_eq: "submit_task t w = submit t w"
  by (cases t) (simp_all add: submit_store_def submit_lookup_def submit_load_def)

lemma exec_all_append:
  "exec_all exec (ts @ ts') s =
     (case exec_all exec ts s of (rs, s1) \<Rightarrow> (case exec_all exec ts' s1 of (rs', s2) \<Rightarrow> (rs @ rs', s2)))"
  by (induction ts arbitrary: s) (auto split: prod.splits)

lemma exec_all_nth:
  assumes "i < length ts"
  shows "fst (exec_all exec ts s) ! i = fst (exec (ts ! i) (snd (exec_all exec (take i ts) s)))"
proof -
  have "ts = take i ts @ ts ! i # drop (Suc i) ts" using assms by (rule id_take_nth_drop)
  then have "exec_all exec ts s = exec_all exec (take i ts @ ts ! i # drop (Suc i) ts) s" by simp
  moreover have "length (fst (exec_all exec (take i ts) s)) = i" using assms by (simp add: length_exec_all)
  ultimately show ?thesis unfolding exec_all_append by (auto simp: nth_append split: prod.splits)
qed

text \<open>No task makes a lookup find less, as adapters never delete.\<close>

lemma l2_lookup_le: "l2_lookup keys a \<le> length keys"
  by (cases a) (auto simp: fs_l2.lookup_le mock_l2.lookup_le)

lemma l2_lookup_store: "l2_lookup ks a \<le> l2_lookup ks (l2_store keys objs p a)"
  by (cases a) (auto simp: fs_l2.lookup_mono mock_l2.lookup_mono)

lemma l2_stored_found: "length keys \<le> length objs \<Longrightarrow> l2_lookup keys (l2_store keys objs p a) = length keys"
  by (cases a) (auto simp: fs_l2.stored_found mock_l2.stored_found)

lemma exec_task_lookup: "l2_lookup ks (fst s) \<le> l2_lookup ks (fst (snd (exec_task t s)))"
  by (cases t; cases s) (auto simp: l2_lookup_store split: prod.splits sum.splits)

lemma exec_all_lookup: "l2_lookup ks (fst s) \<le> l2_lookup ks (fst (snd (exec_all exec_task ts s)))"
proof (induction ts arbitrary: s)
  case (Cons t ts)
  from exec_task_lookup [of ks s t] Cons.IH [of "snd (exec_task t s)"] show ?case by (auto split: prod.splits)
qed simp

lemma exec_later:
  assumes "i \<le> j" and "j \<le> length ts"
  shows "l2_lookup ks (fst (snd (exec_all exec_task (take i ts) s))) \<le> l2_lookup ks (fst (snd (exec_all exec_task (take j ts) s)))"
proof -
  have "take j ts = take i ts @ take (j - i) (drop i ts)" using assms(1) by (metis le_add_diff_inverse take_add)
  then show ?thesis
    using exec_all_lookup [of ks "snd (exec_all exec_task (take i ts) s)" "take (j - i) (drop i ts)"]
    by (auto simp: exec_all_append split: prod.splits)
qed

text \<open>The future of the task submitted as number \<open>i\<close>, once the worker has run the queue.\<close>

definition answer :: "l2_task list \<Rightarrow> adapter \<Rightarrow> pool \<Rightarrow> nat \<Rightarrow> l2_result res option option" where
  "answer ts a p i = futures ((run_task exec_task ^^ length ts) (submit_tasks ts (init_worker (a, p)))) i"

lemma answer_eq: "i < length ts \<Longrightarrow>
    answer ts a p i = Some (Some (fst (exec_task (ts ! i) (snd (exec_all exec_task (take i ts) (a, p))))))"
  using worker_futures [where exec = exec_task and ts = ts and s = "(a, p)"] by (simp add: answer_def exec_all_nth submit_tasks_def submit_task_eq submit_all_def)

lemma answer_lookup: "i < length ts \<Longrightarrow> ts ! i = L2_Lookup keys \<Longrightarrow>
    answer ts a p i = Some (Some (Inr (L2_Count (l2_lookup keys (fst (snd (exec_all exec_task (take i ts) (a, p))))))))"
  by (cases "snd (exec_all exec_task (take i ts) (a, p))") (simp add: answer_eq)

subsection \<open>Properties\<close>

text \<open>
  C35. A lookup sees every store submitted before it: whatever the controllers submit to an adapter, the
  future of a lookup gives at least what an earlier lookup of the same keys gave, and all the keys when a store of
  them is ahead of it in the queue; neither other stores, nor loads, nor loads that raise change that.
\<close>

theorem lookup_sees_earlier_tasks:
  assumes "i < j" and "j < length ts" and "ts ! j = L2_Lookup keys"
  shows "(ts ! i = L2_Lookup keys \<longrightarrow> (\<exists>m n. answer ts a p i = Some (Some (Inr (L2_Count m)))
      \<and> answer ts a p j = Some (Some (Inr (L2_Count n))) \<and> m \<le> n \<and> n \<le> length keys))
    \<and> (\<forall>objs. ts ! i = L2_Store keys objs \<longrightarrow> length keys \<le> length objs \<longrightarrow>
        answer ts a p j = Some (Some (Inr (L2_Count (length keys)))))"
proof (intro conjI impI allI)
  show "\<exists>m n. answer ts a p i = Some (Some (Inr (L2_Count m)))
      \<and> answer ts a p j = Some (Some (Inr (L2_Count n))) \<and> m \<le> n \<and> n \<le> length keys" if "ts ! i = L2_Lookup keys"
    using answer_lookup [OF _ that] answer_lookup [OF assms(2,3)] assms(1,2) exec_later l2_lookup_le by simp
next
  fix objs assume st: "ts ! i = L2_Store keys objs" "length keys \<le> length objs"
  obtain a1 p1 where s: "snd (exec_all exec_task (take i ts) (a, p)) = (a1, p1)" by fastforce
  have "take (Suc i) ts = take i ts @ [ts ! i]" using assms(1,2) by (simp add: take_Suc_conv_app_nth)
  then have "snd (exec_all exec_task (take (Suc i) ts) (a, p)) = (l2_store keys objs p1 a1, p1)"
    using s st(1) by (auto simp: exec_all_append split: prod.splits)
  moreover have "l2_lookup keys (fst (snd (exec_all exec_task (take (Suc i) ts) (a, p))))
      \<le> l2_lookup keys (fst (snd (exec_all exec_task (take j ts) (a, p))))"
    using exec_later assms(1,2) by simp
  ultimately have "length keys \<le> l2_lookup keys (fst (snd (exec_all exec_task (take j ts) (a, p))))"
    using l2_stored_found [OF st(2)] by simp
  with l2_lookup_le show "answer ts a p j = Some (Some (Inr (L2_Count (length keys))))"
    unfolding answer_lookup [OF assms(2,3)] by (simp add: le_antisym)
qed

lemma lookup_sees_earlier_tasks_witness:
  "(let k = ChunkKey [1] ''m'' 0; p = PoolAllocator [7, 9, 0, 0];
        ts = [L2_Store [k] [MemoryObj 2 0], L2_Load [k] [MemoryObj 1 3], L2_Lookup [k]]
    in answer ts (Mock Map.empty) p 1 = Some (Some (Inl ValueError))
      \<and> answer ts (Mock Map.empty) p 2 = Some (Some (Inr (L2_Count 1))))"
proof -
  let ?k = "ChunkKey [1] ''m'' 0" and ?p = "PoolAllocator [7, 9, 0, 0]"
  let ?ts = "[L2_Store [?k] [MemoryObj 2 0], L2_Load [?k] [MemoryObj 1 3], L2_Lookup [?k]]"
  have "answer ?ts (Mock Map.empty) ?p 2 = Some (Some (Inr (L2_Count 1)))"
    using lookup_sees_earlier_tasks [of 0 2 ?ts "[?k]" "Mock Map.empty" ?p] by simp
  moreover have "case fst (exec_task (?ts ! 1) (snd (exec_all exec_task (take 1 ?ts) (Mock Map.empty, ?p)))) of
      Inl ValueError \<Rightarrow> True | _ \<Rightarrow> False" by code_simp
  then have "answer ?ts (Mock Map.empty) ?p 1 = Some (Some (Inl ValueError))"
    by (subst answer_eq) (auto split: sum.splits exn.splits)
  ultimately show ?thesis unfolding Let_def by blast
qed

end
