(* ===== verification/Store_Laws.thy ===== *)
theory Store_Laws
  imports Store_Controller Prefetch_Laws
begin

text \<open>
  What one turn of the store controller does: every chunk of the batch that is still readable is
  in every adapter afterwards, and L1 is left as it was.
\<close>

subsection \<open>An adapter after a store\<close>

lemma adapter_view_new:
  assumes "length keys = length objs" and "distinct (map filename keys)" and "i < length keys"
    and "adapter_view a (keys ! i) = None"
  shows "adapter_view (l2_store keys objs p a) (keys ! i) = Some (read_obj p (objs ! i))"
proof (cases a)
  case (Fs d)
  with fs_l2.store_view [OF assms(1-3), of d p] assms(4) show ?thesis by (simp add: adapter_view_def)
next
  case (Mock m)
  have "distinct (map (\<lambda>k. k) keys)" using assms(2) by (simp add: distinct_map)
  with mock_l2.store_view [OF assms(1) this assms(3), of m p] assms(4) Mock show ?thesis
    by (simp add: adapter_view_def)
qed

lemma adapter_view_kept:
  "adapter_view a k \<noteq> None \<Longrightarrow> adapter_view (l2_store keys objs p a) k \<noteq> None"
  using fs_l2.view_kept mock_l2.view_kept by (cases a) (auto simp: adapter_view_def)

subsection \<open>Listeners\<close>

lemma store_pending_notify:
  "ev \<noteq> On_write_finished \<Longrightarrow> store_pending (map (handle ev ks) ls) = store_pending ls"
proof (induction ls)
  case Nil
  then show ?case by simp
next
  case (Cons li ls)
  then show ?case by (cases li; cases ev) simp_all
qed

lemma store_pending_set:
  "store_pending ls \<noteq> [] \<Longrightarrow> store_pending (set_store_pending q ls) = q"
proof (induction ls)
  case Nil
  then show ?case by simp
next
  case (Cons li ls)
  then show ?case by (cases li) simp_all
qed

lemma finish_read_pending:
  assumes "l1_inv {} l" and "holds_all keys l" and "finish_read keys l = (r, l')"
  shows "store_pending (listeners l') = store_pending (listeners l)"
proof -
  from finish_read_loop_ok [OF assms(1,2), of "[]" "[]"] obtain fr to l2 where
    "finish_read_loop keys [] [] l = (Inr (fr, to), l2)" "listeners l2 = listeners l" by auto
  with assms(3) show ?thesis
    by (auto simp: finish_read_def Let_def notify_def store_pending_notify)
qed

subsection \<open>Hold, store, give back\<close>

lemma hold_and_release:
  assumes inv: "l1_inv {} l" and rest: "at_rest l" and "distinct ks" and rd: "\<forall>k \<in> set ks. is_readable l k"
  shows "\<exists>l'. finish_read ks (fold (add_read 1) ks l) = (Inr (), l') \<and> entries l' = entries l
    \<and> l1_inv {} l' \<and> store_pending (listeners l') = store_pending (listeners l)"
proof -
  define l1 where "l1 = fold (add_read 1) ks l"
  have es: "entries l1 k = (if k \<in> set ks then map_option one_more (entries l k) else entries l k)" for k
    unfolding l1_def entries_add_reads using assms(3)
    by (cases "entries l k") (simp_all add: distinct_count_list one_more_def)
  have ex: "\<exists>e. entries l k = Some e \<and> \<not> write_locked e" if "k \<in> set ks" for k
    using rd that by (simp add: is_readable_iff)
  have inv1: "l1_inv {} l1" using inv by (simp add: l1_def)
  have all: "holds_all ks l1"
    unfolding holds_all_def using ex rest assms(3)
    by (fastforce simp: es one_more_def at_rest_def distinct_count_list)
  have rel: "released ks (entries l1) k = entries l k" for k
  proof (cases "k \<in> set ks")
    case False
    then show ?thesis by (simp add: released_outside es)
  next
    case True
    from ex [OF this] obtain e where e: "entries l k = Some e" "\<not> write_locked e" by blast
    with rest have "\<not> (read_count e = 0 \<and> is_temporary e)" by (fastforce simp: at_rest_def)
    with e True assms(3) show ?thesis
      by (simp add: released_def es one_more_def distinct_count_list Let_def)
  qed
  obtain r l' where fr: "finish_read ks l1 = (r, l')" by fastforce
  from finish_read_ok [OF inv1 all] fr have "r = Inr ()" "l1_inv {} l'"
    "entries l' = released ks (entries l1)" by auto
  moreover have "released ks (entries l1) = entries l" by (rule ext) (rule rel)
  moreover have "store_pending (listeners l') = store_pending (listeners l)"
    using finish_read_pending [OF inv1 all fr] by (simp add: l1_def)
  ultimately show ?thesis using fr by (auto simp: l1_def)
qed

lemma store_turn_eq:
  assumes "store_pending (listeners (st_l1 s)) = keys # rest"
    and l: "l = (st_l1 s)\<lparr>listeners := set_store_pending rest (listeners (st_l1 s))\<rparr>"
    and locked: "locked = filter (is_readable (st_l1 s)) keys"
    and "finish_read locked (fold (add_read 1) locked l) = (Inr (), l')"
  shows "store_turn s = Some (Inr (), if locked = [] then s\<lparr>st_l1 := l\<rparr>
    else s\<lparr>st_l1 := l', st_l2s := map (l2_store locked (map (\<lambda>k. the (objs_of (st_l1 s) k)) locked)
            (allocator (st_l1 s))) (st_l2s s)\<rparr>)"
proof -
  have rd: "is_readable l = is_readable (st_l1 s)" "objs_of l = objs_of (st_l1 s)" "allocator l = allocator (st_l1 s)"
    by (simp_all add: l is_readable_def objs_of_def fun_eq_iff)
  define res where "res = (\<lambda>k. if k \<in> set keys then Some (if is_readable l k then objs_of l k else None) else None)"
  have rr: "reserve_read keys l = (res, fold (add_read 1) locked l)"
    unfolding reserve_read_eq locked rd res_def ..
  have "filter (\<lambda>k. res k \<noteq> Some None) keys = locked"
    unfolding locked rd(1) [symmetric]
    by (rule filter_cong) (auto simp: res_def is_readable_iff objs_of_def)
  moreover have "objs_for res locked = map (\<lambda>k. the (objs_of (st_l1 s) k)) locked"
    by (auto simp: objs_for_def res_def locked rd)
  ultimately show ?thesis
    using assms(1,4) rr rd by (simp add: store_turn_def Let_def l [symmetric] locked)
qed

lemma store_turn_runs: "store_pending (listeners (st_l1 s)) \<noteq> [] \<Longrightarrow> store_turn s \<noteq> None"
  by (auto simp: store_turn_def Let_def split: list.splits prod.splits)

subsection \<open>Properties\<close>

text \<open>
  C22. Write-back: a turn on the oldest batch leaves every chunk of it that is still readable in
  every adapter, with the bytes L1 has for it where the adapter had nothing under the key; it
  takes the batch off the queue, and gives back every hold, so that the table is what it was.
\<close>

theorem write_back_mirrors_batch:
  assumes "store_pending (listeners (st_l1 s)) = keys # rest" and "l1_inv {} (st_l1 s)"
    and "at_rest (st_l1 s)" and "distinct (map filename keys)" and "store_turn s = Some (r, s')"
  shows "r = Inr () \<and> entries (st_l1 s') = entries (st_l1 s)
    \<and> store_pending (listeners (st_l1 s')) = rest \<and> length (st_l2s s') = length (st_l2s s)
    \<and> (\<forall>i < length (st_l2s s). \<forall>k \<in> set keys. is_readable (st_l1 s) k \<longrightarrow>
        adapter_view (st_l2s s' ! i) k \<noteq> None
        \<and> (adapter_view (st_l2s s ! i) k = None \<longrightarrow> adapter_view (st_l2s s' ! i) k =
            map_option (read_obj (allocator (st_l1 s))) (objs_of (st_l1 s) k)))"
proof -
  let ?rd = "is_readable (st_l1 s)" and ?p = "allocator (st_l1 s)"
  define locked where "locked = filter ?rd keys"
  define l where "l = (st_l1 s)\<lparr>listeners := set_store_pending rest (listeners (st_l1 s))\<rparr>"
  define objs where "objs = map (\<lambda>k. the (objs_of (st_l1 s) k)) locked"
  have l: "l1_inv {} l" "at_rest l" "\<forall>k \<in> set locked. is_readable l k" "entries l = entries (st_l1 s)"
    using assms(2,3) l1_inv_cong [of l "st_l1 s"]
    by (simp_all add: l_def at_rest_def locked_def is_readable_def objs_of_def)
  have pend: "store_pending (listeners l) = rest" by (simp add: l_def store_pending_set assms(1))
  have dist: "distinct (map filename locked)" using assms(4) by (simp add: locked_def distinct_map_filter)
  then have "distinct locked" by (simp add: distinct_map)
  from hold_and_release [OF l(1,2) this l(3)] obtain l' where
    fr: "finish_read locked (fold (add_read 1) locked l) = (Inr (), l')"
    and l': "entries l' = entries (st_l1 s)" "store_pending (listeners l') = rest"
    using l(4) pend by auto
  have turn: "r = Inr ()" "s' = (if locked = [] then s\<lparr>st_l1 := l\<rparr>
      else s\<lparr>st_l1 := l', st_l2s := map (l2_store locked objs ?p) (st_l2s s)\<rparr>)"
    using store_turn_eq [OF assms(1) l_def locked_def fr] assms(5) by (simp_all add: objs_def)
  have mirror: "adapter_view (st_l2s s' ! i) k \<noteq> None \<and> (adapter_view (st_l2s s ! i) k = None \<longrightarrow>
      adapter_view (st_l2s s' ! i) k = map_option (read_obj ?p) (objs_of (st_l1 s) k))"
    if i: "i < length (st_l2s s)" and k: "k \<in> set keys" "?rd k" for i k
  proof -
    have kl: "k \<in> set locked" using k by (simp add: locked_def)
    then obtain j where j: "j < length locked" "locked ! j = k" by (auto simp: in_set_conv_nth)
    have "st_l2s s' ! i = l2_store locked objs ?p (st_l2s s ! i)" using turn(2) kl i by auto
    moreover obtain e where "entries (st_l1 s) k = Some e" using k(2) by (auto simp: is_readable_iff)
    then have "map_option (read_obj ?p) (objs_of (st_l1 s) k) = Some (read_obj ?p (objs ! j))"
      using j by (simp add: objs_def objs_of_def)
    moreover have "length locked = length objs" by (simp add: objs_def)
    note adapter_view_new [OF this dist j(1), of "st_l2s s ! i" ?p]
    ultimately show ?thesis
      using adapter_view_kept [of "st_l2s s ! i" k] j(2) by (metis option.distinct(1))
  qed
  show ?thesis
    using turn l' l(4) pend mirror by (cases "locked = []") simp_all
qed

lemma write_back_mirrors_batch_witness:
  "\<exists>s s'. store_turn s = Some (Inr (), s') \<and> st_l2s s = [Mock Map.empty]
    \<and> adapter_view (st_l2s s' ! 0) (demo_key 1) = Some [0, 0]"
proof -
  define s0 where "s0 = StorageManager [0, 0] [Mock Map.empty]"
  obtain res l1 where rw: "reserve_write [demo_key 1] 2 False (st_l1 s0) = (res, l1)" by fastforce
  obtain r l2 where fw: "finish_write [demo_key 1] l1 = (r, l2)" by fastforce
  have "(case fst (reserve_write [demo_key 1] 2 False (st_l1 (StorageManager [0, 0] [Mock Map.empty]))) (demo_key 1)
      of Some (Some ob) \<Rightarrow> True | _ \<Rightarrow> False)" by code_simp
  then obtain ob where ob: "res (demo_key 1) = Some (Some ob)"
    using rw by (auto simp: s0_def split: option.splits)
  have inv0: "l1_inv {} (st_l1 s0)" "entries (st_l1 s0) = Map.empty" by (simp_all add: s0_def StorageManager_l1)
  note one = reserve_one [OF inv0(1) _ rw]
  have e1: "entries l1 = [demo_key 1 \<mapsto> Entry ob True False]" using one(4) [OF _ ob] inv0(2) by simp
  have "set [demo_key 1] \<subseteq> dom (entries l1)" by (simp add: e1)
  from finish_write_ok(2) [OF this fw] have
    e2: "entries l2 = [demo_key 1 \<mapsto> unlocked_entry False 1 (Entry ob True False)]"
    by (auto simp: e1 fun_eq_iff)
  define s where "s = s0\<lparr>st_l1 := l2\<rparr>"
  have inv: "l1_inv {} (st_l1 s)" using one(1) l1_inv_finish_write [of "{}" l1 "[demo_key 1]"] fw by (simp add: s_def)
  have rest: "at_rest (st_l1 s)" by (simp add: at_rest_def s_def e2 unlocked_entry_def Entry_def)
  have run: "l2 = snd (finish_write [demo_key 1] (snd (reserve_write [demo_key 1] 2 False
      (st_l1 (StorageManager [0, 0] [Mock Map.empty])))))" using rw fw by (simp add: s0_def)
  have "store_pending (listeners l2) = [[demo_key 1]]" unfolding run by code_simp
  then have pend: "store_pending (listeners (st_l1 s)) = [demo_key 1] # []" by (simp add: s_def)
  obtain r' s' where turn: "store_turn s = Some (r', s')"
    using store_turn_runs [of s] pend by auto
  have rd: "is_readable (st_l1 s) (demo_key 1)" by (simp add: s_def is_readable_iff e2 unlocked_entry_def)
  have ad: "st_l2s s = [Mock Map.empty]" by (simp add: s_def s0_def StorageManager_def Let_def)
  have "map_option (read_obj (allocator l2)) (objs_of l2 (demo_key 1)) = Some [0, 0]" unfolding run by code_simp
  then have "map_option (read_obj (allocator (st_l1 s))) (objs_of (st_l1 s) (demo_key 1)) = Some [0, 0]"
    by (simp add: s_def)
  with write_back_mirrors_batch [OF pend inv rest _ turn] rd ad
  have "r' = Inr ()" "adapter_view (st_l2s s' ! 0) (demo_key 1) = Some [0, 0]"
    by (simp_all add: adapter_view_def)
  with turn ad show ?thesis by (intro exI [of _ s] exI [of _ s']) simp
qed

end
