(* ===== verification/KV_Transfer.thy ===== *)
theory KV_Transfer
  imports Prelude
begin

text \<open>
  The transfer engine of \<open>mini_llmcache/l0/transfer.py\<close>, at the level of bytes.  A layer of
  the KV cache is a list of blocks of equally many bytes.  \<open>to_host\<close> and \<open>from_host\<close> move one
  chunk after the other through three staging slots on the device and three pinned buffers on
  the host.  Here the kernel and the copy of a chunk run in turn, one chunk after the other; the
  streams and events that overlap them are in \<open>Transfer_Streams\<close>, and \<open>Transfer_Runs\<close> shows that every schedule
  gives the result of this model.
  Uninitialised buffers (\<open>torch.empty\<close>) are arguments of the constructor.
\<close>

subsection \<open>State\<close>

record layer =
  block_bytes :: nat
  blocks :: "byte list list"

record pipeline =
  staging :: "byte list list"
  cpu_bufs :: "byte list list"

record kv_transfer =
  tr_rank :: int
  kv_caches :: "layer list"
  blocks_per_chunk :: nat
  block_nbytes :: nat
  chunk_nbytes :: nat
  d2h :: pipeline
  h2d :: pipeline

text \<open>
  Every layer view of a slot is typed and shaped like the blocks of its layer: a layer whose
  blocks have another size than those of the first layer makes the views fail.
\<close>

definition KVTransfer :: "layer list \<Rightarrow> nat \<Rightarrow> nat \<Rightarrow> int \<Rightarrow> pipeline \<Rightarrow> pipeline \<Rightarrow> kv_transfer res" where
  "KVTransfer kv block_size chunk_size rank p q =
     (if kv = [] then Inl IndexError
      else if block_size = 0 then Inl ZeroDivisionError
      else if blocks (hd kv) = [] then Inl IndexError
      else if \<not> list_all (\<lambda>la. block_bytes la = block_bytes (hd kv)) kv then Inl RuntimeError
      else
        let bpc = chunk_size div block_size; bn = block_bytes (hd kv)
        in Inr \<lparr>tr_rank = rank, kv_caches = kv, blocks_per_chunk = bpc, block_nbytes = bn,
                chunk_nbytes = length kv * bpc * bn, d2h = p, h2d = q\<rparr>)"

subsection \<open>Device to host\<close>

text \<open>\<open>torch.index_select(kv_cache, 0, ids, out=layer_views[buf][layer])\<close>\<close>

definition index_select :: "layer \<Rightarrow> nat list \<Rightarrow> byte list list res" where
  "index_select la ids =
     (if list_all (\<lambda>i. i < length (blocks la)) ids then Inr (map (\<lambda>i. blocks la ! i) ids)
      else Inl IndexError)"

text \<open>The layers of one chunk are gathered one after the other into their views of the slot.\<close>

fun gather :: "layer list \<Rightarrow> nat \<Rightarrow> nat \<Rightarrow> nat \<Rightarrow> nat list \<Rightarrow> byte list \<Rightarrow> byte list res" where
  "gather [] j bpc bn ids slot = Inr slot"
| "gather (la # las) j bpc bn ids slot =
     (case index_select la ids of
        Inl x \<Rightarrow> Inl x
      | Inr rows \<Rightarrow> gather las (Suc j) bpc bn ids (write_seg (j * bpc * bn) (concat rows) slot))"

fun to_host_loop :: "nat list \<Rightarrow> nat list \<Rightarrow> kv_transfer \<Rightarrow> byte list list
    \<Rightarrow> byte list list res \<times> kv_transfer" where
  "to_host_loop [] block_ids tr chunks = (Inr chunks, tr)"
| "to_host_loop (i # is) block_ids tr chunks =
     (let buf = i mod 3; bpc = blocks_per_chunk tr;
          ids = slice (i * bpc) ((i + 1) * bpc) block_ids
      in case gather (kv_caches tr) 0 bpc (block_nbytes tr) ids (staging (d2h tr) ! buf) of
           Inl x \<Rightarrow> (Inl x, tr)
         | Inr slot \<Rightarrow>
             let pipe = \<lparr>staging = (staging (d2h tr))[buf := slot],
                         cpu_bufs = (cpu_bufs (d2h tr))[buf := slot]\<rparr>
             in to_host_loop is block_ids (tr\<lparr>d2h := pipe\<rparr>) (chunks @ [cpu_bufs pipe ! buf]))"

definition to_host :: "nat list \<Rightarrow> kv_transfer \<Rightarrow> byte list list res \<times> kv_transfer" where
  "to_host block_ids tr =
     (if blocks_per_chunk tr = 0 then (Inl ZeroDivisionError, tr)
      else if length block_ids mod blocks_per_chunk tr \<noteq> 0 then (Inl AssertionError, tr)
      else to_host_loop [0..<length block_ids div blocks_per_chunk tr] block_ids tr [])"

subsection \<open>Host to device\<close>

text \<open>
  \<open>cpu_bufs[buf].numpy()[:] = np.frombuffer(blob, dtype=np.uint8)\<close>: numpy broadcasts a single
  byte and refuses any other length that differs.
\<close>

definition fill_buf :: "nat \<Rightarrow> byte list \<Rightarrow> byte list res" where
  "fill_buf n blob =
     (if length blob = n then Inr blob
      else if length blob = 1 then Inr (replicate n (hd blob))
      else Inl ValueError)"

text \<open>The rows of a layer view of a slot: one per block of the chunk.\<close>

definition view_rows :: "nat \<Rightarrow> nat \<Rightarrow> nat \<Rightarrow> byte list \<Rightarrow> byte list list" where
  "view_rows j bpc bn slot =
     map (\<lambda>b. slice ((j * bpc + b) * bn) ((j * bpc + b) * bn + bn) slot) [0..<bpc]"

text \<open>\<open>kv_cache.index_copy_(0, ids, rows)\<close>\<close>

definition index_copy :: "nat list \<Rightarrow> byte list list \<Rightarrow> layer \<Rightarrow> layer res" where
  "index_copy ids rows la =
     (if length ids \<noteq> length rows \<or> \<not> list_all (\<lambda>i. i < length (blocks la)) ids then Inl IndexError
      else Inr (la\<lparr>blocks := fold (\<lambda>(i, r) bs. bs[i := r]) (zip ids rows) (blocks la)\<rparr>))"

fun scatter :: "layer list \<Rightarrow> nat \<Rightarrow> nat \<Rightarrow> nat \<Rightarrow> nat list \<Rightarrow> nat \<Rightarrow> byte list
    \<Rightarrow> layer list \<Rightarrow> unit res \<times> layer list" where
  "scatter [] j bpc bn ids skip slot done = (Inr (), done)"
| "scatter (la # las) j bpc bn ids skip slot done =
     (case index_copy ids (drop skip (view_rows j bpc bn slot)) la of
        Inl x \<Rightarrow> (Inl x, done @ la # las)
      | Inr la' \<Rightarrow> scatter las (Suc j) bpc bn ids skip slot (done @ [la']))"

fun from_host_loop :: "byte list list \<Rightarrow> nat \<Rightarrow> nat list \<Rightarrow> nat \<Rightarrow> kv_transfer \<Rightarrow> unit res \<times> kv_transfer" where
  "from_host_loop [] i block_ids skip_blocks tr = (Inr (), tr)"
| "from_host_loop (blob # chunks) i block_ids skip_blocks tr =
     (let buf = i mod 3; bpc = blocks_per_chunk tr in
      case fill_buf (chunk_nbytes tr) blob of
        Inl x \<Rightarrow> (Inl x, tr)
      | Inr bytes \<Rightarrow>
          let skip = (if i = 0 then skip_blocks else 0);
              ids = slice (i * bpc + skip) ((i + 1) * bpc) block_ids;
              tr1 = tr\<lparr>h2d := \<lparr>staging = (staging (h2d tr))[buf := bytes],
                               cpu_bufs = (cpu_bufs (h2d tr))[buf := bytes]\<rparr>\<rparr>
          in (case scatter (kv_caches tr) 0 bpc (block_nbytes tr) ids skip (staging (h2d tr1) ! buf) [] of
                (Inl x, las) \<Rightarrow> (Inl x, tr1\<lparr>kv_caches := las\<rparr>)
              | (Inr _, las) \<Rightarrow>
                  from_host_loop chunks (Suc i) block_ids skip_blocks (tr1\<lparr>kv_caches := las\<rparr>)))"

definition from_host :: "byte list list \<Rightarrow> nat list \<Rightarrow> nat \<Rightarrow> kv_transfer \<Rightarrow> unit res \<times> kv_transfer" where
  "from_host chunks block_ids skip_blocks tr =
     (if blocks_per_chunk tr = 0 then (Inl ZeroDivisionError, tr)
      else if length block_ids mod blocks_per_chunk tr \<noteq> 0 then (Inl AssertionError, tr)
      else from_host_loop chunks 0 block_ids skip_blocks tr)"

subsection \<open>Bytes of a chunk\<close>

definition wf_layer :: "nat \<Rightarrow> layer \<Rightarrow> bool" where
  "wf_layer bn la \<longleftrightarrow> block_bytes la = bn \<and> (\<forall>b \<in> set (blocks la). length b = bn)"

definition wf_pipe :: "nat \<Rightarrow> pipeline \<Rightarrow> bool" where
  "wf_pipe n p \<longleftrightarrow> length (staging p) = 3 \<and> length (cpu_bufs p) = 3
     \<and> (\<forall>b \<in> set (staging p) \<union> set (cpu_bufs p). length b = n)"

definition wf_transfer :: "kv_transfer \<Rightarrow> bool" where
  "wf_transfer tr \<longleftrightarrow> 0 < blocks_per_chunk tr
     \<and> chunk_nbytes tr = length (kv_caches tr) * blocks_per_chunk tr * block_nbytes tr
     \<and> (\<forall>la \<in> set (kv_caches tr). wf_layer (block_nbytes tr) la)
     \<and> wf_pipe (chunk_nbytes tr) (d2h tr) \<and> wf_pipe (chunk_nbytes tr) (h2d tr)"

definition valid_ids :: "nat list \<Rightarrow> kv_transfer \<Rightarrow> bool" where
  "valid_ids ids tr \<longleftrightarrow> blocks_per_chunk tr dvd length ids
     \<and> (\<forall>la \<in> set (kv_caches tr). \<forall>i \<in> set ids. i < length (blocks la))"

text \<open>The blocks of layer \<open>la\<close> that the ids name, and the bytes of one chunk, layer by layer.\<close>

definition rows_of :: "nat list \<Rightarrow> layer \<Rightarrow> byte list list" where
  "rows_of ids la = map (\<lambda>i. blocks la ! i) ids"

definition chunk_bytes :: "nat list \<Rightarrow> layer list \<Rightarrow> byte list" where
  "chunk_bytes ids las = concat (concat (map (rows_of ids) las))"

lemma slice_concat_uniform:
  "\<forall>x \<in> set xs. length x = n \<Longrightarrow> q < length xs \<Longrightarrow> slice (q * n) (q * n + n) (concat xs) = xs ! q"
proof (induction xs arbitrary: q)
  case Nil
  then show ?case by simp
next
  case (Cons x xs)
  show ?case
  proof (cases q)
    case 0
    with Cons.prems show ?thesis by (simp add: slice_def)
  next
    case (Suc r)
    with Cons.prems have "slice (q * n) (q * n + n) (concat (x # xs)) = slice (r * n) (r * n + n) (concat xs)"
      by (simp add: slice_def)
    with Cons Suc show ?thesis by simp
  qed
qed

lemma write_seg_write_seg:
  "a + length xs + length ys \<le> length s \<Longrightarrow>
   write_seg (a + length xs) ys (write_seg a xs s) = write_seg a (xs @ ys) s"
  by (simp add: write_seg_def ac_simps)

lemma write_seg_whole: "length xs = length s \<Longrightarrow> write_seg 0 xs s = xs"
  by (simp add: write_seg_def)

lemma length_rows_of [simp]: "length (rows_of ids la) = length ids"
  by (simp add: rows_of_def)

lemma rows_of_uniform:
  "wf_layer bn la \<Longrightarrow> \<forall>i \<in> set ids. i < length (blocks la) \<Longrightarrow> \<forall>r \<in> set (rows_of ids la). length r = bn"
  by (auto simp: rows_of_def wf_layer_def)

lemma index_select_ok:
  "\<forall>i \<in> set ids. i < length (blocks la) \<Longrightarrow> index_select la ids = Inr (rows_of ids la)"
  by (simp add: index_select_def rows_of_def list_all_iff)

lemma length_chunk_bytes:
  assumes "\<forall>la \<in> set las. wf_layer bn la \<and> (\<forall>i \<in> set ids. i < length (blocks la))"
  shows "length (chunk_bytes ids las) = length las * length ids * bn"
  using assms
proof (induction las)
  case Nil
  then show ?case by (simp add: chunk_bytes_def)
next
  case (Cons la las)
  have "length (concat (rows_of ids la)) = length ids * bn"
    using length_concat_uniform [OF rows_of_uniform, of bn la ids] Cons.prems by simp
  with Cons show ?case by (simp add: chunk_bytes_def add_mult_distrib)
qed

lemma gather_eq:
  assumes "\<forall>la \<in> set las. wf_layer bn la \<and> (\<forall>i \<in> set ids. i < length (blocks la))"
    and "length ids = bpc" and "j * bpc * bn + length las * bpc * bn \<le> length slot"
  shows "gather las j bpc bn ids slot = Inr (write_seg (j * bpc * bn) (chunk_bytes ids las) slot)"
  using assms
proof (induction las arbitrary: j slot)
  case Nil
  then show ?case by (simp add: chunk_bytes_def write_seg_def)
next
  case (Cons la las)
  have len: "length (concat (rows_of ids la)) = bpc * bn"
    using length_concat_uniform [OF rows_of_uniform, of bn la ids] Cons.prems by simp
  let ?slot = "write_seg (j * bpc * bn) (concat (rows_of ids la)) slot"
  have room: "j * bpc * bn + bpc * bn + length las * bpc * bn \<le> length slot"
    using Cons.prems(3) by (simp add: algebra_simps)
  then have "length ?slot = length slot" using len by simp
  then have "gather las (Suc j) bpc bn ids ?slot =
      Inr (write_seg (j * bpc * bn + bpc * bn) (chunk_bytes ids las) ?slot)"
    using Cons.IH [of "Suc j" ?slot] Cons.prems(1,2) room by (simp add: algebra_simps)
  also have "write_seg (j * bpc * bn + bpc * bn) (chunk_bytes ids las) ?slot =
      write_seg (j * bpc * bn) (concat (rows_of ids la) @ chunk_bytes ids las) slot"
    using write_seg_write_seg [of "j * bpc * bn" "concat (rows_of ids la)" "chunk_bytes ids las" slot]
      length_chunk_bytes [of las bn ids] Cons.prems(1,2) room len by simp
  finally show ?case
    using Cons.prems(1) index_select_ok [of ids la] by (simp add: chunk_bytes_def)
qed

definition chunk_ids :: "nat \<Rightarrow> nat \<Rightarrow> nat list \<Rightarrow> nat list" where
  "chunk_ids bpc i ids = slice (i * bpc) ((i + 1) * bpc) ids"

lemma length_chunk_ids: "bpc dvd length ids \<Longrightarrow> i < length ids div bpc \<Longrightarrow> length (chunk_ids bpc i ids) = bpc"
proof -
  assume "bpc dvd length ids" "i < length ids div bpc"
  then have "(i + 1) * bpc \<le> length ids"
    by (metis Suc_eq_plus1 Suc_leI dvd_div_mult_self mult_le_mono1)
  then show ?thesis by (simp add: chunk_ids_def)
qed

lemma set_chunk_ids: "set (chunk_ids bpc i ids) \<subseteq> set ids"
  by (simp add: chunk_ids_def set_slice)

lemma to_host_loop_eq:
  assumes "wf_transfer tr" and "valid_ids ids tr"
    and "\<forall>i \<in> set is. i < length ids div blocks_per_chunk tr"
  shows "\<exists>pipe. to_host_loop is ids tr chunks =
      (Inr (chunks @ map (\<lambda>i. chunk_bytes (chunk_ids (blocks_per_chunk tr) i ids) (kv_caches tr)) is),
       tr\<lparr>d2h := pipe\<rparr>) \<and> wf_pipe (chunk_nbytes tr) pipe"
  using assms
proof (induction "is" arbitrary: tr chunks)
  case Nil
  then have "wf_pipe (chunk_nbytes tr) (d2h tr)" unfolding wf_transfer_def by blast
  then show ?case by (intro exI [of _ "d2h tr"]) simp
next
  case (Cons i "is")
  let ?bpc = "blocks_per_chunk tr" and ?buf = "i mod 3"
  let ?ids = "chunk_ids ?bpc i ids"
  have len: "length ?ids = ?bpc"
    using Cons.prems by (intro length_chunk_ids) (auto simp: valid_ids_def)
  have las: "\<forall>la \<in> set (kv_caches tr). wf_layer (block_nbytes tr) la \<and> (\<forall>i \<in> set ?ids. i < length (blocks la))"
    using Cons.prems(1,2) set_chunk_ids [of ?bpc i ids] by (auto simp: wf_transfer_def valid_ids_def)
  have three: "length (staging (d2h tr)) = 3" "length (cpu_bufs (d2h tr)) = 3"
    using Cons.prems(1) by (simp_all add: wf_transfer_def wf_pipe_def)
  then have "staging (d2h tr) ! ?buf \<in> set (staging (d2h tr))" by simp
  then have slot: "length (staging (d2h tr) ! ?buf) = chunk_nbytes tr"
    using Cons.prems(1) unfolding wf_transfer_def wf_pipe_def by blast
  let ?bytes = "chunk_bytes ?ids (kv_caches tr)"
  have lb: "length ?bytes = chunk_nbytes tr"
    using length_chunk_bytes [OF las] len Cons.prems(1) by (simp add: wf_transfer_def)
  have g: "gather (kv_caches tr) 0 ?bpc (block_nbytes tr) ?ids (staging (d2h tr) ! ?buf) = Inr ?bytes"
    using gather_eq [OF las len, of 0] slot lb Cons.prems(1)
    by (simp add: wf_transfer_def write_seg_whole)
  define pipe where "pipe = \<lparr>staging = (staging (d2h tr))[?buf := ?bytes],
      cpu_bufs = (cpu_bufs (d2h tr))[?buf := ?bytes]\<rparr>"
  have wfp: "wf_pipe (chunk_nbytes tr) pipe"
    using Cons.prems(1) lb set_update_subset_insert
    by (fastforce simp: wf_transfer_def wf_pipe_def pipe_def)
  have step: "to_host_loop (i # is) ids tr chunks = to_host_loop is ids (tr\<lparr>d2h := pipe\<rparr>) (chunks @ [?bytes])"
    using g three by (simp add: Let_def chunk_ids_def pipe_def)
  have "wf_transfer (tr\<lparr>d2h := pipe\<rparr>)" "valid_ids ids (tr\<lparr>d2h := pipe\<rparr>)"
    using Cons.prems(1,2) wfp by (auto simp: wf_transfer_def valid_ids_def)
  from Cons.IH [OF this, of "chunks @ [?bytes]"] Cons.prems(3) step show ?case by auto
qed

lemma to_host_eq:
  assumes "wf_transfer tr" and "valid_ids ids tr"
  shows "\<exists>pipe. to_host ids tr =
      (Inr (map (\<lambda>i. chunk_bytes (chunk_ids (blocks_per_chunk tr) i ids) (kv_caches tr))
         [0..<length ids div blocks_per_chunk tr]), tr\<lparr>d2h := pipe\<rparr>) \<and> wf_pipe (chunk_nbytes tr) pipe"
proof -
  have "0 < blocks_per_chunk tr" "length ids mod blocks_per_chunk tr = 0"
    using assms by (auto simp: wf_transfer_def valid_ids_def)
  with to_host_loop_eq [OF assms, of "[0..<length ids div blocks_per_chunk tr]" "[]"] show ?thesis
    by (simp add: to_host_def)
qed

lemma to_host_chunks:
  assumes "wf_transfer tr" and "valid_ids ids tr" and "to_host ids tr = (Inr chunks, tr1)"
  shows "length chunks = length ids div blocks_per_chunk tr" and "\<forall>c \<in> set chunks. length c = chunk_nbytes tr"
    and "chunk_nbytes tr1 = chunk_nbytes tr"
proof -
  let ?bpc = "blocks_per_chunk tr"
  from to_host_eq [OF assms(1,2)] assms(3) obtain pipe where
    c: "chunks = map (\<lambda>i. chunk_bytes (chunk_ids ?bpc i ids) (kv_caches tr)) [0..<length ids div ?bpc]"
    and t: "tr1 = tr\<lparr>d2h := pipe\<rparr>" by auto
  show "length chunks = length ids div ?bpc" by (simp add: c)
  show "chunk_nbytes tr1 = chunk_nbytes tr" by (simp add: t)
  show "\<forall>c \<in> set chunks. length c = chunk_nbytes tr"
  proof
    fix x assume "x \<in> set chunks"
    then obtain i where i: "i < length ids div ?bpc" "x = chunk_bytes (chunk_ids ?bpc i ids) (kv_caches tr)"
      by (auto simp: c)
    have "length (chunk_ids ?bpc i ids) = ?bpc" using assms(2) i(1) by (simp add: length_chunk_ids valid_ids_def)
    moreover have "\<forall>la \<in> set (kv_caches tr). wf_layer (block_nbytes tr) la
        \<and> (\<forall>b \<in> set (chunk_ids ?bpc i ids). b < length (blocks la))"
      using assms(1,2) set_chunk_ids [of ?bpc i ids] by (auto simp: wf_transfer_def valid_ids_def)
    note length_chunk_bytes [OF this]
    ultimately show "length x = chunk_nbytes tr" using assms(1) i(2) by (simp add: wf_transfer_def)
  qed
qed

subsection \<open>Scattering\<close>

definition put_rows :: "nat list \<Rightarrow> byte list list \<Rightarrow> layer \<Rightarrow> layer" where
  "put_rows ids rows la = la\<lparr>blocks := fold (\<lambda>(i, r) bs. bs[i := r]) (zip ids rows) (blocks la)\<rparr>"

lemma length_fold_upd [simp]: "length (fold (\<lambda>(i, r) bs. bs[i := r]) irs bs) = length bs"
  by (induction irs arbitrary: bs) auto

lemma fold_upd_other:
  "b \<notin> fst ` set irs \<Longrightarrow> fold (\<lambda>(i, r) bs. bs[i := r]) irs bs ! b = bs ! b"
  by (induction irs arbitrary: bs) auto

lemma fold_upd_nth:
  "distinct (map fst irs) \<Longrightarrow> (i, r) \<in> set irs \<Longrightarrow> i < length bs \<Longrightarrow>
   fold (\<lambda>(i, r) bs. bs[i := r]) irs bs ! i = r"
proof (induction irs arbitrary: bs)
  case Nil
  then show ?case by simp
next
  case (Cons x irs)
  show ?case
  proof (cases "x = (i, r)")
    case True
    with Cons.prems have "i \<notin> fst ` set irs" by auto
    with True Cons.prems fold_upd_other [of i irs "bs[i := r]"] show ?thesis by simp
  next
    case False
    with Cons.prems Cons.IH [of "bs[fst x := snd x]"] show ?thesis by (auto simp: case_prod_beta)
  qed
qed

lemma put_rows_sel [simp]:
  "block_bytes (put_rows ids rows la) = block_bytes la" "length (blocks (put_rows ids rows la)) = length (blocks la)"
  by (simp_all add: put_rows_def)

lemma fold_upd_lengths:
  "\<forall>ir \<in> set irs. length (snd ir) = bn \<Longrightarrow> \<forall>b \<in> set bs. length b = bn \<Longrightarrow>
   \<forall>b \<in> set (fold (\<lambda>(i, r) bs. bs[i := r]) irs bs). length b = bn"
  by (induction irs arbitrary: bs)
    (auto simp: case_prod_beta dest!: set_update_subset_insert [THEN subsetD])

lemma wf_put_rows:
  assumes "wf_layer bn la" and "\<forall>r \<in> set rows. length r = bn"
  shows "wf_layer bn (put_rows ids rows la)"
proof -
  have "\<forall>ir \<in> set (zip ids rows). length (snd ir) = bn"
    using assms(2) by (auto dest: set_zip_rightD)
  from fold_upd_lengths [OF this, of "blocks la"] assms(1) show ?thesis
    by (simp add: wf_layer_def put_rows_def)
qed

lemma put_rows_put_rows:
  "length ids = length rows \<Longrightarrow>
   put_rows ids' rows' (put_rows ids rows la) = put_rows (ids @ ids') (rows @ rows') la"
  by (simp add: put_rows_def)

lemma put_rows_Nil [simp]: "put_rows [] rows la = la"
  by (simp add: put_rows_def)

lemma index_copy_ok:
  "length ids = length rows \<Longrightarrow> \<forall>i \<in> set ids. i < length (blocks la) \<Longrightarrow>
   index_copy ids rows la = Inr (put_rows ids rows la)"
  by (simp add: index_copy_def put_rows_def list_all_iff)

text \<open>The rows of the view of layer \<open>j\<close> are the blocks gathered from layer \<open>j\<close>.\<close>

lemma view_rows_chunk:
  assumes las: "\<forall>la \<in> set las. wf_layer bn la \<and> (\<forall>i \<in> set ids. i < length (blocks la))"
    and len: "length ids = bpc" and j: "j < length las"
  shows "view_rows j bpc bn (chunk_bytes ids las) = rows_of ids (las ! j)"
proof (rule nth_equalityI)
  show "length (view_rows j bpc bn (chunk_bytes ids las)) = length (rows_of ids (las ! j))"
    by (simp add: view_rows_def len)
next
  fix b assume "b < length (view_rows j bpc bn (chunk_bytes ids las))"
  then have b: "b < bpc" by (simp add: view_rows_def)
  let ?flat = "concat (map (rows_of ids) las)"
  have uni: "\<forall>r \<in> set ?flat. length r = bn"
    using las rows_of_uniform by (fastforce simp: in_set_conv_nth)
  have "length ?flat = length las * bpc"
    using length_concat_uniform [of "map (rows_of ids) las" bpc] len by simp
  moreover have "j * bpc + b < length las * bpc"
  proof -
    have "j * bpc + b < (j + 1) * bpc" using b by simp
    also have "\<dots> \<le> length las * bpc" using j by (intro mult_le_mono1) simp
    finally show ?thesis .
  qed
  ultimately have "view_rows j bpc bn (chunk_bytes ids las) ! b = ?flat ! (j * bpc + b)"
    using slice_concat_uniform [OF uni, of "j * bpc + b"] b by (simp add: view_rows_def chunk_bytes_def)
  also have "\<dots> = rows_of ids (las ! j) ! b"
    using concat_nth_uniform [of "map (rows_of ids) las" bpc j b] len j b by simp
  finally show "view_rows j bpc bn (chunk_bytes ids las) ! b = rows_of ids (las ! j) ! b" .
qed

lemma scatter_eq:
  assumes "\<forall>j < length las. length (drop skip (view_rows (j0 + j) bpc bn slot)) = length ids"
    and "\<forall>la \<in> set las. \<forall>i \<in> set ids. i < length (blocks la)"
  shows "scatter las j0 bpc bn ids skip slot done =
    (Inr (), done @ map (\<lambda>j. put_rows ids (drop skip (view_rows (j0 + j) bpc bn slot)) (las ! j)) [0..<length las])"
  using assms
proof (induction las arbitrary: j0 "done")
  case Nil
  then show ?case by simp
next
  case (Cons la las)
  have "index_copy ids (drop skip (view_rows j0 bpc bn slot)) la =
      Inr (put_rows ids (drop skip (view_rows j0 bpc bn slot)) la)"
    using Cons.prems(1) [rule_format, of 0] Cons.prems(2) by (intro index_copy_ok) simp_all
  moreover have "\<forall>j < length las. length (drop skip (view_rows (Suc j0 + j) bpc bn slot)) = length ids"
    using Cons.prems(1) by (metis Suc_less_eq add_Suc_right add_Suc length_Cons)
  ultimately show ?case
    using Cons.IH [of "Suc j0"] Cons.prems(2) by (simp add: map_upt_Suc del: upt_Suc)
qed

subsection \<open>The round trip\<close>

text \<open>
  What \<open>from_host\<close> does to the layers when it is given the chunks gathered from \<open>src\<close>: the
  rows from \<open>skip\<close> on go to the blocks the ids name.
\<close>

lemma rows_of_chunk_ids: "rows_of (chunk_ids bpc i ids) la = slice (i * bpc) ((i + 1) * bpc) (rows_of ids la)"
  by (simp add: rows_of_def chunk_ids_def slice_def take_map drop_map)

lemma slice_slice_drop: "drop k (slice a b xs) = slice (a + k) b xs"
  by (simp add: slice_def drop_take add.commute)

definition first_row :: "nat \<Rightarrow> nat \<Rightarrow> nat \<Rightarrow> nat" where
  "first_row bpc skip i = i * bpc + (if i = 0 then skip else 0)"

lemma slice_drop: "a \<le> b \<Longrightarrow> slice a b xs @ drop b xs = drop a xs"
  by (metis append_assoc append_take_drop_id drop_append drop_take le_add_diff_inverse
      same_append_eq slice_def take_add)

lemma first_row_le: "skip \<le> bpc \<Longrightarrow> first_row bpc skip i \<le> (i + 1) * bpc"
  by (simp add: first_row_def)

lemma from_host_loop_eq:
  assumes "wf_transfer tr" and "valid_ids ids tr" and "skip \<le> blocks_per_chunk tr"
    and "\<forall>la \<in> set src. wf_layer (block_nbytes tr) la \<and> (\<forall>i \<in> set sids. i < length (blocks la))"
    and "length src = length (kv_caches tr)" and "length sids = length ids"
    and "bpc = blocks_per_chunk tr" and "i \<le> length ids div bpc"
  shows "\<exists>pipe. from_host_loop
      (map (\<lambda>i. chunk_bytes (chunk_ids bpc i sids) src) [i..<length ids div bpc]) i ids skip tr =
    (Inr (), tr\<lparr>h2d := pipe, kv_caches := map (\<lambda>j. put_rows (drop (first_row bpc skip i) ids)
       (drop (first_row bpc skip i) (rows_of sids (src ! j))) (kv_caches tr ! j)) [0..<length src]\<rparr>)"
  using assms
proof (induction "length ids div bpc - i" arbitrary: i tr)
  case 0
  then have i: "i = length ids div bpc" by simp
  have "bpc dvd length ids" using "0.prems" by (auto simp: valid_ids_def)
  then have "length ids \<le> first_row bpc skip i" by (simp add: i first_row_def)
  then have "map (\<lambda>j. put_rows (drop (first_row bpc skip i) ids)
       (drop (first_row bpc skip i) (rows_of sids (src ! j))) (kv_caches tr ! j)) [0..<length src] = kv_caches tr"
    using "0.prems"(5) by (simp add: map_nth)
  then show ?case using i by (intro exI [of _ "h2d tr"]) simp
next
  case (Suc d)
  let ?n = "length ids div bpc" and ?buf = "i mod 3" and ?bn = "block_nbytes tr"
  let ?sk = "if i = 0 then skip else 0" and ?fr = "first_row bpc skip i"
  let ?bytes = "chunk_bytes (chunk_ids bpc i sids) src"
  from Suc.hyps(2) have i: "i < ?n" by simp
  have dvd: "bpc dvd length ids" and dvd': "bpc dvd length sids"
    using Suc.prems by (auto simp: valid_ids_def)
  have len: "length (chunk_ids bpc i sids) = bpc"
    using dvd' i Suc.prems(6) by (intro length_chunk_ids) auto
  have las: "\<forall>la \<in> set src. wf_layer ?bn la \<and> (\<forall>q \<in> set (chunk_ids bpc i sids). q < length (blocks la))"
    using Suc.prems(4) set_chunk_ids [of bpc i sids] by blast
  have lb: "length ?bytes = chunk_nbytes tr"
    using length_chunk_bytes [OF las] len Suc.prems by (simp add: wf_transfer_def)
  have three: "length (staging (h2d tr)) = 3" using Suc.prems(1) by (simp add: wf_transfer_def wf_pipe_def)
  let ?ids = "slice (i * bpc + ?sk) ((i + 1) * bpc) ids"
  have idsl: "length ?ids = bpc - ?sk"
  proof -
    have "(i + 1) * bpc \<le> length ids"
      using i dvd by (metis Suc_eq_plus1 Suc_leI dvd_div_mult_self mult_le_mono1)
    then show ?thesis by simp
  qed
  define pipe where "pipe = \<lparr>staging = (staging (h2d tr))[?buf := ?bytes],
      cpu_bufs = (cpu_bufs (h2d tr))[?buf := ?bytes]\<rparr>"
  have view: "view_rows j bpc ?bn ?bytes = slice (i * bpc) ((i + 1) * bpc) (rows_of sids (src ! j))"
    if "j < length src" for j
    using view_rows_chunk [OF las len that] by (simp only: rows_of_chunk_ids)
  define las1 where "las1 = map (\<lambda>j. put_rows ?ids (drop ?sk (view_rows j bpc ?bn ?bytes)) (kv_caches tr ! j))
      [0..<length src]"
  have sc: "scatter (kv_caches tr) 0 bpc ?bn ?ids ?sk ?bytes [] = (Inr (), las1)"
  proof -
    have "\<forall>j < length (kv_caches tr). length (drop ?sk (view_rows (0 + j) bpc ?bn ?bytes)) = length ?ids"
      unfolding idsl by (simp add: view_rows_def)
    moreover have "\<forall>la \<in> set (kv_caches tr). \<forall>q \<in> set ?ids. q < length (blocks la)"
      using Suc.prems(2) set_slice [of "i * bpc + ?sk" "(i + 1) * bpc" ids] unfolding valid_ids_def by blast
    ultimately show ?thesis
      using Suc.prems(5) by (subst scatter_eq) (simp_all only: las1_def append_Nil add_0)
  qed
  define tr1 where "tr1 = tr\<lparr>h2d := pipe, kv_caches := las1\<rparr>"
  have one: "from_host_loop (?bytes # rest) i ids skip tr = from_host_loop rest (Suc i) ids skip tr1" for rest
    using sc lb three Suc.prems(7) by (simp add: fill_buf_def Let_def pipe_def tr1_def)
  have step: "from_host_loop (map (\<lambda>i. chunk_bytes (chunk_ids bpc i sids) src) [i..<?n]) i ids skip tr =
      from_host_loop (map (\<lambda>i. chunk_bytes (chunk_ids bpc i sids) src) [Suc i..<?n]) (Suc i) ids skip tr1"
    by (simp only: upt_conv_Cons [OF i] list.map one)
  have rowlen: "\<forall>r \<in> set (drop ?sk (view_rows j bpc ?bn ?bytes)). length r = ?bn" if "j < length src" for j
  proof -
    have "\<forall>r \<in> set (rows_of sids (src ! j)). length r = ?bn"
      using that Suc.prems(4) by (intro rows_of_uniform) auto
    then show ?thesis unfolding view [OF that] using set_drop_subset set_slice by fastforce
  qed
  have wf1: "wf_transfer tr1"
  proof -
    have "wf_layer ?bn la" if "la \<in> set las1" for la
      using that Suc.prems(1,5) rowlen by (auto simp: las1_def wf_transfer_def intro!: wf_put_rows)
    moreover have "wf_pipe (chunk_nbytes tr) pipe"
      using Suc.prems(1) lb set_update_subset_insert
      by (fastforce simp: wf_transfer_def wf_pipe_def pipe_def)
    moreover have "length las1 = length (kv_caches tr)" by (simp add: las1_def Suc.prems(5))
    ultimately show ?thesis using Suc.prems(1) by (auto simp: wf_transfer_def tr1_def)
  qed
  have v1: "valid_ids ids tr1"
    using Suc.prems(2,5) by (auto simp: valid_ids_def tr1_def las1_def)
  have "d = length ids div bpc - Suc i" using Suc.hyps(2) by simp
  from Suc.hyps(1) [OF this wf1 v1] Suc.prems i obtain pipe' where
    run: "from_host_loop (map (\<lambda>i. chunk_bytes (chunk_ids bpc i sids) src) [Suc i..<?n]) (Suc i) ids skip tr1 =
      (Inr (), tr1\<lparr>h2d := pipe', kv_caches := map (\<lambda>j. put_rows (drop (first_row bpc skip (Suc i)) ids)
       (drop (first_row bpc skip (Suc i)) (rows_of sids (src ! j))) (kv_caches tr1 ! j)) [0..<length src]\<rparr>)"
    by (auto simp: tr1_def las1_def)
  have fr: "?fr = i * bpc + ?sk" "first_row bpc skip (Suc i) = (i + 1) * bpc" by (simp_all add: first_row_def)
  have join: "put_rows (drop ((i + 1) * bpc) ids) (drop ((i + 1) * bpc) (rows_of sids (src ! j))) (las1 ! j) =
      put_rows (drop ?fr ids) (drop ?fr (rows_of sids (src ! j))) (kv_caches tr ! j)" if "j < length src" for j
  proof -
    have "?fr \<le> (i + 1) * bpc" using first_row_le Suc.prems(3,7) by simp
    then have "?ids @ drop ((i + 1) * bpc) ids = drop ?fr ids"
      "slice ?fr ((i + 1) * bpc) (rows_of sids (src ! j)) @ drop ((i + 1) * bpc) (rows_of sids (src ! j)) =
       drop ?fr (rows_of sids (src ! j))"
      unfolding fr(1) [symmetric] by (simp_all only: slice_drop)
    moreover have "drop ?sk (view_rows j bpc ?bn ?bytes) = slice ?fr ((i + 1) * bpc) (rows_of sids (src ! j))"
      unfolding view [OF that] by (simp only: slice_slice_drop fr(1))
    moreover have "length ?ids = length (slice ?fr ((i + 1) * bpc) (rows_of sids (src ! j)))"
      unfolding fr(1) using Suc.prems(6) by simp
    ultimately show ?thesis using that
      by (simp add: las1_def put_rows_put_rows)
  qed
  have "map (\<lambda>j. put_rows (drop ((i + 1) * bpc) ids) (drop ((i + 1) * bpc) (rows_of sids (src ! j))) (las1 ! j)) [0..<length src] =
      map (\<lambda>j. put_rows (drop ?fr ids) (drop ?fr (rows_of sids (src ! j))) (kv_caches tr ! j)) [0..<length src]"
    by (rule map_cong [OF refl]) (simp only: join set_upt atLeastLessThan_iff)
  with run step show ?case
    by (intro exI [of _ pipe']) (simp only: fr(2), simp add: tr1_def)
qed

lemma nth_put_rows:
  assumes "distinct ids" and "length ids = length rows" and "\<forall>i \<in> set ids. i < length (blocks la)"
  shows "q < length ids \<Longrightarrow> blocks (put_rows ids rows la) ! (ids ! q) = rows ! q"
    and "b \<notin> set ids \<Longrightarrow> blocks (put_rows ids rows la) ! b = blocks la ! b"
proof -
  assume q: "q < length ids"
  then have "(ids ! q, rows ! q) \<in> set (zip ids rows)" using assms(2) by (auto simp: set_zip)
  then show "blocks (put_rows ids rows la) ! (ids ! q) = rows ! q"
    using assms q by (simp add: put_rows_def fold_upd_nth)
next
  assume "b \<notin> set ids"
  then have "b \<notin> fst ` set (zip ids rows)" by (auto dest: set_zip_leftD)
  then show "blocks (put_rows ids rows la) ! b = blocks la ! b" by (simp add: put_rows_def fold_upd_other)
qed

subsection \<open>There and back\<close>

lemma host_roundtrip:
  assumes "wf_transfer tr" and "valid_ids sids tr" and "to_host sids tr = (Inr chunks, tr1)"
    and "wf_transfer dst" and "valid_ids ids dst" and "distinct ids" and "length ids = length sids"
    and "length (kv_caches dst) = length (kv_caches tr)" and "block_nbytes dst = block_nbytes tr"
    and "blocks_per_chunk dst = blocks_per_chunk tr" and "skip \<le> blocks_per_chunk dst"
  shows "\<exists>dst'. from_host chunks ids skip dst = (Inr (), dst') \<and>
    (\<forall>j < length (kv_caches tr).
       (\<forall>q < length ids. blocks (kv_caches dst' ! j) ! (ids ! q) =
          (if q < skip then blocks (kv_caches dst ! j) ! (ids ! q) else blocks (kv_caches tr ! j) ! (sids ! q)))
       \<and> (\<forall>b. b \<notin> set ids \<longrightarrow> blocks (kv_caches dst' ! j) ! b = blocks (kv_caches dst ! j) ! b))"
proof -
  let ?bpc = "blocks_per_chunk dst" and ?src = "kv_caches tr"
  have chunks: "chunks = map (\<lambda>i. chunk_bytes (chunk_ids ?bpc i sids) ?src) [0..<length ids div ?bpc]"
    using to_host_eq [OF assms(1,2)] assms(3,7,10) by auto
  have src: "\<forall>la \<in> set ?src. wf_layer (block_nbytes dst) la \<and> (\<forall>i \<in> set sids. i < length (blocks la))"
    using assms(1,2,9) by (auto simp: wf_transfer_def valid_ids_def)
  from from_host_loop_eq [OF assms(4,5,11) src assms(8) [symmetric] assms(7) [symmetric] refl, of 0]
  obtain pipe where run: "from_host_loop chunks 0 ids skip dst = (Inr (), dst\<lparr>h2d := pipe, kv_caches :=
      map (\<lambda>j. put_rows (drop skip ids) (drop skip (rows_of sids (?src ! j))) (kv_caches dst ! j)) [0..<length ?src]\<rparr>)"
    by (auto simp: chunks first_row_def)
  have "0 < ?bpc" "length ids mod ?bpc = 0" using assms(4,5) by (auto simp: wf_transfer_def valid_ids_def)
  with run have res: "from_host chunks ids skip dst = (Inr (), dst\<lparr>h2d := pipe, kv_caches :=
      map (\<lambda>j. put_rows (drop skip ids) (drop skip (rows_of sids (?src ! j))) (kv_caches dst ! j)) [0..<length ?src]\<rparr>)"
    by (simp add: from_host_def)
  have "(\<forall>q < length ids. blocks (put_rows (drop skip ids) (drop skip (rows_of sids (?src ! j))) (kv_caches dst ! j)) ! (ids ! q) =
          (if q < skip then blocks (kv_caches dst ! j) ! (ids ! q) else blocks (?src ! j) ! (sids ! q)))
       \<and> (\<forall>b. b \<notin> set ids \<longrightarrow> blocks (put_rows (drop skip ids) (drop skip (rows_of sids (?src ! j))) (kv_caches dst ! j)) ! b
            = blocks (kv_caches dst ! j) ! b)" if j: "j < length ?src" for j
  proof -
    let ?P = "put_rows (drop skip ids) (drop skip (rows_of sids (?src ! j))) (kv_caches dst ! j)"
    have rng: "\<forall>i \<in> set (drop skip ids). i < length (blocks (kv_caches dst ! j))"
      using assms(5,8) j set_drop_subset [of skip ids] by (auto simp: valid_ids_def)
    have dis: "distinct (drop skip ids)" and len: "length (drop skip ids) = length (drop skip (rows_of sids (?src ! j)))"
      using assms(6,7) by simp_all
    note put = nth_put_rows [OF dis len rng]
    have "blocks ?P ! (ids ! q) = blocks (kv_caches dst ! j) ! (ids ! q)" if "q < skip" "q < length ids" for q
    proof -
      have "ids ! q \<in> set (take skip ids)" using that by (auto simp: in_set_conv_nth)
      then have "ids ! q \<notin> set (drop skip ids)"
        using distinct_take_drop_disjoint [OF assms(6), of skip] by blast
      then show ?thesis by (rule put(2))
    qed
    moreover have "blocks ?P ! (ids ! q) = blocks (?src ! j) ! (sids ! q)" if "\<not> q < skip" "q < length ids" for q
      using put(1) [of "q - skip"] that assms(7) by (simp add: rows_of_def)
    moreover have "blocks ?P ! b = blocks (kv_caches dst ! j) ! b" if "b \<notin> set ids" for b
      using put(2) [of b] that set_drop_subset [of skip ids] by blast
    ultimately show ?thesis by auto
  qed
  with res show ?thesis by simp
qed

subsection \<open>Properties\<close>

text \<open>
  C23. A KV cache survives the trip through the host: the chunks \<open>to_host\<close> copies out of one
  engine, given to \<open>from_host\<close> of an engine with the same geometry (the same one later, or
  another), put into every layer and every named block exactly the bytes the source blocks had,
  except for the first \<open>skip\<close> blocks, which are left alone, as is every block that is not
  named.  All the staging slots and host buffers being reused every three chunks, and whatever
  they held before, makes no difference.
\<close>

theorem transfer_roundtrip:
  assumes "wf_transfer tr" and "valid_ids sids tr" and "to_host sids tr = (Inr chunks, tr1)"
    and "wf_transfer dst" and "valid_ids ids dst" and "distinct ids" and "length ids = length sids"
    and "length (kv_caches dst) = length (kv_caches tr)" and "block_nbytes dst = block_nbytes tr"
    and "blocks_per_chunk dst = blocks_per_chunk tr" and "skip \<le> blocks_per_chunk dst"
  shows "\<exists>dst'. from_host chunks ids skip dst = (Inr (), dst') \<and>
    (\<forall>j < length (kv_caches tr).
       (\<forall>q < length ids. blocks (kv_caches dst' ! j) ! (ids ! q) =
          (if q < skip then blocks (kv_caches dst ! j) ! (ids ! q) else blocks (kv_caches tr ! j) ! (sids ! q)))
       \<and> (\<forall>b. b \<notin> set ids \<longrightarrow> blocks (kv_caches dst' ! j) ! b = blocks (kv_caches dst ! j) ! b))"
  using assms by (rule host_roundtrip)

text \<open>Two layers, chunks of two blocks of one byte; blocks 2, 0 travel to blocks 1, 3, the first is skipped.\<close>

definition demo_tr :: "byte list list \<Rightarrow> byte list list \<Rightarrow> kv_transfer" where
  "demo_tr a b = \<lparr>tr_rank = 0, kv_caches = [\<lparr>block_bytes = 1, blocks = a\<rparr>, \<lparr>block_bytes = 1, blocks = b\<rparr>],
     blocks_per_chunk = 2, block_nbytes = 1, chunk_nbytes = 4,
     d2h = \<lparr>staging = replicate 3 [0, 0, 0, 0], cpu_bufs = replicate 3 [0, 0, 0, 0]\<rparr>,
     h2d = \<lparr>staging = replicate 3 [0, 0, 0, 0], cpu_bufs = replicate 3 [0, 0, 0, 0]\<rparr>\<rparr>"

lemma transfer_roundtrip_witness:
  "\<exists>dst'. from_host [[3, 1, 6, 4]] [1, 3] 1 (demo_tr [[7], [7], [7], [7]] [[8], [8], [8], [8]]) = (Inr (), dst')
    \<and> blocks (kv_caches dst' ! 0) ! 3 = [1] \<and> blocks (kv_caches dst' ! 1) ! 3 = [4]
    \<and> blocks (kv_caches dst' ! 0) ! 1 = [7]"
proof -
  let ?src = "demo_tr [[1], [2], [3]] [[4], [5], [6]]" and ?dst = "demo_tr [[7], [7], [7], [7]] [[8], [8], [8], [8]]"
  have "fst (to_host [2, 0] ?src) = Inr [[3, 1, 6, 4]]" by code_simp
  then have t: "to_host [2, 0] ?src = (Inr [[3, 1, 6, 4]], snd (to_host [2, 0] ?src))"
    by (metis prod.collapse)
  have "wf_transfer ?src" "valid_ids [2, 0] ?src" "wf_transfer ?dst" "valid_ids [1, 3] ?dst"
    by (simp_all add: demo_tr_def wf_transfer_def wf_layer_def wf_pipe_def valid_ids_def)
  from transfer_roundtrip [OF this(1,2) t this(3,4), of 1]
  obtain dst' where d: "from_host [[3, 1, 6, 4]] [1, 3] 1 ?dst = (Inr (), dst')"
    and "\<forall>j < 2. (\<forall>q < 2. blocks (kv_caches dst' ! j) ! ([1, 3] ! q) =
          (if q < 1 then blocks (kv_caches ?dst ! j) ! ([1, 3] ! q) else blocks (kv_caches ?src ! j) ! ([2, 0] ! q)))"
    by (auto simp: demo_tr_def)
  then have "blocks (kv_caches dst' ! 0) ! 3 = [1]" "blocks (kv_caches dst' ! 1) ! 3 = [4]"
    "blocks (kv_caches dst' ! 0) ! 1 = [7]"
    by (fastforce simp: demo_tr_def dest: spec [of _ 0] spec [of _ 1])+
  with d show ?thesis by blast
qed

end
