(* ===== verification/Connector.thy ===== *)
theory Connector
  imports Protocol KV_Transfer MQ
begin

text \<open>
  The scheduler and worker hooks of \<open>MiniConnector\<close>
  (\<open>mini_llmcache/integration/vllm_connector.py\<close>).  Dictionaries whose order the code walks
  are association lists in insertion order.  The answers of the cache server to blocking calls
  and the scheduler's output are arguments.
\<close>

subsection \<open>State\<close>

record request_tracker =
  rt_token_ids :: tokens
  lmcache_hits :: nat
  vllm_hits :: nat
  rt_block_ids :: "nat list"
  num_computed_tokens :: nat
  num_stored_tokens :: nat
  lookup_resolved :: bool
  load_pending :: bool
  alloc_seen :: bool

definition RequestTracker :: "tokens \<Rightarrow> request_tracker" where
  "RequestTracker toks = \<lparr>rt_token_ids = toks, lmcache_hits = 0, vllm_hits = 0, rt_block_ids = [],
     num_computed_tokens = 0, num_stored_tokens = 0, lookup_resolved = False, load_pending = False,
     alloc_seen = False\<rparr>"

text \<open>A \<open>DeviceFuture\<close>: the uid of the message and, for a load, the event its thread sets.\<close>

record device_future =
  df_uid :: nat
  df_event :: "nat option"

type_synonym mq = "(payload, plain) client"

record connector =
  cn_client :: mq
  cn_chunk_size :: nat
  cn_block_size :: nat
  cn_model :: string
  cn_world_size :: nat
  cn_instance_id :: int
  cn_trackers :: "(string \<times> request_tracker) list"
  cn_store_futures :: "(string \<times> device_future list) list"
  cn_load_futures :: "(string \<times> device_future) list"
  cn_pending_sends :: "string set"
  cn_events :: "nat set"
  cn_transfer :: "kv_transfer option"

text \<open>\<open>d.get(k)\<close>, \<open>d[k] = v\<close> and \<open>d.pop(k, None)\<close> on an insertion-ordered dictionary.\<close>

definition al_get :: "'k \<Rightarrow> ('k \<times> 'v) list \<Rightarrow> 'v option" where
  "al_get k d = map_of d k"

definition al_set :: "'k \<Rightarrow> 'v \<Rightarrow> ('k \<times> 'v) list \<Rightarrow> ('k \<times> 'v) list" where
  "al_set k v d = (if k \<in> fst ` set d then map (\<lambda>(j, w). (j, if j = k then v else w)) d else d @ [(k, v)])"

definition al_pop :: "'k \<Rightarrow> ('k \<times> 'v) list \<Rightarrow> ('k \<times> 'v) list" where
  "al_pop k d = filter (\<lambda>(j, w). j \<noteq> k) d"

definition submit_msg :: "req \<Rightarrow> payload \<Rightarrow> connector \<Rightarrow> nat \<times> connector" where
  "submit_msg rq pl c = (case mq_submit rq pl (cn_client c) of (uid, cl) \<Rightarrow> (uid, c\<lparr>cn_client := cl\<rparr>))"

definition set_tracker :: "string \<Rightarrow> request_tracker \<Rightarrow> connector \<Rightarrow> connector" where
  "set_tracker rid t c = c\<lparr>cn_trackers := al_set rid t (cn_trackers c)\<rparr>"

text \<open>
  The constructor, given the server's answer to \<open>GET_CHUNK_SIZE\<close>; any failure of that call
  becomes a \<open>RuntimeError\<close>.
\<close>

definition MiniConnector :: "nat res \<Rightarrow> nat \<Rightarrow> string \<Rightarrow> nat \<Rightarrow> int \<Rightarrow> connector res" where
  "MiniConnector answer block_size model world_size instance_id =
     (case answer of
        Inl _ \<Rightarrow> Inl RuntimeError
      | Inr chunk_size \<Rightarrow>
          if block_size = 0 then Inl ZeroDivisionError
          else if chunk_size mod block_size \<noteq> 0 then Inl AssertionError
          else Inr \<lparr>cn_client = snd (mq_submit GET_CHUNK_SIZE P_none MQClient),
                 cn_chunk_size = chunk_size, cn_block_size = block_size, cn_model = model,
                 cn_world_size = world_size, cn_instance_id = instance_id, cn_trackers = [],
                 cn_store_futures = [], cn_load_futures = [], cn_pending_sends = {},
                 cn_events = {}, cn_transfer = None\<rparr>)"

subsection \<open>Op generation\<close>

definition generate_retrieve_op :: "nat \<Rightarrow> nat \<Rightarrow> request_tracker
    \<Rightarrow> load_store_op option res \<times> request_tracker" where
  "generate_retrieve_op chunk_size block_size t =
     (if \<not> load_pending t then (Inr None, t)
      else
        let t = t\<lparr>load_pending := False\<rparr> in
        if chunk_size = 0 \<or> block_size = 0 then (Inl ZeroDivisionError, t)
        else
          let start = vllm_hits t div chunk_size * chunk_size; stop = lmcache_hits t
          in (Inr (Some \<lparr>op_token_ids = take stop (rt_token_ids t),
                         op_block_ids = slice (start div block_size) (stop div block_size) (rt_block_ids t),
                         op_start = start, op_end = stop,
                         op_skip_first_n_tokens = vllm_hits t - start\<rparr>), t))"

text \<open>\<open>available - num_stored_tokens\<close> may be negative: the subtraction is on integers.\<close>

definition generate_store_op :: "nat \<Rightarrow> nat \<Rightarrow> request_tracker
    \<Rightarrow> load_store_op option res \<times> request_tracker" where
  "generate_store_op chunk_size block_size t =
     (let available = min (length (rt_token_ids t))
            (min (length (rt_block_ids t) * block_size) (num_computed_tokens t))
      in if chunk_size = 0 then (Inl ZeroDivisionError, t)
         else
           let num_chunks = (int available - int (num_stored_tokens t)) div int chunk_size in
           if num_chunks \<le> 0 then (Inr None, t)
           else
             let start = num_stored_tokens t; stop = start + nat num_chunks * chunk_size;
                 t = t\<lparr>num_stored_tokens := stop\<rparr> in
             if block_size = 0 then (Inl ZeroDivisionError, t)
             else (Inr (Some \<lparr>op_token_ids = take stop (rt_token_ids t),
                              op_block_ids = slice (start div block_size) (stop div block_size) (rt_block_ids t),
                              op_start = start, op_end = stop, op_skip_first_n_tokens = 0\<rparr>), t))"

subsection \<open>Scheduler hooks\<close>

text \<open>
  \<open>answer\<close> is what the blocking QUERY gives: an exception (a time-out included), nothing yet, or
  the number of hit tokens.
\<close>

definition query_hits :: "string \<Rightarrow> request_tracker \<Rightarrow> nat \<Rightarrow> nat option res \<Rightarrow> connector
    \<Rightarrow> (nat option \<times> bool) \<times> connector" where
  "query_hits rid t computed answer c =
     (let c = snd (submit_msg QUERY_PREFETCH_STATUS
            (P_query \<lparr>qp_request_id = rid, qp_world_size = cn_world_size c\<rparr>) c)
      in case answer of
           Inl _ \<Rightarrow> ((Some 0, False), set_tracker rid (t\<lparr>lookup_resolved := True\<rparr>) c)
         | Inr None \<Rightarrow> ((None, True), c)
         | Inr (Some hits) \<Rightarrow>
             let c = set_tracker rid (t\<lparr>lookup_resolved := True, lmcache_hits := hits,
                   vllm_hits := computed, num_stored_tokens := hits\<rparr>) c
             in if hits > computed then ((Some (hits - computed), True), c)
                else ((Some 0, False), c))"

definition get_num_new_matched_tokens :: "string \<Rightarrow> tokens \<Rightarrow> tokens \<Rightarrow> nat \<Rightarrow> nat option res
    \<Rightarrow> connector \<Rightarrow> (nat option \<times> bool) res \<times> connector" where
  "get_num_new_matched_tokens rid all_token_ids prompt computed answer c =
     (case al_get rid (cn_trackers c) of
        None \<Rightarrow>
          let t = RequestTracker all_token_ids; c = set_tracker rid t c in
          if cn_chunk_size c = 0 then (Inl ZeroDivisionError, c)
          else
            let num_lookup = length prompt div cn_chunk_size c * cn_chunk_size c;
                c = snd (submit_msg LOOKUP (P_lookup \<lparr>lp_request_id = rid,
                      lp_token_ids = take num_lookup prompt, lp_model = cn_model c,
                      lp_world_size = cn_world_size c\<rparr>) c)
            in (case query_hits rid t computed answer c of (r, c) \<Rightarrow> (Inr r, c))
      | Some t \<Rightarrow>
          if lookup_resolved t then (Inr (Some 0, False), c)
          else (case query_hits rid t computed answer c of (r, c) \<Rightarrow> (Inr r, c)))"

definition update_state_after_alloc :: "string \<Rightarrow> nat list \<Rightarrow> nat \<Rightarrow> connector \<Rightarrow> unit res \<times> connector" where
  "update_state_after_alloc rid group_blocks num_external c =
     (case al_get rid (cn_trackers c) of
        None \<Rightarrow> (Inr (), c)
      | Some t \<Rightarrow>
          let t = t\<lparr>rt_block_ids := rt_block_ids t @ drop (length (rt_block_ids t)) group_blocks\<rparr>;
              t = (if num_external > 0 then t\<lparr>load_pending := True\<rparr> else t)
          in if alloc_seen t then (Inr (), set_tracker rid t c)
             else
               let t = t\<lparr>alloc_seen := True\<rparr>; c = set_tracker rid t c in
               if cn_chunk_size c = 0 then (Inl ZeroDivisionError, c)
               else
                 let lmcache_chunks = lmcache_hits t div cn_chunk_size c;
                     free_until = (if load_pending t
                       then min (vllm_hits t div cn_chunk_size c) lmcache_chunks else lmcache_chunks)
                 in (Inr (), if free_until \<noteq> 0
                       then snd (submit_msg FREE_LOOKUP_LOCKS (P_free_locks
                              \<lparr>fp_request_id = rid, fp_num_chunks = free_until,
                               fp_world_size = cn_world_size c\<rparr>) c)
                       else c))"

text \<open>
  The parts of the scheduler's output the connector reads: new requests with the blocks of
  their first group and their computed tokens; for cached requests the ids, the new blocks of
  the first group (if any), the computed tokens and the resumed ids; the scheduled tokens.
\<close>

record scheduler_output =
  so_new_reqs :: "(string \<times> nat list \<times> nat) list"
  so_cached_ids :: "string list"
  so_new_block_ids :: "nat list option list"
  so_cached_computed :: "nat list"
  so_resumed :: "string set"
  so_scheduled_tokens :: "(string \<times> nat) list"

text \<open>The first loop walks the trackers in order and asks each for its RETRIEVE op.\<close>

fun retrieve_metas :: "nat \<Rightarrow> nat \<Rightarrow> (string \<times> request_tracker) list
    \<Rightarrow> req_meta list res \<times> (string \<times> request_tracker) list" where
  "retrieve_metas cs bs [] = (Inr [], [])"
| "retrieve_metas cs bs ((rid, t) # ts) =
     (case generate_retrieve_op cs bs t of
        (Inl x, t') \<Rightarrow> (Inl x, (rid, t') # ts)
      | (Inr op, t') \<Rightarrow>
          (case retrieve_metas cs bs ts of
             (Inl x, ts') \<Rightarrow> (Inl x, (rid, t') # ts')
           | (Inr ms, ts') \<Rightarrow>
               (Inr ((case op of None \<Rightarrow> [] | Some p \<Rightarrow>
                        [\<lparr>rm_request_id = rid, rm_req = RETRIEVE, rm_op = p\<rparr>]) @ ms), (rid, t') # ts')))"

definition update_new_req :: "(string \<times> nat list \<times> nat) \<Rightarrow> (string \<times> request_tracker) list
    \<Rightarrow> (string \<times> request_tracker) list" where
  "update_new_req nr ts =
     (case nr of (rid, bids, computed) \<Rightarrow>
        (case al_get rid ts of
           None \<Rightarrow> ts
         | Some t \<Rightarrow> al_set rid (t\<lparr>rt_block_ids := bids, num_computed_tokens := computed\<rparr>) ts))"

fun update_cached :: "scheduler_output \<Rightarrow> nat \<Rightarrow> string list \<Rightarrow> (string \<times> request_tracker) list
    \<Rightarrow> unit res \<times> (string \<times> request_tracker) list" where
  "update_cached so i [] ts = (Inr (), ts)"
| "update_cached so i (rid # rids) ts =
     (case al_get rid ts of
        None \<Rightarrow> update_cached so (Suc i) rids ts
      | Some t \<Rightarrow>
          if length (so_new_block_ids so) \<le> i then (Inl IndexError, ts)
          else
            let t = (case so_new_block_ids so ! i of
                       None \<Rightarrow> t
                     | Some bids \<Rightarrow>
                         if rid \<in> so_resumed so then t\<lparr>rt_block_ids := bids\<rparr>
                         else t\<lparr>rt_block_ids := rt_block_ids t @ bids\<rparr>)
            in if length (so_cached_computed so) \<le> i then (Inl IndexError, al_set rid t ts)
               else update_cached so (Suc i) rids
                      (al_set rid (t\<lparr>num_computed_tokens := so_cached_computed so ! i\<rparr>) ts))"

fun store_metas :: "nat \<Rightarrow> nat \<Rightarrow> (string \<times> nat) list \<Rightarrow> (string \<times> request_tracker) list
    \<Rightarrow> req_meta list res \<times> (string \<times> request_tracker) list" where
  "store_metas cs bs [] ts = (Inr [], ts)"
| "store_metas cs bs ((rid, scheduled) # rest) ts =
     (case al_get rid ts of
        None \<Rightarrow> store_metas cs bs rest ts
      | Some t \<Rightarrow>
          (case generate_store_op cs bs (t\<lparr>num_computed_tokens := num_computed_tokens t + scheduled\<rparr>) of
             (Inl x, t') \<Rightarrow> (Inl x, al_set rid t' ts)
           | (Inr op, t') \<Rightarrow>
               (case store_metas cs bs rest (al_set rid t' ts) of
                  (Inl x, ts') \<Rightarrow> (Inl x, ts')
                | (Inr ms, ts') \<Rightarrow>
                    (Inr ((case op of None \<Rightarrow> [] | Some p \<Rightarrow>
                             [\<lparr>rm_request_id = rid, rm_req = STORE, rm_op = p\<rparr>]) @ ms), ts'))))"

definition build_connector_meta :: "scheduler_output \<Rightarrow> connector \<Rightarrow> req_meta list res \<times> connector" where
  "build_connector_meta so c =
     (let cs = cn_chunk_size c; bs = cn_block_size c in
      case retrieve_metas cs bs (cn_trackers c) of
        (Inl x, ts) \<Rightarrow> (Inl x, c\<lparr>cn_trackers := ts\<rparr>)
      | (Inr loads, ts) \<Rightarrow>
          (case update_cached so 0 (so_cached_ids so) (fold update_new_req (so_new_reqs so) ts) of
             (Inl x, ts) \<Rightarrow> (Inl x, c\<lparr>cn_trackers := ts\<rparr>)
           | (Inr _, ts) \<Rightarrow>
               (case store_metas cs bs (so_scheduled_tokens so) ts of
                  (Inl x, ts) \<Rightarrow> (Inl x, c\<lparr>cn_trackers := ts\<rparr>)
                | (Inr stores, ts) \<Rightarrow> (Inr (loads @ stores), c\<lparr>cn_trackers := ts\<rparr>))))"

definition request_finished :: "string \<Rightarrow> connector \<Rightarrow> bool \<times> connector" where
  "request_finished rid c =
     (True, snd (submit_msg END_SESSION (P_request rid)
        (c\<lparr>cn_trackers := al_pop rid (cn_trackers c)\<rparr>)))"

subsection \<open>Worker hooks\<close>

text \<open>
  \<open>submit_transfers(STORE)\<close>: each op's blocks are copied out and sent; an exception of the copy
  leaves the messages sent so far behind.  \<open>secs i\<close> is the measured time of the \<open>i\<close>-th copy.
\<close>

fun submit_stores :: "(nat \<Rightarrow> rat) \<Rightarrow> nat \<Rightarrow> req_meta list \<Rightarrow> kv_transfer \<Rightarrow> connector
    \<Rightarrow> (string \<times> device_future) list \<Rightarrow> (string \<times> device_future) list res \<times> connector" where
  "submit_stores secs i [] tr c out = (Inr out, c)"
| "submit_stores secs i (m # ms) tr c out =
     (case to_host (op_block_ids (rm_op m)) tr of
        (Inl x, tr') \<Rightarrow> (Inl x, c\<lparr>cn_transfer := Some tr'\<rparr>)
      | (Inr chunks, tr') \<Rightarrow>
          (case submit_msg STORE (P_transfer \<lparr>tp_request_id = rm_request_id m,
                  tp_instance_id = cn_instance_id c, tp_op = rm_op m, tp_chunks = chunks,
                  tp_elapsed = secs i, tp_nbytes = length chunks * chunk_nbytes tr'\<rparr>)
                  (c\<lparr>cn_transfer := Some tr'\<rparr>) of
             (uid, c') \<Rightarrow> submit_stores secs (Suc i) ms tr' c'
                 (al_set (rm_request_id m) \<lparr>df_uid = uid, df_event = None\<rparr> out)))"

text \<open>\<open>submit_transfers(RETRIEVE)\<close>: the request is sent and a thread with its event is started.\<close>

fun submit_retrieves :: "req_meta list \<Rightarrow> connector \<Rightarrow> (string \<times> device_future) list
    \<Rightarrow> (string \<times> device_future) list \<times> connector" where
  "submit_retrieves [] c out = (out, c)"
| "submit_retrieves (m # ms) c out =
     (case submit_msg RETRIEVE (P_transfer \<lparr>tp_request_id = rm_request_id m,
             tp_instance_id = cn_instance_id c, tp_op = rm_op m, tp_chunks = [],
             tp_elapsed = 0, tp_nbytes = 0\<rparr>) c of
        (uid, c') \<Rightarrow> submit_retrieves ms c'
            (al_set (rm_request_id m) \<lparr>df_uid = uid, df_event = Some uid\<rparr> out))"

definition submit_transfers :: "(nat \<Rightarrow> rat) \<Rightarrow> req \<Rightarrow> req_meta list \<Rightarrow> connector
    \<Rightarrow> (string \<times> device_future) list res \<times> connector" where
  "submit_transfers secs rq metas c =
     (let ops = filter (\<lambda>m. rm_req m = rq) metas in
      if ops = [] then (Inr [], c)
      else case cn_transfer c of
             None \<Rightarrow> (Inl RuntimeError, c)
           | Some tr \<Rightarrow>
               if rq = STORE then submit_stores secs 0 ops tr c []
               else (case submit_retrieves ops c [] of (out, c') \<Rightarrow> (Inr out, c')))"

text \<open>
  \<open>_finish_load\<close>, the thread of a RETRIEVE: whatever happens, the event is set at the end.  The
  block size is positive (see the constructor).
\<close>

definition finish_load :: "rat \<Rightarrow> string \<Rightarrow> load_store_op \<Rightarrow> byte list list option res \<Rightarrow> nat
    \<Rightarrow> connector \<Rightarrow> connector" where
  "finish_load secs rid op answer ev c =
     (let c1 = (case (answer, cn_transfer c) of
                  (Inr (Some chunks), Some tr) \<Rightarrow>
                    (case from_host chunks (op_block_ids op)
                            (op_skip_first_n_tokens op div cn_block_size c) tr of
                       (Inl _, tr') \<Rightarrow> c\<lparr>cn_transfer := Some tr'\<rparr>
                     | (Inr _, tr') \<Rightarrow>
                         snd (submit_msg TRANSFER_ACK (P_ack \<lparr>ap_request_id = rid,
                           ap_kind = ''RETRIEVE'', ap_nbytes = length chunks * chunk_nbytes tr',
                           ap_elapsed = secs\<rparr>) (c\<lparr>cn_transfer := Some tr'\<rparr>)))
                | _ \<Rightarrow> c)
      in c1\<lparr>cn_events := insert ev (cn_events c1)\<rparr>)"

definition start_load_kv :: "req_meta list \<Rightarrow> connector \<Rightarrow> unit res \<times> connector" where
  "start_load_kv metas c =
     (case submit_transfers (\<lambda>_. 0) RETRIEVE metas c of
        (Inl x, c') \<Rightarrow> (Inl x, c')
      | (Inr out, c') \<Rightarrow>
          (Inr (), c'\<lparr>cn_load_futures := fold (\<lambda>(k, v). al_set k v) out (cn_load_futures c')\<rparr>))"

definition add_store_future :: "string \<times> device_future \<Rightarrow> (string \<times> device_future list) list
    \<Rightarrow> (string \<times> device_future list) list" where
  "add_store_future kf d =
     (case kf of (rid, f) \<Rightarrow>
        al_set rid ((case al_get rid d of None \<Rightarrow> [] | Some fs \<Rightarrow> fs) @ [f]) d)"

definition wait_for_save :: "(nat \<Rightarrow> rat) \<Rightarrow> req_meta list \<Rightarrow> connector \<Rightarrow> unit res \<times> connector" where
  "wait_for_save secs metas c =
     (case submit_transfers secs STORE metas c of
        (Inl x, c') \<Rightarrow> (Inl x, c')
      | (Inr out, c') \<Rightarrow>
          (Inr (), c'\<lparr>cn_store_futures := fold add_store_future out (cn_store_futures c')\<rparr>))"

text \<open>The two hooks for transfers layer by layer, which this connector does not use.\<close>

definition wait_for_layer_load :: "string \<Rightarrow> connector \<Rightarrow> unit res \<times> connector" where
  "wait_for_layer_load layer_name c = (Inr (), c)"

definition save_kv_layer :: "string \<Rightarrow> layer \<Rightarrow> 'attn \<Rightarrow> connector \<Rightarrow> unit res \<times> connector" where
  "save_kv_layer layer_name kv_layer attn_metadata c = (Inr (), c)"

text \<open>\<open>DeviceFuture.done\<close>: the message is answered and, for a load, the event is set.\<close>

definition df_done :: "connector \<Rightarrow> device_future \<Rightarrow> bool" where
  "df_done c f \<longleftrightarrow>
     (if df_uid f \<notin> dom (settled (cn_client c)) then False
      else case df_event f of None \<Rightarrow> True | Some e \<Rightarrow> e \<in> cn_events c)"

definition live_futures :: "connector \<Rightarrow> (string \<times> device_future list) list
    \<Rightarrow> (string \<times> device_future list) list" where
  "live_futures c d =
     filter (\<lambda>(rid, fs). fs \<noteq> []) (map (\<lambda>(rid, fs). (rid, filter (\<lambda>f. \<not> df_done c f) fs)) d)"

definition get_finished :: "string set \<Rightarrow> connector \<Rightarrow> (string set \<times> string set) \<times> connector" where
  "get_finished finished_req_ids c =
     (let sends = cn_pending_sends c \<union> finished_req_ids;
          stores = live_futures c (cn_store_futures c);
          finished_sending = {rid \<in> sends. rid \<notin> fst ` set stores};
          finished_recving = set (map fst (filter (\<lambda>(rid, f). df_done c f) (cn_load_futures c)))
      in ((finished_sending, finished_recving),
          c\<lparr>cn_pending_sends := sends - finished_sending, cn_store_futures := stores,
            cn_load_futures := filter (\<lambda>(rid, f). rid \<notin> finished_recving) (cn_load_futures c)\<rparr>))"

end
