(* ===== verification/Connector_Laws.thy ===== *)
theory Connector_Laws
  imports Connector
begin

text \<open>
  What the connector asks the server to do: the ranges of the STORE and RETRIEVE ops it
  generates, how they fit together over a whole run of the scheduler's hooks, which chunks it gives back
  unused, and what it reports as finished.
\<close>

subsection \<open>Insertion-ordered dictionaries\<close>

lemma map_of_update:
  "map_of (map (\<lambda>(j, w). (j, if j = k then v else w)) d) i = (if i = k \<and> k \<in> fst ` set d then Some v else map_of d i)"
proof (induction d)
  case Nil
  show ?case by simp
next
  case (Cons x d)
  obtain a b where x: "x = (a, b)" by fastforce
  show ?case
  proof (cases "a = i")
    case True
    then show ?thesis by (simp add: x)
  next
    case False
    with Cons.IH show ?thesis by (cases "i = k") (simp_all add: x)
  qed
qed

lemma al_get_set [simp]: "al_get i (al_set k v d) = (if i = k then Some v else al_get i d)"
proof (cases "k \<in> fst ` set d")
  case True
  then show ?thesis by (simp add: al_get_def al_set_def map_of_update)
next
  case False
  then have "map_of d k = None" by (simp add: map_of_eq_None_iff)
  with False show ?thesis by (simp add: al_get_def al_set_def map_add_def split: option.split)
qed

lemma al_get_pop [simp]: "al_get i (al_pop k d) = (if i = k then None else al_get i d)"
  unfolding al_get_def al_pop_def by (induction d) auto

lemma al_get_in: "al_get k d = Some v \<Longrightarrow> k \<in> fst ` set d"
  unfolding al_get_def by (force dest: map_of_SomeD)

lemma keys_al_set: "map fst (al_set k v d) = (if k \<in> fst ` set d then map fst d else map fst d @ [k])"
  by (induction d) (auto simp: al_set_def)

lemma distinct_al_set: "distinct (map fst d) \<Longrightarrow> distinct (map fst (al_set k v d))"
  by (auto simp: keys_al_set)

subsection \<open>One STORE op\<close>

definition available :: "nat \<Rightarrow> request_tracker \<Rightarrow> nat" where
  "available bs t = min (length (rt_token_ids t)) (min (length (rt_block_ids t) * bs) (num_computed_tokens t))"

text \<open>
  The state of a tracker between hooks: what is stored, and what was hit, is whole chunks.
\<close>

definition whole_chunks :: "nat \<Rightarrow> request_tracker \<Rightarrow> bool" where
  "whole_chunks cs t \<longleftrightarrow> cs dvd num_stored_tokens t \<and> cs dvd lmcache_hits t"

lemma store_op_none:
  assumes "0 < cs" and "available bs t < num_stored_tokens t + cs"
  shows "generate_store_op cs bs t = (Inr None, t)"
proof -
  have "\<not> 0 < (int (available bs t) - int (num_stored_tokens t)) div int cs"
    using assms by (simp add: pos_imp_zdiv_pos_iff)
  with assms(1) show ?thesis by (simp add: generate_store_op_def available_def Let_def)
qed

lemma store_op_some:
  assumes "0 < cs" and "0 < bs" and "bs dvd cs" and "cs dvd num_stored_tokens t"
    and "num_stored_tokens t + cs \<le> available bs t"
  shows "\<exists>stop. generate_store_op cs bs t =
      (Inr (Some \<lparr>op_token_ids = take stop (rt_token_ids t),
                  op_block_ids = slice (num_stored_tokens t div bs) (stop div bs) (rt_block_ids t),
                  op_start = num_stored_tokens t, op_end = stop, op_skip_first_n_tokens = 0\<rparr>),
       t\<lparr>num_stored_tokens := stop\<rparr>)
    \<and> cs dvd stop \<and> num_stored_tokens t < stop \<and> stop \<le> available bs t \<and> available bs t < stop + cs"
proof -
  let ?a = "available bs t" and ?s = "num_stored_tokens t"
  define d where "d = (?a - ?s) div cs"
  define stop where "stop = ?s + d * cs"
  have int_d: "(int ?a - int ?s) div int cs = int d"
    using assms(5) by (simp add: d_def of_nat_diff zdiv_int)
  have d: "0 < d" using assms(1,5) by (simp add: d_def div_greater_zero_iff)
  have run: "generate_store_op cs bs t =
      (Inr (Some \<lparr>op_token_ids = take stop (rt_token_ids t),
                  op_block_ids = slice (?s div bs) (stop div bs) (rt_block_ids t),
                  op_start = ?s, op_end = stop, op_skip_first_n_tokens = 0\<rparr>), t\<lparr>num_stored_tokens := stop\<rparr>)"
    using assms(1,2) d int_d [unfolded available_def]
    by (simp add: generate_store_op_def Let_def stop_def)
  have "d * cs \<le> ?a - ?s" "?a - ?s < Suc d * cs"
    using assms(1) by (simp_all add: d_def dividend_less_div_times)
  then have "stop \<le> ?a" "?a < stop + cs" using assms(5) by (simp_all add: stop_def)
  moreover have "cs dvd stop" "?s < stop" using assms(1,4) d by (simp_all add: stop_def)
  ultimately show ?thesis using run by blast
qed

subsection \<open>Runs of the scheduler's hooks\<close>

text \<open>
  The calls of the scheduler in any order, with the answers the server gives; \<open>New_tokens\<close> is
  vLLM appending generated tokens to the request's list, which the tracker shares.
\<close>

datatype hook =
    Get_num_new_matched_tokens string tokens tokens nat "nat option res"
  | Update_state_after_alloc string "nat list" nat
  | Build_connector_meta scheduler_output
  | Request_finished string
  | New_tokens string tokens

fun hook_exec :: "hook \<Rightarrow> connector \<Rightarrow> req_meta list \<times> connector" where
  "hook_exec (Get_num_new_matched_tokens rid toks prompt n answer) c =
     ([], snd (get_num_new_matched_tokens rid toks prompt n answer c))"
| "hook_exec (Update_state_after_alloc rid bids n) c = ([], snd (update_state_after_alloc rid bids n c))"
| "hook_exec (Build_connector_meta so) c =
     (case build_connector_meta so c of (Inl x, c') \<Rightarrow> ([], c') | (Inr ms, c') \<Rightarrow> (ms, c'))"
| "hook_exec (Request_finished rid) c = ([], snd (request_finished rid c))"
| "hook_exec (New_tokens rid toks) c =
     (case al_get rid (cn_trackers c) of
        None \<Rightarrow> ([], c)
      | Some t \<Rightarrow> ([], set_tracker rid (t\<lparr>rt_token_ids := rt_token_ids t @ toks\<rparr>) c))"

fun hook_run :: "hook list \<Rightarrow> connector \<Rightarrow> req_meta list \<times> connector" where
  "hook_run [] c = ([], c)"
| "hook_run (h # hs) c =
     (case hook_exec h c of (ms, c1) \<Rightarrow> (case hook_run hs c1 of (ms', c2) \<Rightarrow> (ms @ ms', c2)))"

definition store_ops :: "string \<Rightarrow> req_meta list \<Rightarrow> load_store_op list" where
  "store_ops rid ms = map rm_op (filter (\<lambda>m. rm_request_id m = rid \<and> rm_req m = STORE) ms)"

lemma store_ops_append [simp]: "store_ops rid (xs @ ys) = store_ops rid xs @ store_ops rid ys"
  by (simp add: store_ops_def)

lemma store_ops_simps [simp]:
  "store_ops rid [] = []"
  "store_ops rid (m # ms) =
     (if rm_request_id m = rid \<and> rm_req m = STORE then rm_op m # store_ops rid ms else store_ops rid ms)"
  by (simp_all add: store_ops_def)

text \<open>The ops tile the tokens from \<open>a\<close> to \<open>b\<close> with whole chunks, each with its tokens and blocks.\<close>

fun tiles :: "nat \<Rightarrow> nat \<Rightarrow> nat \<Rightarrow> load_store_op list \<Rightarrow> nat \<Rightarrow> bool" where
  "tiles cs bs a [] b \<longleftrightarrow> a = b"
| "tiles cs bs a (p # ps) b \<longleftrightarrow>
     op_start p = a \<and> a < op_end p \<and> cs dvd op_end p - a \<and> op_skip_first_n_tokens p = 0
     \<and> length (op_token_ids p) = op_end p \<and> length (op_block_ids p) * bs = op_end p - a
     \<and> tiles cs bs (op_end p) ps b"

lemma tiles_append: "tiles cs bs a ps b \<Longrightarrow> tiles cs bs b qs d \<Longrightarrow> tiles cs bs a (ps @ qs) d"
  by (induction ps arbitrary: a) auto

lemma tiles_le: "tiles cs bs a ps b \<Longrightarrow> a \<le> b"
  by (induction ps arbitrary: a) force+

text \<open>One STORE op tiles, as the blocks the op names are there.\<close>

lemma store_op_tiles:
  assumes "0 < cs" and "0 < bs" and "bs dvd cs" and "whole_chunks cs t"
    and "generate_store_op cs bs t = (r, t')"
  shows "\<exists>op. r = Inr op \<and> whole_chunks cs t' \<and> t' = t\<lparr>num_stored_tokens := num_stored_tokens t'\<rparr>
    \<and> tiles cs bs (num_stored_tokens t) (case op of None \<Rightarrow> [] | Some p \<Rightarrow> [p]) (num_stored_tokens t')"
proof (cases "available bs t < num_stored_tokens t + cs")
  case True
  with store_op_none [OF assms(1) True] assms(4,5) show ?thesis by auto
next
  case False
  then have room: "num_stored_tokens t + cs \<le> available bs t" by simp
  let ?s = "num_stored_tokens t"
  have st: "cs dvd ?s" using assms(4) by (simp add: whole_chunks_def)
  from store_op_some [OF assms(1-3) st room] assms(5) obtain stop where
    r: "r = Inr (Some \<lparr>op_token_ids = take stop (rt_token_ids t),
            op_block_ids = slice (?s div bs) (stop div bs) (rt_block_ids t),
            op_start = ?s, op_end = stop, op_skip_first_n_tokens = 0\<rparr>)"
    and t': "t' = t\<lparr>num_stored_tokens := stop\<rparr>"
    and stop: "cs dvd stop" "?s < stop" "stop \<le> available bs t" by auto
  obtain m n where mn: "?s = bs * m" "stop = bs * n"
    using st stop(1) assms(3) by (meson dvd_trans dvdE)
  have "n \<le> length (rt_block_ids t)" using stop(3) mn(2) assms(2) by (simp add: available_def mult.commute)
  then have "length (slice (?s div bs) (stop div bs) (rt_block_ids t)) * bs = stop - ?s"
    using mn assms(2) by (simp add: algebra_simps diff_mult_distrib2)
  moreover have "cs dvd stop - ?s" using st stop(1) by (rule dvd_diff_nat [rotated])
  ultimately show ?thesis
    using r t' stop assms(4) by (auto simp: whole_chunks_def available_def)
qed

subsection \<open>What each hook keeps of a tracker\<close>

definition kept :: "request_tracker \<Rightarrow> request_tracker \<Rightarrow> bool" where
  "kept t t' \<longleftrightarrow> num_stored_tokens t' = num_stored_tokens t \<and> lmcache_hits t' = lmcache_hits t
     \<and> lookup_resolved t' = lookup_resolved t"

definition kept_in :: "string \<Rightarrow> (string \<times> request_tracker) list \<Rightarrow> (string \<times> request_tracker) list \<Rightarrow> bool" where
  "kept_in rid ts ts' \<longleftrightarrow> (\<forall>t. al_get rid ts = Some t \<longrightarrow> (\<exists>t'. al_get rid ts' = Some t' \<and> kept t t'))"

lemma kept_refl [simp]: "kept t t"
  by (simp add: kept_def)

lemma kept_in_refl [simp]: "kept_in rid ts ts"
  by (simp add: kept_in_def)

lemma kept_in_trans: "kept_in rid ts1 ts2 \<Longrightarrow> kept_in rid ts2 ts3 \<Longrightarrow> kept_in rid ts1 ts3"
  unfolding kept_in_def kept_def by (metis (no_types, lifting))

lemma kept_in_set: "al_get i ts = Some t \<Longrightarrow> kept t t' \<Longrightarrow> kept_in rid ts (al_set i t' ts)"
  by (simp add: kept_in_def)

lemma generate_retrieve_kept: "generate_retrieve_op cs bs t = (r, t') \<Longrightarrow> kept t t'"
  by (auto simp: generate_retrieve_op_def kept_def Let_def split: if_splits)

lemma retrieve_metas_kept:
  "retrieve_metas cs bs ts = (r, ts') \<Longrightarrow> kept_in rid ts ts' \<and> (\<forall>ms. r = Inr ms \<longrightarrow> store_ops rid ms = [])"
proof (induction ts arbitrary: r ts')
  case Nil
  then show ?case by auto
next
  case (Cons x ts)
  obtain i t where x: "x = (i, t)" by fastforce
  obtain g t' where g: "generate_retrieve_op cs bs t = (g, t')" by fastforce
  note k = generate_retrieve_kept [OF g]
  show ?case
  proof (cases g)
    case (Inl e)
    with Cons.prems x g k show ?thesis by (auto simp: kept_in_def al_get_def)
  next
    case (Inr op)
    obtain r2 ts2 where rest: "retrieve_metas cs bs ts = (r2, ts2)" by fastforce
    note IH = Cons.IH [OF rest]
    have ts': "ts' = (i, t') # ts2" using Cons.prems x g Inr rest by (auto split: sum.splits)
    have "kept_in rid (x # ts) ts'" using IH k by (auto simp: x ts' kept_in_def al_get_def)
    moreover have "store_ops rid ms = []" if "r = Inr ms" for ms
      using Cons.prems x g Inr rest IH that by (auto split: sum.splits option.splits)
    ultimately show ?thesis by blast
  qed
qed

lemma update_new_req_kept: "kept_in rid ts (update_new_req nr ts)"
proof (cases nr)
  case (fields i bids computed)
  show ?thesis
  proof (cases "al_get i ts")
    case None
    then show ?thesis by (simp add: update_new_req_def fields)
  next
    case (Some t)
    then show ?thesis by (simp add: update_new_req_def fields kept_in_set kept_def)
  qed
qed

lemma update_new_reqs_kept: "kept_in rid ts (fold update_new_req nrs ts)"
proof (induction nrs arbitrary: ts)
  case Nil
  then show ?case by simp
next
  case (Cons nr nrs)
  show ?case using kept_in_trans [OF update_new_req_kept Cons.IH] by simp
qed

lemma update_cached_kept: "update_cached so i ids ts = (r, ts') \<Longrightarrow> kept_in rid ts ts'"
proof (induction ids arbitrary: i ts)
  case Nil
  then show ?case by simp
next
  case (Cons j ids)
  show ?case
  proof (cases "al_get j ts")
    case None
    with Cons show ?thesis by simp
  next
    case (Some t)
    define t1 where "t1 = (case so_new_block_ids so ! i of
                       None \<Rightarrow> t
                     | Some bids \<Rightarrow>
                         if j \<in> so_resumed so then t\<lparr>rt_block_ids := bids\<rparr>
                         else t\<lparr>rt_block_ids := rt_block_ids t @ bids\<rparr>)"
    have k: "kept t t1" "kept t (t1\<lparr>num_computed_tokens := n\<rparr>)" for n
      by (auto simp: t1_def kept_def split: option.split)
    consider "length (so_new_block_ids so) \<le> i" | "i < length (so_new_block_ids so)" "length (so_cached_computed so) \<le> i"
      | "i < length (so_new_block_ids so)" "i < length (so_cached_computed so)" by linarith
    then show ?thesis
    proof cases
      case 1
      with Cons.prems Some show ?thesis by simp
    next
      case 2
      with Cons.prems Some have "ts' = al_set j t1 ts" by (simp add: t1_def Let_def)
      with kept_in_set [OF Some k(1)] show ?thesis by simp
    next
      case 3
      let ?ts = "al_set j (t1\<lparr>num_computed_tokens := so_cached_computed so ! i\<rparr>) ts"
      from 3 Cons.prems Some have "update_cached so (Suc i) ids ?ts = (r, ts')" by (simp add: t1_def Let_def)
      from kept_in_trans [OF kept_in_set [OF Some k(2)] Cons.IH [OF this]] show ?thesis .
    qed
  qed
qed

text \<open>
  From one state of the trackers to the next, the STORE ops of the request tile the tokens that
  were newly marked as stored.
\<close>

definition advances :: "nat \<Rightarrow> nat \<Rightarrow> string \<Rightarrow> (string \<times> request_tracker) list \<Rightarrow> load_store_op list
    \<Rightarrow> (string \<times> request_tracker) list \<Rightarrow> bool" where
  "advances cs bs rid ts ops ts' \<longleftrightarrow>
     (\<forall>t. al_get rid ts = Some t \<longrightarrow> lookup_resolved t \<longrightarrow> whole_chunks cs t \<longrightarrow>
       (\<exists>t'. al_get rid ts' = Some t' \<and> lookup_resolved t' \<and> whole_chunks cs t'
          \<and> lmcache_hits t' = lmcache_hits t
          \<and> tiles cs bs (num_stored_tokens t) ops (num_stored_tokens t')))"

lemma advances_trans:
  assumes "advances cs bs rid ts1 xs ts2" and "advances cs bs rid ts2 ys ts3"
  shows "advances cs bs rid ts1 (xs @ ys) ts3"
  unfolding advances_def
proof (intro allI impI)
  fix t assume t: "al_get rid ts1 = Some t" "lookup_resolved t" "whole_chunks cs t"
  with assms(1) obtain t2 where t2: "al_get rid ts2 = Some t2" "lookup_resolved t2" "whole_chunks cs t2"
    "lmcache_hits t2 = lmcache_hits t" "tiles cs bs (num_stored_tokens t) xs (num_stored_tokens t2)"
    unfolding advances_def by blast
  with assms(2) obtain t3 where t3: "al_get rid ts3 = Some t3" "lookup_resolved t3" "whole_chunks cs t3"
    "lmcache_hits t3 = lmcache_hits t2" "tiles cs bs (num_stored_tokens t2) ys (num_stored_tokens t3)"
    unfolding advances_def by blast
  from t3 t2 tiles_append [OF t2(5) t3(5)]
  show "\<exists>t'. al_get rid ts3 = Some t' \<and> lookup_resolved t' \<and> whole_chunks cs t'
      \<and> lmcache_hits t' = lmcache_hits t
      \<and> tiles cs bs (num_stored_tokens t) (xs @ ys) (num_stored_tokens t')" by auto
qed

lemma advances_kept: "kept_in rid ts ts' \<Longrightarrow> advances cs bs rid ts [] ts'"
  unfolding advances_def kept_in_def kept_def whole_chunks_def by fastforce

lemma generate_store_op_Inr: "0 < cs \<Longrightarrow> 0 < bs \<Longrightarrow> \<exists>op t'. generate_store_op cs bs t = (Inr op, t')"
  by (auto simp: generate_store_op_def Let_def)

lemma store_metas_advance:
  assumes "0 < cs" and "0 < bs" and "bs dvd cs"
  shows "store_metas cs bs sch ts = (r, ts') \<Longrightarrow> \<exists>ms. r = Inr ms \<and> advances cs bs rid ts (store_ops rid ms) ts'"
proof (induction sch arbitrary: ts r ts')
  case Nil
  then show ?case by (auto simp: advances_kept)
next
  case (Cons x sch)
  obtain i n where x: "x = (i, n)" by fastforce
  show ?case
  proof (cases "al_get i ts")
    case None
    with Cons x show ?thesis by simp
  next
    case (Some t0)
    let ?t = "t0\<lparr>num_computed_tokens := num_computed_tokens t0 + n\<rparr>"
    from generate_store_op_Inr [OF assms(1,2)] obtain op t1 where
      g: "generate_store_op cs bs ?t = (Inr op, t1)" by blast
    obtain r2 where rest: "store_metas cs bs sch (al_set i t1 ts) = (r2, ts')"
      using Cons.prems x Some g by (auto split: prod.splits sum.splits)
    from Cons.IH [OF this] obtain ms2 where
      ms2: "r2 = Inr ms2" "advances cs bs rid (al_set i t1 ts) (store_ops rid ms2) ts'" by blast
    define ms1 where "ms1 = (case op of None \<Rightarrow> [] | Some p \<Rightarrow> [\<lparr>rm_request_id = i, rm_req = STORE, rm_op = p\<rparr>])"
    have r: "r = Inr (ms1 @ ms2)" using Cons.prems x Some g rest ms2(1) by (simp add: ms1_def)
    have "advances cs bs rid ts (store_ops rid ms1) (al_set i t1 ts)"
    proof (cases "i = rid")
      case False
      then have "store_ops rid ms1 = []" by (simp add: ms1_def split: option.split)
      with False show ?thesis by (simp add: advances_kept kept_in_def)
    next
      case True
      have ops: "store_ops rid ms1 = (case op of None \<Rightarrow> [] | Some p \<Rightarrow> [p])"
        using True by (simp add: ms1_def split: option.split)
      show ?thesis
        unfolding advances_def ops
      proof (intro allI impI)
        fix t assume t: "al_get rid ts = Some t" "lookup_resolved t" "whole_chunks cs t"
        then have tt: "t = t0" using Some True by simp
        then have "whole_chunks cs ?t" using t(3) by (simp add: whole_chunks_def)
        from store_op_tiles [OF assms this g] have
          w: "whole_chunks cs t1" "t1 = ?t\<lparr>num_stored_tokens := num_stored_tokens t1\<rparr>"
          "tiles cs bs (num_stored_tokens ?t) (case op of None \<Rightarrow> [] | Some p \<Rightarrow> [p]) (num_stored_tokens t1)"
          by auto
        have "lookup_resolved t1 = lookup_resolved t" "lmcache_hits t1 = lmcache_hits t"
          by (subst w(2), simp add: tt)+
        with w t tt True show "\<exists>t'. al_get rid (al_set i t1 ts) = Some t' \<and> lookup_resolved t' \<and> whole_chunks cs t'
            \<and> lmcache_hits t' = lmcache_hits t
            \<and> tiles cs bs (num_stored_tokens t) (case op of None \<Rightarrow> [] | Some p \<Rightarrow> [p]) (num_stored_tokens t')"
          by simp
      qed
    qed
    from advances_trans [OF this ms2(2)] r show ?thesis by simp
  qed
qed

definition same_config :: "connector \<Rightarrow> connector \<Rightarrow> bool" where
  "same_config c c' \<longleftrightarrow> cn_chunk_size c' = cn_chunk_size c \<and> cn_block_size c' = cn_block_size c"

lemma build_meta_advances:
  assumes "0 < cn_chunk_size c" and "0 < cn_block_size c" and "cn_block_size c dvd cn_chunk_size c"
    and "build_connector_meta so c = (r, c')"
  shows "advances (cn_chunk_size c) (cn_block_size c) rid (cn_trackers c)
      (store_ops rid (case r of Inl x \<Rightarrow> [] | Inr ms \<Rightarrow> ms)) (cn_trackers c')
    \<and> same_config c c'"
proof -
  let ?cs = "cn_chunk_size c" and ?bs = "cn_block_size c"
  obtain r1 ts1 where m1: "retrieve_metas ?cs ?bs (cn_trackers c) = (r1, ts1)" by fastforce
  note k1 = retrieve_metas_kept [OF m1, of rid]
  obtain r2 ts2 where m2: "update_cached so 0 (so_cached_ids so) (fold update_new_req (so_new_reqs so) ts1) = (r2, ts2)"
    by fastforce
  have k2: "kept_in rid (cn_trackers c) ts2"
    using kept_in_trans [OF conjunct1 [OF k1] kept_in_trans [OF update_new_reqs_kept update_cached_kept [OF m2]]] .
  obtain r3 ts3 where m3: "store_metas ?cs ?bs (so_scheduled_tokens so) ts2 = (r3, ts3)" by fastforce
  from store_metas_advance [OF assms(1-3) m3, of rid] obtain ms where
    ms: "r3 = Inr ms" "advances ?cs ?bs rid ts2 (store_ops rid ms) ts3" by blast
  show ?thesis
  proof (cases r1)
    case (Inl x)
    with assms(4) m1 have "r = Inl x" "c' = c\<lparr>cn_trackers := ts1\<rparr>" by (simp_all add: build_connector_meta_def Let_def)
    with k1 show ?thesis by (simp add: advances_kept same_config_def)
  next
    case (Inr loads)
    show ?thesis
    proof (cases r2)
      case (Inl x)
      with assms(4) m1 m2 Inr have "r = Inl x" "c' = c\<lparr>cn_trackers := ts2\<rparr>"
        by (simp_all add: build_connector_meta_def Let_def)
      with k2 show ?thesis by (simp add: advances_kept same_config_def)
    next
      case (Inr u)
      with assms(4) m1 m2 m3 ms(1) \<open>r1 = Inr loads\<close>
      have "r = Inr (loads @ ms)" "c' = c\<lparr>cn_trackers := ts3\<rparr>"
        by (simp_all add: build_connector_meta_def Let_def)
      moreover have "store_ops rid loads = []" using k1 \<open>r1 = Inr loads\<close> by simp
      moreover have "advances ?cs ?bs rid (cn_trackers c) ([] @ store_ops rid ms) ts3"
        by (rule advances_trans [OF advances_kept [OF k2] ms(2)])
      ultimately show ?thesis by (simp add: same_config_def)
    qed
  qed
qed

lemma submit_msg_sel [simp]:
  "cn_trackers (snd (submit_msg rq pl c)) = cn_trackers c" "cn_chunk_size (snd (submit_msg rq pl c)) = cn_chunk_size c"
  "cn_block_size (snd (submit_msg rq pl c)) = cn_block_size c" "cn_world_size (snd (submit_msg rq pl c)) = cn_world_size c"
  "cn_model (snd (submit_msg rq pl c)) = cn_model c"
  by (simp_all add: submit_msg_def split: prod.split)

lemma set_tracker_sel [simp]:
  "cn_trackers (set_tracker rid t c) = al_set rid t (cn_trackers c)"
  "cn_chunk_size (set_tracker rid t c) = cn_chunk_size c" "cn_block_size (set_tracker rid t c) = cn_block_size c"
  "cn_world_size (set_tracker rid t c) = cn_world_size c" "cn_client (set_tracker rid t c) = cn_client c"
  "cn_model (set_tracker rid t c) = cn_model c"
  by (simp_all add: set_tracker_def)

lemma query_hits_frame:
  assumes "query_hits i t n a c = (r, c')"
  shows "same_config c c'" and "i \<noteq> rid \<Longrightarrow> al_get rid (cn_trackers c') = al_get rid (cn_trackers c)"
  using assms by (auto simp: query_hits_def same_config_def Let_def split: sum.splits option.splits if_splits)

lemma match_frame:
  assumes "get_num_new_matched_tokens i toks prompt n a c = (r, c')"
  shows "same_config c c'"
    and "i \<noteq> rid \<or> (\<exists>t. al_get rid (cn_trackers c) = Some t \<and> lookup_resolved t) \<Longrightarrow>
      al_get rid (cn_trackers c') = al_get rid (cn_trackers c)"
proof -
  show "same_config c c'"
    using assms unfolding get_num_new_matched_tokens_def Let_def
    by (auto split: option.splits if_splits prod.splits dest!: query_hits_frame(1) simp: same_config_def)
  show "al_get rid (cn_trackers c') = al_get rid (cn_trackers c)"
    if "i \<noteq> rid \<or> (\<exists>t. al_get rid (cn_trackers c) = Some t \<and> lookup_resolved t)"
  proof (cases "i = rid")
    case True
    with that assms show ?thesis by (auto simp: get_num_new_matched_tokens_def)
  next
    case False
    with assms show ?thesis
      unfolding get_num_new_matched_tokens_def Let_def
      by (auto split: option.splits if_splits prod.splits dest!: query_hits_frame(2) [where rid = rid])
  qed
qed

lemma alloc_frame:
  assumes "update_state_after_alloc i bids n c = (r, c')"
  shows "same_config c c' \<and> kept_in rid (cn_trackers c) (cn_trackers c')"
proof (cases "al_get i (cn_trackers c)")
  case None
  with assms show ?thesis by (simp add: update_state_after_alloc_def same_config_def)
next
  case (Some t)
  define t1 where "t1 = t\<lparr>rt_block_ids := rt_block_ids t @ drop (length (rt_block_ids t)) bids\<rparr>"
  define t2 where "t2 = (if n > 0 then t1\<lparr>load_pending := True\<rparr> else t1)"
  have "kept t t2" "kept t (t2\<lparr>alloc_seen := True\<rparr>)" by (simp_all add: t2_def t1_def kept_def)
  moreover have "cn_trackers c' = al_set i t2 (cn_trackers c) \<or> cn_trackers c' = al_set i (t2\<lparr>alloc_seen := True\<rparr>) (cn_trackers c)"
    and "same_config c c'"
    using assms Some unfolding update_state_after_alloc_def t2_def t1_def Let_def
    by (auto simp: same_config_def split: if_splits)
  ultimately show ?thesis using kept_in_set [OF Some] by metis
qed

lemma hook_advances:
  assumes "0 < cn_chunk_size c" and "0 < cn_block_size c" and "cn_block_size c dvd cn_chunk_size c"
    and "hook_exec h c = (ms, c')" and "h \<noteq> Request_finished rid"
  shows "advances (cn_chunk_size c) (cn_block_size c) rid (cn_trackers c) (store_ops rid ms) (cn_trackers c')
    \<and> same_config c c'"
proof (cases h)
  case (Get_num_new_matched_tokens i toks prompt n a)
  obtain r where g: "get_num_new_matched_tokens i toks prompt n a c = (r, c')" "ms = []"
    using assms(4) Get_num_new_matched_tokens by (cases "get_num_new_matched_tokens i toks prompt n a c") auto
  have "advances (cn_chunk_size c) (cn_block_size c) rid (cn_trackers c) [] (cn_trackers c')"
    unfolding advances_def using match_frame(2) [OF g(1), of rid] by auto
  with match_frame(1) [OF g(1)] g(2) show ?thesis by simp
next
  case (Update_state_after_alloc i bids n)
  obtain r where g: "update_state_after_alloc i bids n c = (r, c')" "ms = []"
    using assms(4) Update_state_after_alloc by (cases "update_state_after_alloc i bids n c") auto
  with alloc_frame [OF g(1), of rid] show ?thesis by (simp add: advances_kept)
next
  case (Build_connector_meta so)
  obtain r where g: "build_connector_meta so c = (r, c')" "ms = (case r of Inl x \<Rightarrow> [] | Inr ms \<Rightarrow> ms)"
    using assms(4) Build_connector_meta by (auto split: prod.splits sum.splits)
  from build_meta_advances [OF assms(1-3) g(1), of rid] g(2) show ?thesis by simp
next
  case (Request_finished i)
  with assms(4,5) show ?thesis
    by (auto simp: request_finished_def same_config_def intro!: advances_kept) (simp add: kept_in_def)
next
  case (New_tokens i toks)
  show ?thesis
  proof (cases "al_get i (cn_trackers c)")
    case None
    with assms(4) New_tokens show ?thesis by (simp add: advances_kept same_config_def)
  next
    case (Some t)
    with assms(4) New_tokens have "ms = []" "c' = set_tracker i (t\<lparr>rt_token_ids := rt_token_ids t @ toks\<rparr>) c" by simp_all
    with kept_in_set [OF Some, of "t\<lparr>rt_token_ids := rt_token_ids t @ toks\<rparr>" rid] show ?thesis
      by (simp add: advances_kept same_config_def kept_def)
  qed
qed

lemma hook_run_advances:
  assumes "0 < cn_chunk_size c" and "0 < cn_block_size c" and "cn_block_size c dvd cn_chunk_size c"
    and "hook_run hs c = (ms, c')" and "Request_finished rid \<notin> set hs"
  shows "advances (cn_chunk_size c) (cn_block_size c) rid (cn_trackers c) (store_ops rid ms) (cn_trackers c')"
  using assms
proof (induction hs arbitrary: c ms)
  case Nil
  then show ?case by (simp add: advances_kept)
next
  case (Cons h hs)
  obtain m1 c1 where h: "hook_exec h c = (m1, c1)" by fastforce
  obtain m2 where rest: "hook_run hs c1 = (m2, c')" "ms = m1 @ m2" using Cons.prems(4) h by (auto split: prod.splits)
  have "h \<noteq> Request_finished rid" using Cons.prems(5) by auto
  note one = hook_advances [OF Cons.prems(1-3) h this]
  then have cfg: "cn_chunk_size c1 = cn_chunk_size c" "cn_block_size c1 = cn_block_size c" by (simp_all add: same_config_def)
  have "advances (cn_chunk_size c) (cn_block_size c) rid (cn_trackers c1) (store_ops rid m2) (cn_trackers c')"
    using Cons.IH [of c1 m2] Cons.prems rest(1) cfg by simp
  from advances_trans [OF conjunct1 [OF one] this] rest(2) show ?case by simp
qed

subsection \<open>Messages sent\<close>

lemma outbox_submit [simp]:
  "outbox (cn_client (snd (submit_msg rq pl c))) =
     outbox (cn_client c) @ [Call (uid_counter (cn_client c)) rq pl]"
  "uid_counter (cn_client (snd (submit_msg rq pl c))) = Suc (uid_counter (cn_client c))"
  by (simp_all add: submit_msg_def mq_submit_def Let_def)

definition is_lookup :: "string \<Rightarrow> payload request_blob \<Rightarrow> bool" where
  "is_lookup rid m = (case m of Call u rq (P_lookup pl) \<Rightarrow> rq = LOOKUP \<and> lp_request_id pl = rid | _ \<Rightarrow> False)"

text \<open>The LOOKUPs sent for a request, and one more if its first hook is still to come.\<close>

definition lookups :: "string \<Rightarrow> connector \<Rightarrow> nat" where
  "lookups rid c = length (filter (is_lookup rid) (outbox (cn_client c)))"

definition lookups_due :: "string \<Rightarrow> connector \<Rightarrow> nat" where
  "lookups_due rid c = lookups rid c + (if al_get rid (cn_trackers c) = None then 1 else 0)"

lemma is_lookup_simps [simp]:
  "is_lookup rid (Call u LOOKUP (P_lookup pl)) \<longleftrightarrow> lp_request_id pl = rid"
  "\<not> is_lookup rid (Call u QUERY_PREFETCH_STATUS p)" "\<not> is_lookup rid (Call u FREE_LOOKUP_LOCKS p)"
  "\<not> is_lookup rid (Call u END_SESSION p)"
  by (cases p; simp add: is_lookup_def)+

lemma query_hits_lookups:
  assumes "query_hits i t n a c = (r, c')" and "al_get i (cn_trackers c) \<noteq> None"
  shows "lookups_due rid c' = lookups_due rid c"
  using assms by (auto simp: query_hits_def lookups_due_def lookups_def Let_def split: sum.splits option.splits if_splits)

lemma match_lookups:
  assumes "get_num_new_matched_tokens i toks prompt n a c = (r, c')"
  shows "lookups_due rid c' \<le> lookups_due rid c"
proof (cases "al_get i (cn_trackers c)")
  case (Some t)
  with assms query_hits_lookups [of i t n a c _ c' rid] show ?thesis
    by (auto simp: get_num_new_matched_tokens_def split: if_splits prod.splits)
next
  case None
  define c1 where "c1 = set_tracker i (RequestTracker toks) c"
  define c2 where "c2 = snd (submit_msg LOOKUP (P_lookup \<lparr>lp_request_id = i,
      lp_token_ids = take (length prompt div cn_chunk_size c1 * cn_chunk_size c1) prompt,
      lp_model = cn_model c1, lp_world_size = cn_world_size c1\<rparr>) c1)"
  have due: "lookups_due rid c1 \<le> lookups_due rid c" "lookups_due rid c2 \<le> lookups_due rid c"
    using None by (auto simp: c1_def c2_def lookups_due_def lookups_def)
  show ?thesis
  proof (cases "cn_chunk_size c1 = 0")
    case True
    with assms None due show ?thesis by (simp add: get_num_new_matched_tokens_def c1_def Let_def)
  next
    case False
    obtain q where q: "query_hits i (RequestTracker toks) n a c2 = (q, c')"
      using assms None False unfolding get_num_new_matched_tokens_def c2_def c1_def Let_def
      by (auto split: prod.splits)
    have "al_get i (cn_trackers c2) \<noteq> None" by (simp add: c2_def c1_def)
    from query_hits_lookups [OF q this] due show ?thesis by simp
  qed
qed

lemma alloc_lookups:
  assumes "update_state_after_alloc i bids n c = (r, c')"
  shows "lookups_due rid c' = lookups_due rid c"
  using assms unfolding update_state_after_alloc_def Let_def
  by (auto simp: lookups_due_def lookups_def split: option.splits if_splits)

lemma store_metas_present:
  "store_metas cs bs sch ts = (r, ts') \<Longrightarrow> al_get rid ts \<noteq> None \<Longrightarrow> al_get rid ts' \<noteq> None"
proof (induction sch arbitrary: ts r)
  case Nil
  then show ?case by simp
next
  case (Cons x sch)
  obtain i n where x: "x = (i, n)" by fastforce
  show ?case
  proof (cases "al_get i ts")
    case None
    with Cons x show ?thesis by simp
  next
    case (Some t)
    obtain g t1 where g: "generate_store_op cs bs (t\<lparr>num_computed_tokens := num_computed_tokens t + n\<rparr>) = (g, t1)"
      by fastforce
    have p: "al_get rid (al_set i t1 ts) \<noteq> None" using Cons.prems(2) by simp
    show ?thesis
    proof (cases g)
      case (Inl e)
      with Cons.prems x Some g p show ?thesis by simp
    next
      case (Inr op)
      with Cons.prems(1) x Some g obtain r2 where "store_metas cs bs sch (al_set i t1 ts) = (r2, ts')"
        by (auto split: prod.splits sum.splits)
      from Cons.IH [OF this p] show ?thesis .
    qed
  qed
qed

lemma kept_in_present: "kept_in rid ts ts' \<Longrightarrow> al_get rid ts \<noteq> None \<Longrightarrow> al_get rid ts' \<noteq> None"
  by (auto simp: kept_in_def)

lemma build_meta_lookups:
  assumes "build_connector_meta so c = (r, c')"
  shows "lookups_due rid c' \<le> lookups_due rid c"
proof -
  let ?cs = "cn_chunk_size c" and ?bs = "cn_block_size c"
  obtain r1 ts1 where m1: "retrieve_metas ?cs ?bs (cn_trackers c) = (r1, ts1)" by fastforce
  obtain r2 ts2 where m2: "update_cached so 0 (so_cached_ids so) (fold update_new_req (so_new_reqs so) ts1) = (r2, ts2)"
    by fastforce
  obtain r3 ts3 where m3: "store_metas ?cs ?bs (so_scheduled_tokens so) ts2 = (r3, ts3)" by fastforce
  have k: "kept_in rid (cn_trackers c) ts1" using retrieve_metas_kept [OF m1, of rid] by simp
  have k2: "kept_in rid (cn_trackers c) ts2"
    using kept_in_trans [OF k kept_in_trans [OF update_new_reqs_kept update_cached_kept [OF m2]]] .
  have "cn_client c' = cn_client c \<and> cn_trackers c' \<in> {ts1, ts2, ts3}"
    using assms m1 m2 m3 by (auto simp: build_connector_meta_def Let_def split: prod.splits sum.splits)
  then have "cn_client c' = cn_client c" and "al_get rid (cn_trackers c) \<noteq> None \<Longrightarrow> al_get rid (cn_trackers c') \<noteq> None"
    using kept_in_present [OF k] kept_in_present [OF k2] store_metas_present [OF m3, of rid] by blast+
  then show ?thesis by (cases "al_get rid (cn_trackers c) = None") (simp_all add: lookups_due_def lookups_def)
qed

lemma hook_lookups:
  assumes "h \<noteq> Request_finished rid"
  shows "lookups_due rid (snd (hook_exec h c)) \<le> lookups_due rid c"
proof (cases h)
  case (Get_num_new_matched_tokens i toks prompt n a)
  then show ?thesis using match_lookups [of i toks prompt n a c] by (metis hook_exec.simps(1) prod.collapse snd_conv)
next
  case (Update_state_after_alloc i bids n)
  then show ?thesis using alloc_lookups [of i bids n c] by (metis hook_exec.simps(2) prod.collapse snd_conv order_refl)
next
  case (Build_connector_meta so)
  obtain r c' where b: "build_connector_meta so c = (r, c')" by fastforce
  from build_meta_lookups [OF b, of rid] b Build_connector_meta show ?thesis by (simp split: sum.split)
next
  case (Request_finished i)
  with assms show ?thesis by (auto simp: request_finished_def lookups_due_def lookups_def)
next
  case (New_tokens i toks)
  then show ?thesis by (auto simp: lookups_due_def lookups_def split: option.split)
qed

lemma hook_run_lookups:
  "Request_finished rid \<notin> set hs \<Longrightarrow> lookups_due rid (snd (hook_run hs c)) \<le> lookups_due rid c"
proof (induction hs arbitrary: c)
  case Nil
  then show ?case by simp
next
  case (Cons h hs)
  have "lookups_due rid (snd (hook_run hs (snd (hook_exec h c)))) \<le> lookups_due rid c"
    using Cons.IH [of "snd (hook_exec h c)"] hook_lookups [of h rid c] Cons.prems by (auto intro: le_trans)
  moreover have "snd (hook_run (h # hs) c) = snd (hook_run hs (snd (hook_exec h c)))"
    by (cases "hook_exec h c"; cases "hook_run hs (snd (hook_exec h c))") simp
  ultimately show ?case by simp
qed

subsection \<open>Properties\<close>

text \<open>
  C8. Over any run of the scheduler's hooks, the STORE ops generated for a request tile its tokens:
  starting where the cache hits end, each op begins where the previous one stopped, covers whole
  chunks, and carries exactly the tokens up to its end and the blocks of its range; nothing is
  stored twice and no chunk is skipped, whatever the interleaving with other requests, the
  preemptions and the growth of the token list.
\<close>

theorem store_ops_tile_the_request:
  assumes "0 < cn_chunk_size c" and "0 < cn_block_size c" and "cn_block_size c dvd cn_chunk_size c"
    and "al_get rid (cn_trackers c) = Some t" and "lookup_resolved t" and "whole_chunks (cn_chunk_size c) t"
    and "hook_run hs c = (ms, c')" and "Request_finished rid \<notin> set hs"
  shows "\<exists>t'. al_get rid (cn_trackers c') = Some t' \<and> whole_chunks (cn_chunk_size c) t'
    \<and> tiles (cn_chunk_size c) (cn_block_size c) (num_stored_tokens t) (store_ops rid ms) (num_stored_tokens t')"
  using hook_run_advances [OF assms(1-3,7,8)] assms(4-6) unfolding advances_def by blast

text \<open>
  A request is looked up at most once: over any run of hooks that does not finish the request,
  at most one LOOKUP is sent for it, and none when its tracker exists.
\<close>

theorem lookup_sent_once:
  assumes "Request_finished rid \<notin> set hs"
  shows "lookups rid (snd (hook_run hs c)) \<le>
    lookups rid c + (if al_get rid (cn_trackers c) = None then 1 else 0)"
  using hook_run_lookups [OF assms, of c] by (simp add: lookups_due_def)

text \<open>
  C33. The hit chunks are split in two: at the first allocation the connector gives back the holds of
  the leading \<open>f\<close> chunks that vLLM computes itself, and the RETRIEVE op of the next scheduler
  step loads the chunks from \<open>f\<close> to the last hit, skipping the tokens of the first of them that
  are already there; when nothing is to be loaded, all hit chunks are given back and no op is
  generated.
\<close>

theorem hits_are_freed_or_retrieved:
  assumes "0 < cn_chunk_size c" and "0 < cn_block_size c" and "al_get rid (cn_trackers c) = Some t"
    and "\<not> alloc_seen t" and "\<not> load_pending t" and "whole_chunks (cn_chunk_size c) t"
    and "0 < n \<Longrightarrow> vllm_hits t < lmcache_hits t"
    and "update_state_after_alloc rid bids n c = (r, c')"
  shows "\<exists>t' f. r = Inr () \<and> al_get rid (cn_trackers c') = Some t'
    \<and> outbox (cn_client c') = outbox (cn_client c) @ (if f = 0 then [] else
        [Call (uid_counter (cn_client c)) FREE_LOOKUP_LOCKS (P_free_locks
          \<lparr>fp_request_id = rid, fp_num_chunks = f, fp_world_size = cn_world_size c\<rparr>)])
    \<and> (if n = 0
       then fst (generate_retrieve_op (cn_chunk_size c) (cn_block_size c) t') = Inr None
         \<and> f * cn_chunk_size c = lmcache_hits t
       else \<exists>p. fst (generate_retrieve_op (cn_chunk_size c) (cn_block_size c) t') = Inr (Some p)
         \<and> op_start p = f * cn_chunk_size c \<and> op_end p = lmcache_hits t \<and> op_start p < op_end p
         \<and> op_start p + op_skip_first_n_tokens p = vllm_hits t \<and> op_skip_first_n_tokens p < cn_chunk_size c)"
proof -
  let ?cs = "cn_chunk_size c" and ?bs = "cn_block_size c"
  define t0 where "t0 = t\<lparr>rt_block_ids := rt_block_ids t @ drop (length (rt_block_ids t)) bids\<rparr>"
  define t1 where "t1 = (if 0 < n then t0\<lparr>load_pending := True\<rparr> else t0)\<lparr>alloc_seen := True\<rparr>"
  have t1: "load_pending t1 \<longleftrightarrow> 0 < n" "vllm_hits t1 = vllm_hits t" "lmcache_hits t1 = lmcache_hits t"
    using assms(5) by (simp_all add: t1_def t0_def)
  define f where "f = (if 0 < n then min (vllm_hits t div ?cs) (lmcache_hits t div ?cs) else lmcache_hits t div ?cs)"
  have run: "r = Inr ()" "c' = (let c1 = set_tracker rid t1 c in if f \<noteq> 0
      then snd (submit_msg FREE_LOOKUP_LOCKS (P_free_locks
        \<lparr>fp_request_id = rid, fp_num_chunks = f, fp_world_size = cn_world_size c\<rparr>) c1) else c1)"
    using assms(1,3-5,8) unfolding update_state_after_alloc_def t1_def t0_def f_def Let_def by (auto split: if_splits)
  have lm: "lmcache_hits t div ?cs * ?cs = lmcache_hits t" using assms(6) by (simp add: whole_chunks_def)
  have tr: "al_get rid (cn_trackers c') = Some t1" by (simp add: run Let_def)
  have out: "outbox (cn_client c') = outbox (cn_client c) @ (if f = 0 then [] else
      [Call (uid_counter (cn_client c)) FREE_LOOKUP_LOCKS (P_free_locks
        \<lparr>fp_request_id = rid, fp_num_chunks = f, fp_world_size = cn_world_size c\<rparr>)])"
    by (simp add: run Let_def)
  show ?thesis
  proof (cases "n = 0")
    case True
    then have "fst (generate_retrieve_op ?cs ?bs t1) = Inr None" "f * ?cs = lmcache_hits t"
      using lm by (simp_all add: generate_retrieve_op_def t1 f_def)
    with True tr out run(1) show ?thesis by (intro exI [of _ t1] exI [of _ f]) simp
  next
    case False
    then have lt: "vllm_hits t < lmcache_hits t" using assms(7) by simp
    then have f: "f = vllm_hits t div ?cs" using False div_le_mono [of "vllm_hits t" "lmcache_hits t" ?cs] by (simp add: f_def)
    have le: "f * ?cs \<le> vllm_hits t" "vllm_hits t - f * ?cs < ?cs" using assms(1) by (simp_all add: f minus_div_mult_eq_mod)
    have "\<exists>p. fst (generate_retrieve_op ?cs ?bs t1) = Inr (Some p) \<and> op_start p = f * ?cs
        \<and> op_end p = lmcache_hits t \<and> op_skip_first_n_tokens p = vllm_hits t - f * ?cs"
      using assms(1,2) False by (simp add: generate_retrieve_op_def t1 f Let_def)
    with False le lt tr out run(1) show ?thesis
      by (intro exI [of _ t1] exI [of _ f]) (auto intro: le_less_trans)
  qed
qed

text \<open>
  What vLLM is told about hits: for a request seen for the first time a LOOKUP of the whole chunks of the
  prompt is sent; while unresolved, one QUERY per call; a failed QUERY means no hits, no
  answer yet means ask again, and an answer of \<open>h\<close> tokens means that the tokens beyond the
  computed ones can be loaded, and fixes the waterlines of the tracker.  A resolved request
  sends nothing and reports nothing more.
\<close>

theorem match_reports_hits:
  assumes "0 < cn_chunk_size c" and "get_num_new_matched_tokens rid toks prompt n answer c = (r, c')"
    and "t = (case al_get rid (cn_trackers c) of None \<Rightarrow> RequestTracker toks | Some t \<Rightarrow> t)"
  shows "r = Inr (if lookup_resolved t then (Some 0, False) else
      case answer of Inl x \<Rightarrow> (Some 0, False) | Inr None \<Rightarrow> (None, True)
      | Inr (Some h) \<Rightarrow> if n < h then (Some (h - n), True) else (Some 0, False))
    \<and> al_get rid (cn_trackers c') = Some (if lookup_resolved t then t else
      case answer of Inl x \<Rightarrow> t\<lparr>lookup_resolved := True\<rparr> | Inr None \<Rightarrow> t
      | Inr (Some h) \<Rightarrow> t\<lparr>lookup_resolved := True, lmcache_hits := h, vllm_hits := n, num_stored_tokens := h\<rparr>)
    \<and> (\<exists>u. outbox (cn_client c') = outbox (cn_client c)
        @ (if al_get rid (cn_trackers c) = None
           then [Call (uid_counter (cn_client c)) LOOKUP (P_lookup \<lparr>lp_request_id = rid,
                   lp_token_ids = take (length prompt div cn_chunk_size c * cn_chunk_size c) prompt,
                   lp_model = cn_model c, lp_world_size = cn_world_size c\<rparr>)] else [])
        @ (if lookup_resolved t then [] else
             [Call u QUERY_PREFETCH_STATUS (P_query \<lparr>qp_request_id = rid, qp_world_size = cn_world_size c\<rparr>)]))"
proof (cases "al_get rid (cn_trackers c)")
  case None
  then have t: "t = RequestTracker toks" "\<not> lookup_resolved t" using assms(3) by (simp_all add: RequestTracker_def)
  show ?thesis
    using assms(1,2) None t(2) unfolding t(1) [symmetric]
    by (auto simp: get_num_new_matched_tokens_def query_hits_def Let_def t(1) split: sum.splits option.splits if_splits)
next
  case (Some t0)
  then have t: "t = t0" using assms(3) by simp
  show ?thesis
    using assms(2) Some
    by (auto simp: get_num_new_matched_tokens_def query_hits_def Let_def t split: sum.splits option.splits if_splits)
qed

lemma live_futures_iff:
  "rid \<in> fst ` set (live_futures c d) \<longleftrightarrow> (\<exists>fs f. (rid, fs) \<in> set d \<and> f \<in> set fs \<and> \<not> df_done c f)"
  by (force simp: live_futures_def filter_empty_conv)

lemma df_done_cong:
  "cn_client c' = cn_client c \<Longrightarrow> cn_events c' = cn_events c \<Longrightarrow> df_done c' = df_done c"
  by (auto simp: df_done_def fun_eq_iff split: option.split)

text \<open>
  Completion is reported exactly: a finished request is reported as sent when every one of its
  stores is answered, and stays pending until then; a load is reported when its reply arrived
  and its thread is done; asking again at once reports nothing twice.
\<close>

theorem get_finished_reports_once:
  assumes "get_finished ids c = ((sent, recv), c')"
  shows "sent = {rid \<in> cn_pending_sends c \<union> ids.
      \<not> (\<exists>fs f. (rid, fs) \<in> set (cn_store_futures c) \<and> f \<in> set fs \<and> \<not> df_done c f)}
    \<and> cn_pending_sends c' = cn_pending_sends c \<union> ids - sent
    \<and> recv = {rid. \<exists>f. (rid, f) \<in> set (cn_load_futures c) \<and> df_done c f}
    \<and> fst (get_finished {} c') = ({}, {})"
proof -
  have parts: "sent = {rid \<in> cn_pending_sends c \<union> ids. rid \<notin> fst ` set (live_futures c (cn_store_futures c))}"
    "recv = set (map fst (filter (\<lambda>(rid, f). df_done c f) (cn_load_futures c)))"
    "cn_pending_sends c' = cn_pending_sends c \<union> ids - sent"
    "cn_store_futures c' = live_futures c (cn_store_futures c)"
    "cn_load_futures c' = filter (\<lambda>(rid, f). rid \<notin> recv) (cn_load_futures c)"
    "cn_client c' = cn_client c" "cn_events c' = cn_events c"
    using assms [symmetric] by (simp_all add: get_finished_def Let_def)
  have sent: "sent = {rid \<in> cn_pending_sends c \<union> ids.
      \<not> (\<exists>fs f. (rid, fs) \<in> set (cn_store_futures c) \<and> f \<in> set fs \<and> \<not> df_done c f)}"
    unfolding parts(1) live_futures_iff ..
  have recv: "recv = {rid. \<exists>f. (rid, f) \<in> set (cn_load_futures c) \<and> df_done c f}"
    unfolding parts(2) by force
  note dd = df_done_cong [OF parts(6,7)]
  have live: "rid \<in> fst ` set (live_futures c' (cn_store_futures c')) \<longleftrightarrow>
      rid \<in> fst ` set (live_futures c (cn_store_futures c))" for rid
    unfolding parts(4) live_futures_iff dd by (force simp: live_futures_def filter_empty_conv)
  have "fst (fst (get_finished {} c')) = {}"
    unfolding get_finished_def Let_def fst_conv parts(3) live parts(1) by auto
  moreover have "snd (fst (get_finished {} c')) = {}"
    unfolding get_finished_def Let_def fst_conv snd_conv dd parts(5) using recv by auto
  ultimately show ?thesis using sent recv parts(3) by (simp add: prod_eq_iff)
qed

text \<open>
  C38. A failed load is reported as a finished one: when the RETRIEVE is answered with an exception,
  the thread copies nothing, yet sets its event, and the next \<open>get_finished\<close> tells vLLM that the
  request's blocks have been received.
\<close>

theorem failed_load_reported_as_received:
  "let c1 = c\<lparr>cn_load_futures := [(rid, \<lparr>df_uid = u, df_event = Some ev\<rparr>)],
              cn_client := (cn_client c)\<lparr>settled := [u \<mapsto> Inl x]\<rparr>\<rparr>;
       c2 = finish_load secs rid op (Inl x) ev c1
   in cn_transfer c2 = cn_transfer c \<and> rid \<in> snd (fst (get_finished {} c2))"
proof -
  define c1 where "c1 = c\<lparr>cn_load_futures := [(rid, \<lparr>df_uid = u, df_event = Some ev\<rparr>)],
      cn_client := (cn_client c)\<lparr>settled := [u \<mapsto> Inl x]\<rparr>\<rparr>"
  have "finish_load secs rid op (Inl x) ev c1 = c1\<lparr>cn_events := insert ev (cn_events c1)\<rparr>"
    by (simp add: finish_load_def)
  moreover have "df_done (c1\<lparr>cn_events := insert ev (cn_events c1)\<rparr>) \<lparr>df_uid = u, df_event = Some ev\<rparr>"
    by (simp add: df_done_def c1_def)
  then have "rid \<in> snd (fst (get_finished {} (c1\<lparr>cn_events := insert ev (cn_events c1)\<rparr>)))"
    unfolding get_finished_def Let_def by (simp add: c1_def)
  ultimately show ?thesis unfolding c1_def [symmetric] Let_def by (simp add: c1_def)
qed

subsection \<open>A small run\<close>

definition demo_connector :: "(string \<times> request_tracker) list \<Rightarrow> connector" where
  "demo_connector ts = \<lparr>cn_client = MQClient, cn_chunk_size = 2, cn_block_size = 1, cn_model = ''m'',
     cn_world_size = 1, cn_instance_id = 7, cn_trackers = ts, cn_store_futures = [], cn_load_futures = [],
     cn_pending_sends = {}, cn_events = {}, cn_transfer = None\<rparr>"

definition demo_tracker :: request_tracker where
  "demo_tracker = (RequestTracker [5, 6, 7, 8, 9])\<lparr>lookup_resolved := True, lmcache_hits := 2,
     vllm_hits := 1, num_stored_tokens := 2\<rparr>"

definition demo_sched :: "(string \<times> nat list \<times> nat) list \<Rightarrow> scheduler_output" where
  "demo_sched news = \<lparr>so_new_reqs = news, so_cached_ids = [], so_new_block_ids = [],
     so_cached_computed = [], so_resumed = {}, so_scheduled_tokens = [(''r'', 3)]\<rparr>"

lemma demo_connector_sel [simp]:
  "cn_chunk_size (demo_connector ts) = 2" "cn_block_size (demo_connector ts) = 1"
  "cn_trackers (demo_connector ts) = ts" "cn_client (demo_connector ts) = MQClient"
  by (simp_all add: demo_connector_def)

lemma demo_tracker_whole: "whole_chunks 2 demo_tracker" "lookup_resolved demo_tracker"
  "\<not> alloc_seen demo_tracker" "\<not> load_pending demo_tracker" "vllm_hits demo_tracker = 1" "lmcache_hits demo_tracker = 2"
  by (simp_all add: whole_chunks_def demo_tracker_def RequestTracker_def)

lemma store_ops_tile_the_request_witness:
  "\<exists>ops. tiles 2 1 2 ops 4 \<and> length ops = 1
    \<and> ops = store_ops ''r'' (fst (hook_run [Build_connector_meta (demo_sched [(''r'', [0, 1, 2, 3, 4], 2)])]
          (demo_connector [(''r'', demo_tracker)])))"
proof -
  let ?hs = "[Build_connector_meta (demo_sched [(''r'', [0, 1, 2, 3, 4], 2)])]"
  let ?c = "demo_connector [(''r'', demo_tracker)]"
  obtain ms c' where run: "hook_run ?hs ?c = (ms, c')" by fastforce
  have t: "al_get ''r'' (cn_trackers ?c) = Some demo_tracker" by (simp add: al_get_def)
  have "length (store_ops ''r'' (fst (hook_run ?hs ?c))) = 1
      \<and> map_option num_stored_tokens (al_get ''r'' (cn_trackers (snd (hook_run ?hs ?c)))) = Some 4" by code_simp
  moreover have "num_stored_tokens demo_tracker = 2" by (simp add: demo_tracker_def)
  ultimately show ?thesis
    using store_ops_tile_the_request [OF _ _ _ t demo_tracker_whole(2) _ run] demo_tracker_whole(1) run by auto
qed

lemma lookup_sent_once_witness:
  "(let g = Get_num_new_matched_tokens ''r'' [5, 6] [5, 6] 0 (Inr None)
    in lookups ''r'' (snd (hook_run [g, g, g] (demo_connector []))) \<le> 1)"
proof -
  let ?g = "Get_num_new_matched_tokens ''r'' [5, 6] [5, 6] 0 (Inr None)"
  have "Request_finished ''r'' \<notin> set [?g, ?g, ?g]" by simp
  from lookup_sent_once [OF this, of "demo_connector []"] show ?thesis
    by (simp add: Let_def lookups_def MQClient_def al_get_def del: hook_run.simps hook_exec.simps)
qed

lemma hits_are_freed_or_retrieved_witness:
  "(case update_state_after_alloc ''r'' [3, 4] 1 (demo_connector [(''r'', demo_tracker)]) of (r, c') \<Rightarrow>
     outbox (cn_client c') = [] \<and> (case al_get ''r'' (cn_trackers c') of None \<Rightarrow> False
       | Some t' \<Rightarrow> \<exists>p. fst (generate_retrieve_op 2 1 t') = Inr (Some p) \<and> op_start p = 0 \<and> op_end p = 2))"
proof -
  let ?c = "demo_connector [(''r'', demo_tracker)]"
  obtain r c' where run: "update_state_after_alloc ''r'' [3, 4] 1 ?c = (r, c')" by fastforce
  have t: "al_get ''r'' (cn_trackers ?c) = Some demo_tracker" by (simp add: al_get_def)
  have "0 < cn_chunk_size ?c" "0 < cn_block_size ?c" "whole_chunks (cn_chunk_size ?c) demo_tracker"
    "0 < (1::nat) \<Longrightarrow> vllm_hits demo_tracker < lmcache_hits demo_tracker" by (simp_all add: demo_tracker_whole)
  from hits_are_freed_or_retrieved [OF this(1,2) t demo_tracker_whole(3,4) this(3,4) run]
  obtain t' f where t': "al_get ''r'' (cn_trackers c') = Some t'" and o: "outbox (cn_client c') =
      outbox (cn_client ?c) @ (if f = 0 then [] else [Call (uid_counter (cn_client ?c)) FREE_LOOKUP_LOCKS
        (P_free_locks \<lparr>fp_request_id = ''r'', fp_num_chunks = f, fp_world_size = cn_world_size ?c\<rparr>)])"
    and p: "\<exists>p. fst (generate_retrieve_op 2 1 t') = Inr (Some p) \<and> op_start p = f * 2 \<and> op_end p = 2
      \<and> op_start p < op_end p" by (auto simp: demo_tracker_whole)
  then have "f = 0" by auto
  with o p t' run show ?thesis by (auto simp: MQClient_def)
qed

lemma get_finished_reports_once_witness:
  "fst (get_finished {''a''} ((demo_connector [])\<lparr>cn_store_futures := [(''b'', [\<lparr>df_uid = 3, df_event = None\<rparr>])],
      cn_pending_sends := {''b''}\<rparr>)) = ({''a''}, {})"
proof -
  let ?c = "(demo_connector [])\<lparr>cn_store_futures := [(''b'', [\<lparr>df_uid = 3, df_event = None\<rparr>])],
      cn_pending_sends := {''b''}\<rparr>"
  obtain sent recv c' where run: "get_finished {''a''} ?c = ((sent, recv), c')" by (metis prod.collapse)
  have "\<not> df_done ?c \<lparr>df_uid = 3, df_event = None\<rparr>" by (simp add: df_done_def demo_connector_def MQClient_def)
  with get_finished_reports_once [OF run] have "sent = {''a''}" "recv = {}"
    by (auto simp: demo_connector_def)
  with run show ?thesis by simp
qed

end
