(* ===== verification/End_To_End.thy ===== *)
theory End_To_End
  imports Service Connector_Laws
begin

text \<open>
  The whole path of a chunk: out of the KV cache of one engine, through STORE into L1, through
  RETRIEVE back, and into the KV cache of an engine of the same geometry.
\<close>

subsection \<open>The sending side\<close>

definition store_payload :: "string \<Rightarrow> int \<Rightarrow> load_store_op \<Rightarrow> byte list list \<Rightarrow> rat \<Rightarrow> nat \<Rightarrow> transfer_payload" where
  "store_payload rid iid p chunks secs n =
     \<lparr>tp_request_id = rid, tp_instance_id = iid, tp_op = p, tp_chunks = chunks, tp_elapsed = secs, tp_nbytes = n\<rparr>"

lemma store_payload_sel [simp]:
  "tp_request_id (store_payload rid iid p chunks secs n) = rid"
  "tp_instance_id (store_payload rid iid p chunks secs n) = iid"
  "tp_op (store_payload rid iid p chunks secs n) = p" "tp_chunks (store_payload rid iid p chunks secs n) = chunks"
  by (simp_all add: store_payload_def)

lemma save_one:
  assumes "rm_req m = STORE" and "cn_transfer c = Some tr"
    and "to_host (op_block_ids (rm_op m)) tr = (Inr chunks, tr1)"
  shows "\<exists>c1. wait_for_save secs [m] c = (Inr (), c1)
    \<and> outbox (cn_client c1) = outbox (cn_client c) @ [Call (uid_counter (cn_client c)) STORE (P_transfer
        (store_payload (rm_request_id m) (cn_instance_id c) (rm_op m) chunks (secs 0) (length chunks * chunk_nbytes tr1)))]"
  using assms
  by (auto simp: wait_for_save_def submit_transfers_def submit_msg_def mq_submit_def store_payload_def Let_def)

subsection \<open>The receiving side\<close>

lemma load_one:
  assumes "cn_transfer d = Some dst"
    and "from_host chunks (op_block_ids p) (op_skip_first_n_tokens p div cn_block_size d) dst = (Inr (), dst')"
  shows "cn_transfer (finish_load secs rid p (Inr (Some chunks)) ev d) = Some dst'"
  using assms by (simp add: finish_load_def submit_msg_def split: prod.split)

text \<open>The chunks the reply brings are the bytes of the views at the time of the send.\<close>

lemma serve_retrieve:
  assumes "retrieve H pl sv = Inr (objs, keys)" and "sent_chunks objs sv \<noteq> []"
  shows "hd (fst (serve_request H (Call u RETRIEVE (P_transfer pl)) sv)) = reply_ok u PyNone (sent_chunks objs sv)"
  using assms by (auto simp: serve_request_def mq_handle_def retrieve_result_def split: prod.splits sum.splits)

lemma serve_store:
  assumes "store H pl sv = (Inr True, sv')"
  shows "serve_request H (Call u STORE (P_transfer pl)) sv = ([reply_ok u (PyVal (VBool True)) []], sv')"
  using assms by (simp add: serve_request_def mq_handle_def bool_result_def)

definition same_geometry :: "kv_transfer \<Rightarrow> kv_transfer \<Rightarrow> bool" where
  "same_geometry tr dst \<longleftrightarrow> length (kv_caches dst) = length (kv_caches tr)
     \<and> block_nbytes dst = block_nbytes tr \<and> blocks_per_chunk dst = blocks_per_chunk tr"

subsection \<open>Properties\<close>

text \<open>
  C4. The KV cache survives the cache server: when an engine saves the blocks of a STORE op for which the pool
  has room and whose chunks are new, the message it sends is answered with success; a RETRIEVE
  of the same tokens by an engine of the same model and rank is answered with the chunks; and the
  load of these into other blocks leaves in every layer of the receiving cache, from the first
  block not skipped on, exactly the bytes the sending cache had in the saved blocks, and no
  other block changed.
\<close>

theorem kv_survives_the_cache:
  assumes "rm_req m = STORE" and "cn_transfer c = Some tr" and "wf_transfer tr"
    and "valid_ids (op_block_ids (rm_op m)) tr"
    and "sv_instances sv (cn_instance_id c) = Some inst" and "op_keys H (rm_op m) inst sv = Inr keys"
    and "distinct keys" and "keys \<noteq> []" and "l1_inv {} (st_l1 (sv_sm sv))" and "ei_chunk_nbytes inst = chunk_nbytes tr"
    and "0 < chunk_nbytes tr" and "ei_world_size inst \<noteq> 0"
    and "enough_room (length keys) (chunk_nbytes tr) (allocator (st_l1 (sv_sm sv)))"
    and "\<forall>k \<in> set keys. entries (st_l1 (sv_sm sv)) k = None"
    and "length keys * blocks_per_chunk tr = length (op_block_ids (rm_op m))"
    and "sv_instances sv (cn_instance_id d) = Some inst"
    and "op_token_ids p = op_token_ids (rm_op m)" and "op_start p = op_start (rm_op m)" and "op_end p = op_end (rm_op m)"
    and "cn_transfer d = Some dst" and "wf_transfer dst" and "same_geometry tr dst"
    and "valid_ids (op_block_ids p) dst" and "distinct (op_block_ids p)"
    and "length (op_block_ids p) = length (op_block_ids (rm_op m))"
    and "op_skip_first_n_tokens p div cn_block_size d \<le> blocks_per_chunk dst"
  shows "\<exists>c1 pl sv1 chunks dst'.
    wait_for_save secs [m] c = (Inr (), c1)
    \<and> outbox (cn_client c1) = outbox (cn_client c) @ [Call (uid_counter (cn_client c)) STORE (P_transfer pl)]
    \<and> serve_request H (Call u STORE (P_transfer pl)) sv = ([reply_ok u (PyVal (VBool True)) []], sv1)
    \<and> hd (fst (serve_request H (Call u' RETRIEVE (P_transfer
          (store_payload rid (cn_instance_id d) p [] 0 0))) sv1)) = reply_ok u' PyNone chunks
    \<and> cn_transfer (finish_load secs' rid p (Inr (Some chunks)) ev d) = Some dst'
    \<and> (\<forall>j < length (kv_caches tr).
         (\<forall>q < length (op_block_ids p). blocks (kv_caches dst' ! j) ! (op_block_ids p ! q) =
            (if q < op_skip_first_n_tokens p div cn_block_size d
             then blocks (kv_caches dst ! j) ! (op_block_ids p ! q)
             else blocks (kv_caches tr ! j) ! (op_block_ids (rm_op m) ! q)))
         \<and> (\<forall>b. b \<notin> set (op_block_ids p) \<longrightarrow> blocks (kv_caches dst' ! j) ! b = blocks (kv_caches dst ! j) ! b))"
proof -
  let ?sids = "op_block_ids (rm_op m)" and ?l = "st_l1 (sv_sm sv)"
  let ?rpl = "store_payload rid (cn_instance_id d) p [] 0 0"
  from to_host_eq [OF assms(3,4)] obtain chunks tr1 where th: "to_host ?sids tr = (Inr chunks, tr1)" by blast
  note ch = to_host_chunks [OF assms(3,4) th]
  define pl where "pl = store_payload (rm_request_id m) (cn_instance_id c) (rm_op m) chunks (secs 0)
      (length chunks * chunk_nbytes tr1)"
  from save_one [OF assms(1,2) th, of secs] obtain c1 where
    save: "wait_for_save secs [m] c = (Inr (), c1)"
      "outbox (cn_client c1) = outbox (cn_client c) @ [Call (uid_counter (cn_client c)) STORE (P_transfer pl)]"
    unfolding pl_def by blast
  have n: "length keys = length chunks"
    using ch(1) assms(3,15) by (metis div_mult_self_is_m wf_transfer_def)
  have "missing_keys keys ?l = keys" using assms(14) by (simp add: missing_keys_def)
  then have room: "enough_room (length (missing_keys keys ?l)) (ei_chunk_nbytes inst) (allocator ?l)"
    using assms(10,13) by simp
  have "sv_instances sv (tp_instance_id pl) = Some inst" "op_keys H (tp_op pl) inst sv = Inr keys"
    "0 < ei_chunk_nbytes inst" "length keys \<le> length (tp_chunks pl)"
    "\<forall>c \<in> set (tp_chunks pl). length c = ei_chunk_nbytes inst"
    using assms(5,6,10,11) n ch(2) by (simp_all add: pl_def)
  from store_ok [OF this(1,2) assms(7,9) this(3) room this(4,5)] obtain l' where
    st: "store H pl sv = (Inr True, set_l1 l' sv)" "stored keys chunks ?l l'" by (auto simp: pl_def)
  let ?sv1 = "set_l1 l' sv"
  have bytes: "l1_bytes ?sv1 (keys ! i) = Some (chunks ! i)" if "i < length keys" for i
    using stored_bytes [OF st(2) that] assms(14) that by (simp add: l1_bytes_def objs_of_def)
  have ok: "op_keys H (tp_op ?rpl) inst ?sv1 = Inr keys"
    using assms(6) by (simp only: op_keys_def store_payload_sel set_l1_sel assms(17-19))
  have "sv_instances ?sv1 (tp_instance_id ?rpl) = Some inst" using assms(16) by simp
  moreover have "\<forall>k \<in> set keys. \<exists>bs. l1_bytes ?sv1 k = Some bs" using bytes by (auto simp: in_set_conv_nth)
  ultimately obtain objs where rt: "retrieve H ?rpl ?sv1 = Inr (objs, keys)"
    and sent: "sent_chunks objs ?sv1 = map (\<lambda>k. the (l1_bytes ?sv1 k)) keys"
    using retrieve_found [OF _ ok assms(12)] by blast
  have sc: "sent_chunks objs ?sv1 = chunks" unfolding sent by (rule nth_equalityI) (simp_all add: n bytes)
  have "chunks \<noteq> []" using n assms(8) by auto
  then have rep: "hd (fst (serve_request H (Call u' RETRIEVE (P_transfer ?rpl)) ?sv1)) = reply_ok u' PyNone chunks"
    using serve_retrieve [OF rt, of u'] sc by simp
  from host_roundtrip [OF assms(3,4) th assms(21,23,24,25) _ _ _ assms(26)] assms(22) obtain dst' where
    fh: "from_host chunks (op_block_ids p) (op_skip_first_n_tokens p div cn_block_size d) dst = (Inr (), dst')"
    and eq: "\<forall>j < length (kv_caches tr).
         (\<forall>q < length (op_block_ids p). blocks (kv_caches dst' ! j) ! (op_block_ids p ! q) =
            (if q < op_skip_first_n_tokens p div cn_block_size d
             then blocks (kv_caches dst ! j) ! (op_block_ids p ! q) else blocks (kv_caches tr ! j) ! (?sids ! q)))
         \<and> (\<forall>b. b \<notin> set (op_block_ids p) \<longrightarrow> blocks (kv_caches dst' ! j) ! b = blocks (kv_caches dst ! j) ! b)"
    unfolding same_geometry_def by blast
  from load_one [OF assms(20) fh, of secs' rid ev] save serve_store [OF st(1), of u] rep eq show ?thesis
    by blast
qed

text \<open>One layer, one block of two bytes per chunk: block 0 of one cache travels to block 1 of another.\<close>

definition demo_cache :: "byte list list \<Rightarrow> kv_transfer" where
  "demo_cache bs = \<lparr>tr_rank = 0, kv_caches = [\<lparr>block_bytes = 2, blocks = bs\<rparr>], blocks_per_chunk = 1,
     block_nbytes = 2, chunk_nbytes = 2, d2h = \<lparr>staging = replicate 3 [0, 0], cpu_bufs = replicate 3 [0, 0]\<rparr>,
     h2d = \<lparr>staging = replicate 3 [0, 0], cpu_bufs = replicate 3 [0, 0]\<rparr>\<rparr>"

definition demo_worker :: "byte list list \<Rightarrow> connector" where
  "demo_worker bs = (demo_connector [])\<lparr>cn_transfer := Some (demo_cache bs)\<rparr>"

definition demo_meta :: req_meta where
  "demo_meta = \<lparr>rm_request_id = ''r'', rm_req = STORE, rm_op = tp_op demo_pl\<rparr>"

lemma kv_survives_the_cache_witness:
  "\<exists>pl sv1 chunks dst'.
    outbox (cn_client (snd (wait_for_save (\<lambda>_. 1) [demo_meta] (demo_worker [[3, 4]])))) = [Call 0 STORE (P_transfer pl)]
    \<and> serve_request demo_H (Call 0 STORE (P_transfer pl)) (demo_server Map.empty) = ([reply_ok 0 (PyVal (VBool True)) []], sv1)
    \<and> hd (fst (serve_request demo_H (Call 0 RETRIEVE (P_transfer
          (store_payload ''q'' 7 ((tp_op demo_pl)\<lparr>op_block_ids := [1]\<rparr>) [] 0 0))) sv1)) = reply_ok 0 PyNone chunks
    \<and> cn_transfer (finish_load 1 ''q'' ((tp_op demo_pl)\<lparr>op_block_ids := [1]\<rparr>) (Inr (Some chunks)) 0
          (demo_worker [[7, 7], [8, 8]])) = Some dst'
    \<and> blocks (kv_caches dst' ! 0) ! 1 = [3, 4] \<and> blocks (kv_caches dst' ! 0) ! 0 = [7, 7]"
proof -
  let ?c = "demo_worker [[3, 4]]" and ?d = "demo_worker [[7, 7], [8, 8]]"
  let ?p = "(tp_op demo_pl)\<lparr>op_block_ids := [1]\<rparr>"
  have op: "op_block_ids (tp_op demo_pl) = [0]" "op_skip_first_n_tokens ?p = 0" by (simp_all add: demo_pl_def)
  have iid: "cn_instance_id ?c = 7" "cn_instance_id ?d = 7" by (simp_all add: demo_worker_def demo_connector_def)
  have tr: "cn_transfer ?c = Some (demo_cache [[3, 4]])" "cn_transfer ?d = Some (demo_cache [[7, 7], [8, 8]])"
    by (simp_all add: demo_worker_def)
  have wf: "wf_transfer (demo_cache [[3, 4]])" "wf_transfer (demo_cache [[7, 7], [8, 8]])"
    "valid_ids [0] (demo_cache [[3, 4]])" "valid_ids [1] (demo_cache [[7, 7], [8, 8]])"
    "same_geometry (demo_cache [[3, 4]]) (demo_cache [[7, 7], [8, 8]])"
    by (simp_all add: demo_cache_def wf_transfer_def wf_layer_def wf_pipe_def valid_ids_def same_geometry_def)
  have m: "rm_req demo_meta = STORE" "rm_op demo_meta = tp_op demo_pl" by (simp_all add: demo_meta_def)
  have keys: "op_keys demo_H (rm_op demo_meta) demo_inst (demo_server Map.empty) = Inr [demo_chunk]"
    using demo_op_keys by (simp add: m)
  have out: "outbox (cn_client ?c) = []" "uid_counter (cn_client ?c) = 0"
    by (simp_all add: demo_worker_def MQClient_def)
  have bpc: "blocks_per_chunk (demo_cache bs) = 1" "chunk_nbytes (demo_cache bs) = 2"
    "kv_caches (demo_cache bs) = [\<lparr>block_bytes = 2, blocks = bs\<rparr>]" for bs by (simp_all add: demo_cache_def)
  note run = kv_survives_the_cache [OF m(1) tr(1) wf(1) _ _ keys _ _ demo_server_sel(5) _ _ _ _ _ _ _ _ _ _ tr(2) wf(2,5),
      of ?p "\<lambda>_. 1" 0 0 "''q''" 1 0]
  have inst: "ei_chunk_nbytes demo_inst = 2" "ei_world_size demo_inst = 1" by (simp_all add: demo_inst_def)
  have room: "enough_room (Suc 0) 2 (allocator (st_l1 (sv_sm (demo_server Map.empty))))" using demo_room by simp
  from run obtain c1 pl sv1 chunks dst' where
    "wait_for_save (\<lambda>_. 1) [demo_meta] ?c = (Inr (), c1)"
    "outbox (cn_client c1) = [Call 0 STORE (P_transfer pl)]"
    "serve_request demo_H (Call 0 STORE (P_transfer pl)) (demo_server Map.empty) = ([reply_ok 0 (PyVal (VBool True)) []], sv1)"
    "hd (fst (serve_request demo_H (Call 0 RETRIEVE (P_transfer (store_payload ''q'' 7 ?p [] 0 0))) sv1)) = reply_ok 0 PyNone chunks"
    "cn_transfer (finish_load 1 ''q'' ?p (Inr (Some chunks)) 0 ?d) = Some dst'"
    "blocks (kv_caches dst' ! 0) ! 1 = [3, 4]" "blocks (kv_caches dst' ! 0) ! 0 = [7, 7]"
    using wf room by (auto simp: m op iid out bpc inst demo_server_sel simp del: One_nat_def)
  then show ?thesis by (intro exI [of _ pl] exI [of _ sv1] exI [of _ chunks] exI [of _ dst']) simp
qed

end
