(* ===== verification/Transfer_Streams.thy ===== *)
theory Transfer_Streams
  imports KV_Transfer
begin

text \<open>
  The transfer engine of \<open>mini_llmcache/l0/transfer.py\<close> at the level of streams and events.
  The host thread only enqueues work; the kernel stream, the copy stream and the stream of the engine's own
  kernels run it later, each in its own order, and only events and synchronisations order one
  stream, or the host, after another.  \<open>to_host_program\<close> and \<open>from_host_program\<close> are what the two
  methods ask of the device, call by call; \<open>mstep\<close> is one step of the host or of a stream.

  The device runtime is not part of the repository.  What is modelled of it is its documented
  contract: a stream is a queue, \<open>record\<close> marks a position of a stream, \<open>wait_event\<close> makes a stream wait for
  the last position recorded when it is called (nothing, if none was), \<open>synchronize\<close> makes the host
  wait.  The kernels of the layers of one chunk have no event between them and are one unit of work.
\<close>

subsection \<open>Streams, events and the host program\<close>

datatype dev_event = Ready nat | Free nat

datatype stream = KernelStream | CopyStream | EngineStream

datatype work =
    Gather "nat list" nat
  | CopyOut nat
  | CopyIn nat
  | Scatter "nat list" nat nat
  | Engine "layer list \<Rightarrow> layer list"

datatype item = Wait dev_event nat | Work work | Record dev_event nat

datatype host_op = FillBuf nat "byte list" | ReadBuf nat

datatype host_cmd =
    WaitEvent stream dev_event
  | Launch stream work
  | RecordEvent stream dev_event
  | SyncEvent dev_event
  | SyncStream stream
  | SyncDevice
  | Local host_op

text \<open>The memory the work acts on: the buffers of the pipeline, the KV cache, the bytes extracted so far.\<close>

record memory =
  buffers :: pipeline
  caches :: "layer list"
  taken :: "byte list list"

text \<open>
  The machine: what the host still has to do, the queues of the streams, for every event the number
  of records asked for and the last one that was reached, and the exception that ended the host's part.
\<close>

record machine =
  todo :: "host_cmd list"
  queue :: "stream \<Rightarrow> item list"
  recorded :: "dev_event \<Rightarrow> nat"
  fired :: "dev_event \<Rightarrow> nat"
  mem :: memory
  raised :: "exn option"

definition set_staging :: "nat \<Rightarrow> byte list \<Rightarrow> memory \<Rightarrow> memory" where
  "set_staging b bytes M = M\<lparr>buffers := (buffers M)\<lparr>staging := (staging (buffers M))[b := bytes]\<rparr>\<rparr>"

definition set_cpu_buf :: "nat \<Rightarrow> byte list \<Rightarrow> memory \<Rightarrow> memory" where
  "set_cpu_buf b bytes M = M\<lparr>buffers := (buffers M)\<lparr>cpu_bufs := (cpu_bufs (buffers M))[b := bytes]\<rparr>\<rparr>"

text \<open>One unit of device work; a kernel that fails does not complete.\<close>

fun exec_work :: "kv_transfer \<Rightarrow> work \<Rightarrow> memory \<Rightarrow> memory option" where
  "exec_work tr (Gather ids b) M =
     (case gather (caches M) 0 (blocks_per_chunk tr) (block_nbytes tr) ids (staging (buffers M) ! b) of
        Inl _ \<Rightarrow> None
      | Inr slot \<Rightarrow> Some (set_staging b slot M))"
| "exec_work tr (CopyOut b) M = Some (set_cpu_buf b (staging (buffers M) ! b) M)"
| "exec_work tr (CopyIn b) M = Some (set_staging b (cpu_bufs (buffers M) ! b) M)"
| "exec_work tr (Scatter ids skip b) M =
     (case scatter (caches M) 0 (blocks_per_chunk tr) (block_nbytes tr) ids skip (staging (buffers M) ! b) [] of
        (Inl _, _) \<Rightarrow> None
      | (Inr _, las) \<Rightarrow> Some (M\<lparr>caches := las\<rparr>))"
| "exec_work tr (Engine f) M = Some (M\<lparr>caches := f (caches M)\<rparr>)"

fun do_op :: "kv_transfer \<Rightarrow> host_op \<Rightarrow> memory \<Rightarrow> memory res" where
  "do_op tr (FillBuf b blob) M =
     (case fill_buf (chunk_nbytes tr) blob of Inl x \<Rightarrow> Inl x | Inr bytes \<Rightarrow> Inr (set_cpu_buf b bytes M))"
| "do_op tr (ReadBuf b) M = Inr (M\<lparr>taken := taken M @ [cpu_bufs (buffers M) ! b]\<rparr>)"

definition enqueue :: "stream \<Rightarrow> item \<Rightarrow> machine \<Rightarrow> machine" where
  "enqueue st x m = m\<lparr>queue := (queue m)(st := queue m st @ [x])\<rparr>"

text \<open>One command of the host; \<open>None\<close> while it has to wait or has nothing left to do.\<close>

fun do_cmd :: "kv_transfer \<Rightarrow> host_cmd \<Rightarrow> machine \<Rightarrow> machine option" where
  "do_cmd tr (WaitEvent st e) m = Some (enqueue st (Wait e (recorded m e)) m)"
| "do_cmd tr (Launch st w) m = Some (enqueue st (Work w) m)"
| "do_cmd tr (RecordEvent st e) m =
     Some (enqueue st (Record e (Suc (recorded m e))) (m\<lparr>recorded := (recorded m)(e := Suc (recorded m e))\<rparr>))"
| "do_cmd tr (SyncEvent e) m = (if recorded m e \<le> fired m e then Some m else None)"
| "do_cmd tr (SyncStream st) m = (if queue m st = [] then Some m else None)"
| "do_cmd tr SyncDevice m =
     (if list_all (\<lambda>st. queue m st = []) [KernelStream, CopyStream, EngineStream] then Some m else None)"
| "do_cmd tr (Local h) m =
     (case do_op tr h (mem m) of
        Inl x \<Rightarrow> Some (m\<lparr>todo := [], raised := Some x\<rparr>)
      | Inr M \<Rightarrow> Some (m\<lparr>mem := M\<rparr>))"

definition host_step :: "kv_transfer \<Rightarrow> machine \<Rightarrow> machine option" where
  "host_step tr m = (case todo m of [] \<Rightarrow> None | c # cs \<Rightarrow> do_cmd tr c (m\<lparr>todo := cs\<rparr>))"

text \<open>The head of a stream's queue, if it can be run.\<close>

definition stream_step :: "kv_transfer \<Rightarrow> stream \<Rightarrow> machine \<Rightarrow> machine option" where
  "stream_step tr st m =
     (case queue m st of
        [] \<Rightarrow> None
      | x # xs \<Rightarrow>
          let m1 = m\<lparr>queue := (queue m)(st := xs)\<rparr> in
          (case x of
             Wait e k \<Rightarrow> if k \<le> fired m e then Some m1 else None
           | Work w \<Rightarrow> map_option (\<lambda>M. m1\<lparr>mem := M\<rparr>) (exec_work tr w (mem m))
           | Record e k \<Rightarrow> Some (m1\<lparr>fired := (fired m)(e := k)\<rparr>)))"

inductive mstep :: "kv_transfer \<Rightarrow> machine \<Rightarrow> machine \<Rightarrow> bool" for tr where
  host: "host_step tr m = Some m' \<Longrightarrow> mstep tr m m'"
| device: "stream_step tr st m = Some m' \<Longrightarrow> mstep tr m m'"

inductive_cases mstep_cases: "mstep tr m m'"

subsection \<open>The calls of the two methods\<close>

text \<open>The body of the loop of \<open>to_host\<close>, for chunk \<open>i\<close>.\<close>

definition to_host_cmds :: "kv_transfer \<Rightarrow> nat list \<Rightarrow> nat \<Rightarrow> host_cmd list" where
  "to_host_cmds tr block_ids i =
     (let buf = i mod 3; bpc = blocks_per_chunk tr; ids = slice (i * bpc) ((i + 1) * bpc) block_ids in
      [WaitEvent KernelStream (Free buf),
       Launch KernelStream (Gather ids buf),
       RecordEvent KernelStream (Ready buf),
       WaitEvent CopyStream (Ready buf),
       Launch CopyStream (CopyOut buf),
       RecordEvent CopyStream (Free buf),
       SyncEvent (Free buf),
       Local (ReadBuf buf)])"

definition to_host_program :: "kv_transfer \<Rightarrow> nat list \<Rightarrow> host_cmd list" where
  "to_host_program tr block_ids =
     SyncDevice # concat (map (to_host_cmds tr block_ids) [0..<length block_ids div blocks_per_chunk tr])"

text \<open>The body of the loop of \<open>from_host\<close>, for chunk \<open>i\<close>.\<close>

definition from_host_cmds :: "kv_transfer \<Rightarrow> byte list list \<Rightarrow> nat list \<Rightarrow> nat \<Rightarrow> nat \<Rightarrow> host_cmd list" where
  "from_host_cmds tr chunks block_ids skip_blocks i =
     (let buf = i mod 3; bpc = blocks_per_chunk tr; skip = (if i = 0 then skip_blocks else 0);
          ids = slice (i * bpc + skip) ((i + 1) * bpc) block_ids in
      (if 3 \<le> i then [SyncEvent (Free buf)] else []) @
      [Local (FillBuf buf (chunks ! i)),
       WaitEvent CopyStream (Free buf),
       Launch CopyStream (CopyIn buf),
       RecordEvent CopyStream (Ready buf),
       WaitEvent KernelStream (Ready buf),
       Launch KernelStream (Scatter ids skip buf),
       RecordEvent KernelStream (Free buf)])"

definition from_host_program :: "kv_transfer \<Rightarrow> byte list list \<Rightarrow> nat list \<Rightarrow> nat \<Rightarrow> host_cmd list" where
  "from_host_program tr chunks block_ids skip_blocks =
     concat (map (from_host_cmds tr chunks block_ids skip_blocks) [0..<length chunks]) @ [SyncStream KernelStream]"

text \<open>
  A machine about to run a program: nothing of an earlier transfer is under way on the two streams
  of the pipeline; the engine may have kernels queued.
\<close>

definition boot :: "host_cmd list \<Rightarrow> (layer list \<Rightarrow> layer list) list \<Rightarrow> (dev_event \<Rightarrow> nat) \<Rightarrow> pipeline
    \<Rightarrow> layer list \<Rightarrow> machine" where
  "boot prog engine g p kv =
     \<lparr>todo = prog,
      queue = (\<lambda>st. if st = EngineStream then map (\<lambda>f. Work (Engine f)) engine else []),
      recorded = g, fired = g,
      mem = \<lparr>buffers = p, caches = kv, taken = []\<rparr>, raised = None\<rparr>"

text \<open>Nothing is under way.\<close>

definition idle :: "machine \<Rightarrow> bool" where
  "idle m \<longleftrightarrow> todo m = [] \<and> (\<forall>st. queue m st = []) \<and> recorded m = fired m"

subsection \<open>Every run is finite\<close>

definition pending :: "machine \<Rightarrow> nat" where
  "pending m = 2 * length (todo m) + length (queue m KernelStream) + length (queue m CopyStream)
     + length (queue m EngineStream)"

lemma do_cmd_pending: "do_cmd tr c m = Some m' \<Longrightarrow> pending m' \<le> Suc (pending m)"
proof (cases c)
  case (WaitEvent st e)
  then show "do_cmd tr c m = Some m' \<Longrightarrow> ?thesis" by (cases st) (auto simp: pending_def enqueue_def)
next
  case (Launch st w)
  then show "do_cmd tr c m = Some m' \<Longrightarrow> ?thesis" by (cases st) (auto simp: pending_def enqueue_def)
next
  case (RecordEvent st e)
  then show "do_cmd tr c m = Some m' \<Longrightarrow> ?thesis" by (cases st) (auto simp: pending_def enqueue_def)
qed (auto simp: pending_def split: if_splits sum.splits)

lemma host_step_pending: "host_step tr m = Some m' \<Longrightarrow> pending m' < pending m"
proof -
  assume h: "host_step tr m = Some m'"
  then obtain c cs where c: "todo m = c # cs" "do_cmd tr c (m\<lparr>todo := cs\<rparr>) = Some m'"
    by (auto simp: host_step_def split: list.splits)
  have "pending (m\<lparr>todo := cs\<rparr>) + 2 = pending m" using c(1) by (simp add: pending_def)
  with do_cmd_pending [OF c(2)] show ?thesis by simp
qed

lemma stream_step_pending: "stream_step tr st m = Some m' \<Longrightarrow> pending m' < pending m"
  by (cases st) (auto simp: stream_step_def pending_def Let_def split: list.splits item.splits if_splits)

lemma mstep_pending: "mstep tr m m' \<Longrightarrow> pending m' < pending m"
  by (erule mstep_cases) (auto dest: host_step_pending stream_step_pending)

lemma runs_are_bounded: "(mstep tr ^^ k) m m' \<Longrightarrow> k + pending m' \<le> pending m"
  by (induction k arbitrary: m') (fastforce dest: mstep_pending)+

end
