(* ===== verification/Transfer_Schedules.thy ===== *)
theory Transfer_Schedules
  imports Transfer_Streams
begin

text \<open>
  Every schedule of the transfer pipelines gives the result of the sequential model in \<open>KV_Transfer\<close>.
  The locale \<open>two_streams\<close> is the contract both methods share: a producer stream fills staging slots, a
  consumer stream empties them, three slots, the events \<open>Ready\<close> and \<open>Free\<close> of a slot between them.
  \<open>fill_first\<close> (\<open>from_host\<close>) and \<open>drain_last\<close> (\<open>to_host\<close>) add what the host does.
\<close>

subsection \<open>Counting\<close>

text \<open>How many of the first \<open>k\<close> chunks use slot \<open>b\<close>.\<close>

definition uses :: "nat \<Rightarrow> nat \<Rightarrow> nat" where
  "uses b k = (k + 2 - b) div 3"

lemma uses_0: "b < 3 \<Longrightarrow> uses b 0 = 0"
  by (simp add: uses_def)

lemma uses_le: "r < 3 \<Longrightarrow> q \<le> uses r k \<longleftrightarrow> 3 * q + r \<le> k + 2"
  by (auto simp: uses_def less_eq_div_iff_mult_less_eq)

lemma uses_own: "uses (j mod 3) j = j div 3"
  unfolding uses_def by presburger

lemma uses_Suc: "b < 3 \<Longrightarrow> uses b (Suc j) = uses b j + (if j mod 3 = b then 1 else 0)"
proof -
  assume "b < 3"
  then consider "b = 0" | "b = 1" | "b = 2" by linarith
  then show ?thesis unfolding uses_def by cases (simp; presburger)+
qed

lemma uses_reached: "j div 3 \<le> uses (j mod 3) k \<longleftrightarrow> j \<le> k + 2"
  by (simp add: uses_le)

lemma uses_passed: "Suc (j div 3) \<le> uses (j mod 3) k \<longleftrightarrow> j < k"
proof -
  have "Suc (j div 3) \<le> uses (j mod 3) k \<longleftrightarrow> 3 * (j div 3) + j mod 3 + 3 \<le> k + 2" by (simp add: uses_le)
  then show ?thesis by (simp only: mult_div_mod_eq) presburger
qed

lemma le_third: "j \<le> q div 3 \<longleftrightarrow> 3 * j \<le> (q::nat)"
  by (simp add: less_eq_div_iff_mult_less_eq mult.commute)

text \<open>A chunk passes three items through a stream; this many of its units of work are done after \<open>q\<close> items.\<close>

definition worked :: "nat \<Rightarrow> nat" where
  "worked q = Suc q div 3"

lemma third_cases:
  fixes q :: nat
  obtains j where "q = 3 * j" | j where "q = Suc (3 * j)" | j where "q = Suc (Suc (3 * j))"
proof -
  have "q = 3 * (q div 3) \<or> q = Suc (3 * (q div 3)) \<or> q = Suc (Suc (3 * (q div 3)))" by presburger
  then show ?thesis using that by blast
qed

lemma thirds [simp]:
  "3 * j div 3 = j" "Suc (3 * j) div 3 = j" "Suc (Suc (3 * j)) div 3 = j" "Suc (Suc (Suc (3 * j))) div 3 = Suc j"
  "Suc (3 * j) mod 3 = 1" "Suc (Suc (3 * j)) mod 3 = 2" "Suc (Suc (Suc (3 * j))) mod 3 = 0"
  "worked (3 * j) = j" "worked (Suc (3 * j)) = j" "worked (Suc (Suc (3 * j))) = Suc j"
  "worked (Suc (Suc (Suc (3 * j)))) = Suc j"
  unfolding worked_def by presburger+

subsection \<open>Two streams and three slots\<close>

text \<open>
  \<open>ok f p c M\<close>: the memory after \<open>f\<close> host operations, \<open>p\<close> units of the producer, \<open>c\<close> of the
  consumer.  The laws say under which distances of the three the next operation of each does its part.
\<close>

lemma stream_step_items:
  "queue m st = [] \<Longrightarrow> stream_step tr st m = None"
  "queue m st = Wait e k # xs \<Longrightarrow> stream_step tr st m =
     (if k \<le> fired m e then Some (m\<lparr>queue := (queue m)(st := xs)\<rparr>) else None)"
  "queue m st = Work w # xs \<Longrightarrow> stream_step tr st m =
     map_option (\<lambda>M. m\<lparr>queue := (queue m)(st := xs), mem := M\<rparr>) (exec_work tr w (mem m))"
  "queue m st = Record e k # xs \<Longrightarrow> stream_step tr st m =
     Some (m\<lparr>queue := (queue m)(st := xs), fired := (fired m)(e := k)\<rparr>)"
  by (simp_all add: stream_step_def)

locale two_streams =
  fixes tr :: kv_transfer
    and prod cons :: stream
    and w1 w2 :: "nat \<Rightarrow> work"
    and n :: nat
    and g :: "dev_event \<Rightarrow> nat"
    and early :: bool
    and ok :: "nat \<Rightarrow> nat \<Rightarrow> nat \<Rightarrow> memory \<Rightarrow> bool"
  assumes distinct_streams: "prod \<noteq> cons" "prod \<noteq> EngineStream" "cons \<noteq> EngineStream"
    and produce: "ok f p c M \<Longrightarrow> p < n \<Longrightarrow> c \<le> p \<Longrightarrow> p \<le> c + 2 \<Longrightarrow> f \<le> c + 3 \<Longrightarrow> (early \<Longrightarrow> p < f) \<Longrightarrow>
        \<exists>M'. exec_work tr (w1 p) M = Some M' \<and> ok f (Suc p) c M'"
    and consume: "ok f p c M \<Longrightarrow> c < p \<Longrightarrow> p \<le> c + 3 \<Longrightarrow>
        \<exists>M'. exec_work tr (w2 c) M = Some M' \<and> ok f p (Suc c) M'"
begin

definition prod_item :: "nat \<Rightarrow> item" where
  "prod_item q = (let j = q div 3; b = j mod 3 in
     if q mod 3 = 0 then Wait (Free b) (g (Free b) + j div 3)
     else if q mod 3 = 1 then Work (w1 j)
     else Record (Ready b) (Suc (g (Ready b) + j div 3)))"

definition cons_item :: "nat \<Rightarrow> item" where
  "cons_item q = (let j = q div 3; b = j mod 3 in
     if q mod 3 = 0 then Wait (Ready b) (Suc (g (Ready b) + j div 3))
     else if q mod 3 = 1 then Work (w2 j)
     else Record (Free b) (Suc (g (Free b) + j div 3)))"

text \<open>The commands that send chunk \<open>i\<close> through the two streams.\<close>

definition stage :: "nat \<Rightarrow> host_cmd list" where
  "stage i = [WaitEvent prod (Free (i mod 3)), Launch prod (w1 i), RecordEvent prod (Ready (i mod 3)),
     WaitEvent cons (Ready (i mod 3)), Launch cons (w2 i), RecordEvent cons (Free (i mod 3))]"

text \<open>\<open>pe\<close> and \<open>ce\<close> items have been enqueued, \<open>pp\<close> and \<open>cp\<close> of them have run.\<close>

definition events_ok :: "nat \<Rightarrow> nat \<Rightarrow> nat \<Rightarrow> nat \<Rightarrow> machine \<Rightarrow> bool" where
  "events_ok pe ce pp cp m \<longleftrightarrow> (\<forall>b < 3.
     recorded m (Ready b) = g (Ready b) + uses b (pe div 3) \<and> fired m (Ready b) = g (Ready b) + uses b (pp div 3) \<and>
     recorded m (Free b) = g (Free b) + uses b (ce div 3) \<and> fired m (Free b) = g (Free b) + uses b (cp div 3))
   \<and> (\<forall>b \<ge> 3. recorded m (Ready b) = g (Ready b) \<and> fired m (Ready b) = g (Ready b)
        \<and> recorded m (Free b) = g (Free b) \<and> fired m (Free b) = g (Free b))"

definition bounds :: "nat \<Rightarrow> nat \<Rightarrow> nat \<Rightarrow> nat \<Rightarrow> bool" where
  "bounds pe ce pp cp \<longleftrightarrow> pp \<le> pe \<and> cp \<le> ce \<and> pe \<le> 3 * n \<and> ce \<le> 3 * (pe div 3) \<and> pe \<le> ce + 3
     \<and> cp div 3 \<le> pp div 3 \<and> (cp mod 3 \<noteq> 0 \<longrightarrow> cp div 3 < pp div 3)
     \<and> pp div 3 \<le> cp div 3 + 3 \<and> (pp mod 3 \<noteq> 0 \<longrightarrow> pp div 3 \<le> cp div 3 + 2)"

definition live :: "nat \<Rightarrow> nat \<Rightarrow> nat \<Rightarrow> nat \<Rightarrow> nat \<Rightarrow> machine \<Rightarrow> bool" where
  "live f pe ce pp cp m \<longleftrightarrow>
     queue m prod = map prod_item [pp..<pe] \<and> queue m cons = map cons_item [cp..<ce] \<and> queue m EngineStream = []
     \<and> events_ok pe ce pp cp m \<and> bounds pe ce pp cp \<and> raised m = None
     \<and> ok f (worked pp) (worked cp) (mem m) \<and> (early \<longrightarrow> pe \<le> 3 * f) \<and> f \<le> cp div 3 + 3"

lemma prod_items:
  "prod_item (3 * j) = Wait (Free (j mod 3)) (g (Free (j mod 3)) + j div 3)"
  "prod_item (Suc (3 * j)) = Work (w1 j)"
  "prod_item (Suc (Suc (3 * j))) = Record (Ready (j mod 3)) (Suc (g (Ready (j mod 3)) + j div 3))"
  by (simp_all add: prod_item_def Let_def)

lemma cons_items:
  "cons_item (3 * j) = Wait (Ready (j mod 3)) (Suc (g (Ready (j mod 3)) + j div 3))"
  "cons_item (Suc (3 * j)) = Work (w2 j)"
  "cons_item (Suc (Suc (3 * j))) = Record (Free (j mod 3)) (Suc (g (Free (j mod 3)) + j div 3))"
  by (simp_all add: cons_item_def Let_def)

lemma queue_step:
  "q < e \<Longrightarrow> map h [q..<e] = h q # map h [Suc q..<e]"
  by (simp add: upt_conv_Cons)

lemma produce_ready:
  assumes l: "live f pe ce (Suc (3 * j)) cp m" and pp: "Suc (3 * j) < pe"
  shows "\<exists>M. exec_work tr (w1 j) (mem m) = Some M \<and> ok f (Suc j) (worked cp) M"
proof -
  have d: "j \<le> cp div 3 + 2" "cp div 3 \<le> j" "j < n" "cp mod 3 \<noteq> 0 \<Longrightarrow> cp div 3 < j"
    using l pp by (auto simp: live_def bounds_def)
  have c: "worked cp \<le> j" "j \<le> worked cp + 2" "f \<le> worked cp + 3"
    using d l by (cases cp rule: third_cases; simp add: live_def)+
  have "early \<Longrightarrow> j < f" using l pp unfolding live_def by linarith
  then show ?thesis using produce [of f j "worked cp" "mem m"] l c d(3) by (auto simp: live_def)
qed

lemma consume_ready:
  assumes l: "live f pe ce pp (Suc (3 * j)) m"
  shows "\<exists>M. exec_work tr (w2 j) (mem m) = Some M \<and> ok f (worked pp) (Suc j) M"
proof -
  have d: "j < pp div 3" "pp div 3 \<le> j + 3" "pp mod 3 \<noteq> 0 \<Longrightarrow> pp div 3 \<le> j + 2"
    using l by (auto simp: live_def bounds_def)
  have "j < worked pp" "worked pp \<le> j + 3"
    using d by (cases pp rule: third_cases; simp)+
  then show ?thesis using consume [of f "worked pp" j "mem m"] l by (auto simp: live_def)
qed

lemma producer_step:
  assumes l: "live f pe ce pp cp m" and s: "stream_step tr prod m = Some m'"
  shows "live f pe ce (Suc pp) cp m' \<and> todo m' = todo m"
proof -
  have pp: "pp < pe"
    using l s by (cases "pp < pe") (simp_all add: live_def stream_step_def)
  then have q: "queue m prod = prod_item pp # map prod_item [Suc pp..<pe]"
    using l by (simp add: live_def queue_step)
  have b: "bounds pe ce pp cp" and e: "events_ok pe ce pp cp m" and o: "ok f (worked pp) (worked cp) (mem m)"
    using l by (simp_all add: live_def)
  show ?thesis
  proof (cases pp rule: third_cases)
    case (1 j)
    note st = s [unfolded stream_step_items(2) [OF q [unfolded 1 prod_items]]]
    then have "g (Free (j mod 3)) + j div 3 \<le> fired m (Free (j mod 3))" by (simp split: if_splits)
    then have "j \<le> cp div 3 + 2" using e by (simp add: events_ok_def uses_reached)
    then have "bounds pe ce (Suc pp) cp" using b pp by (simp add: bounds_def 1)
    moreover have "m' = m\<lparr>queue := (queue m)(prod := map prod_item [Suc (3 * j)..<pe])\<rparr>"
      using st by (simp split: if_splits)
    ultimately show ?thesis using l distinct_streams by (simp add: live_def 1 events_ok_def)
  next
    case (2 j)
    obtain M where M: "exec_work tr (w1 j) (mem m) = Some M" "ok f (Suc j) (worked cp) M"
      using produce_ready [of f pe ce j cp m] l pp by (auto simp: 2)
    have "m' = m\<lparr>queue := (queue m)(prod := map prod_item [Suc (Suc (3 * j))..<pe]), mem := M\<rparr>"
      using s [unfolded stream_step_items(3) [OF q [unfolded 2 prod_items]]] M by simp
    moreover have "bounds pe ce (Suc pp) cp" using b pp by (simp add: bounds_def 2)
    ultimately show ?thesis using l M distinct_streams by (simp add: live_def 2 events_ok_def)
  next
    case (3 j)
    have "m' = m\<lparr>queue := (queue m)(prod := map prod_item [Suc (Suc (Suc (3 * j)))..<pe]),
        fired := (fired m)(Ready (j mod 3) := Suc (g (Ready (j mod 3)) + j div 3))\<rparr>"
      using s [unfolded stream_step_items(4) [OF q [unfolded 3 prod_items]]] by simp
    moreover have "bounds pe ce (Suc pp) cp" using b pp by (auto simp: bounds_def 3)
    ultimately show ?thesis
      using l distinct_streams by (auto simp: live_def 3 events_ok_def uses_Suc uses_own)
  qed
qed

lemma consumer_step:
  assumes l: "live f pe ce pp cp m" and s: "stream_step tr cons m = Some m'"
  shows "live f pe ce pp (Suc cp) m' \<and> todo m' = todo m"
proof -
  have cp: "cp < ce"
    using l s by (cases "cp < ce") (simp_all add: live_def stream_step_def)
  then have q: "queue m cons = cons_item cp # map cons_item [Suc cp..<ce]"
    using l by (simp add: live_def queue_step)
  have b: "bounds pe ce pp cp" and e: "events_ok pe ce pp cp m" and o: "ok f (worked pp) (worked cp) (mem m)"
    using l by (simp_all add: live_def)
  show ?thesis
  proof (cases cp rule: third_cases)
    case (1 j)
    note st = s [unfolded stream_step_items(2) [OF q [unfolded 1 cons_items]]]
    then have "Suc (g (Ready (j mod 3)) + j div 3) \<le> fired m (Ready (j mod 3))" by (simp split: if_splits)
    then have "Suc (j div 3) \<le> uses (j mod 3) (pp div 3)" using e by (simp add: events_ok_def)
    then have "j < pp div 3" by (simp only: uses_passed)
    then have "bounds pe ce pp (Suc cp)" using b cp by (simp add: bounds_def 1)
    moreover have "m' = m\<lparr>queue := (queue m)(cons := map cons_item [Suc (3 * j)..<ce])\<rparr>"
      using st by (simp split: if_splits)
    ultimately show ?thesis using l distinct_streams by (simp add: live_def 1 events_ok_def)
  next
    case (2 j)
    obtain M where M: "exec_work tr (w2 j) (mem m) = Some M" "ok f (worked pp) (Suc j) M"
      using consume_ready [of f pe ce pp j m] l by (auto simp: 2)
    have "m' = m\<lparr>queue := (queue m)(cons := map cons_item [Suc (Suc (3 * j))..<ce]), mem := M\<rparr>"
      using s [unfolded stream_step_items(3) [OF q [unfolded 2 cons_items]]] M by simp
    moreover have "bounds pe ce pp (Suc cp)" using b cp by (simp add: bounds_def 2)
    ultimately show ?thesis using l M distinct_streams by (simp add: live_def 2 events_ok_def)
  next
    case (3 j)
    have "m' = m\<lparr>queue := (queue m)(cons := map cons_item [Suc (Suc (Suc (3 * j)))..<ce]),
        fired := (fired m)(Free (j mod 3) := Suc (g (Free (j mod 3)) + j div 3))\<rparr>"
      using s [unfolded stream_step_items(4) [OF q [unfolded 3 cons_items]]] by simp
    moreover have "bounds pe ce pp (Suc cp)" using b cp by (auto simp: bounds_def 3)
    ultimately show ?thesis
      using l distinct_streams by (auto simp: live_def 3 events_ok_def uses_Suc uses_own)
  qed
qed

text \<open>When a stream can go on, and that one of the two always can.\<close>

lemma producer_enabled:
  assumes l: "live f pe ce pp cp m" and pp: "pp < pe" and free: "pp div 3 \<le> cp div 3 + 2"
  shows "\<exists>m'. stream_step tr prod m = Some m'"
proof -
  have q: "queue m prod = prod_item pp # map prod_item [Suc pp..<pe]"
    using l pp by (simp add: live_def queue_step)
  show ?thesis
  proof (cases pp rule: third_cases)
    case (1 j)
    then have "j div 3 \<le> uses (j mod 3) (cp div 3)" using free by (simp add: uses_reached)
    then show ?thesis using l unfolding stream_step_items(2) [OF q [unfolded 1 prod_items]]
      by (simp add: live_def events_ok_def)
  next
    case (2 j)
    then show ?thesis using produce_ready [of f pe ce j cp m] l pp
      unfolding stream_step_items(3) [OF q [unfolded 2 prod_items]] by auto
  next
    case (3 j)
    then show ?thesis using stream_step_items(4) [OF q [unfolded 3 prod_items]] by blast
  qed
qed

lemma consumer_enabled:
  assumes l: "live f pe ce pp cp m" and cp: "cp < ce" and filled: "cp div 3 < pp div 3"
  shows "\<exists>m'. stream_step tr cons m = Some m'"
proof -
  have q: "queue m cons = cons_item cp # map cons_item [Suc cp..<ce]"
    using l cp by (simp add: live_def queue_step)
  show ?thesis
  proof (cases cp rule: third_cases)
    case (1 j)
    then have "Suc (j div 3) \<le> uses (j mod 3) (pp div 3)" using filled by (simp only: uses_passed thirds)
    then show ?thesis using l unfolding stream_step_items(2) [OF q [unfolded 1 cons_items]]
      by (simp add: live_def events_ok_def)
  next
    case (2 j)
    then show ?thesis using consume_ready [of f pe ce pp j m] l
      unfolding stream_step_items(3) [OF q [unfolded 2 cons_items]] by auto
  next
    case (3 j)
    then show ?thesis using stream_step_items(4) [OF q [unfolded 3 cons_items]] by blast
  qed
qed

lemma device_progress:
  assumes l: "live f pe ce pp cp m" and busy: "pp < pe \<or> cp < ce"
  shows "\<exists>st m'. stream_step tr st m = Some m'"
proof (cases "cp < ce \<and> cp div 3 < pp div 3")
  case True
  with consumer_enabled [OF l] show ?thesis by blast
next
  case False
  have b: "bounds pe ce pp cp" using l by (simp add: live_def)
  have "pp < pe"
  proof (rule ccontr)
    assume "\<not> pp < pe"
    then have "pp = pe" "cp < ce" "ce \<le> 3 * (pe div 3)" using b busy by (auto simp: bounds_def)
    then have "cp div 3 < pp div 3" by (simp add: less_mult_imp_div_less mult.commute)
    with False \<open>cp < ce\<close> show False by blast
  qed
  moreover have "pp div 3 \<le> cp div 3 + 2"
  proof (cases "cp < ce")
    case True
    with False show ?thesis by simp
  next
    case False
    with b \<open>pp < pe\<close> have "pp div 3 \<le> (cp + 3) div 3" by (intro div_le_mono) (simp add: bounds_def)
    then show ?thesis by simp
  qed
  ultimately show ?thesis using producer_enabled [OF l] by blast
qed

text \<open>A synchronisation on a slot's \<open>Free\<close> event lets the host go on when all uses of it so far are over.\<close>

lemma sync_free:
  assumes l: "live f pe (3 * i) pp cp m" and b: "b < 3"
  shows "recorded m (Free b) \<le> fired m (Free b) \<longleftrightarrow> uses b i \<le> uses b (cp div 3)"
  using l b by (simp add: live_def events_ok_def)

text \<open>The host sends a chunk through the streams.\<close>

lemma enqueue_sel [simp]:
  "queue (enqueue st x m) = (queue m)(st := queue m st @ [x])" "recorded (enqueue st x m) = recorded m"
  "fired (enqueue st x m) = fired m" "todo (enqueue st x m) = todo m" "mem (enqueue st x m) = mem m"
  "raised (enqueue st x m) = raised m"
  by (simp_all add: enqueue_def)

lemma stage_step:
  assumes l: "live f (3 * i + min r 3) (3 * i + (r - 3)) pp cp m" and i: "i < n" and r: "r < 6"
    and f: "early \<Longrightarrow> i < f"
  shows "\<exists>m'. do_cmd tr (stage i ! r) m = Some m'
    \<and> live f (3 * i + min (Suc r) 3) (3 * i + (Suc r - 3)) pp cp m' \<and> todo m' = todo m"
proof -
  let ?b = "i mod 3" and ?pe = "3 * i + min r 3" and ?ce = "3 * i + (r - 3)"
  let ?pe' = "3 * i + min (Suc r) 3" and ?ce' = "3 * i + (Suc r - 3)"
  have qp: "queue m prod = map prod_item [pp..<?pe]" and qc: "queue m cons = map cons_item [cp..<?ce]"
    and ev: "events_ok ?pe ?ce pp cp m" and bd: "bounds ?pe ?ce pp cp" using l by (simp_all add: live_def)
  have le: "pp \<le> ?pe" "cp \<le> ?ce" using bd by (simp_all add: bounds_def)
  have rec: "recorded m (Ready ?b) = g (Ready ?b) + uses ?b (?pe div 3)"
    "recorded m (Free ?b) = g (Free ?b) + uses ?b (?ce div 3)"
    using ev by (simp_all add: events_ok_def)
  have bd': "bounds ?pe' ?ce' pp cp" and e': "early \<longrightarrow> ?pe' \<le> 3 * f"
  proof -
    have "?ce' \<le> 3 * (?pe' div 3)"
    proof (cases "2 \<le> r")
      case True
      then have pe: "?pe' = 3 * Suc i" by simp
      have "Suc r - 3 \<le> 3" using r by simp
      then show ?thesis unfolding pe thirds by simp
    next
      case False
      then have "?ce' = 3 * i" by simp
      moreover have "3 * i div 3 \<le> ?pe' div 3" by (intro div_le_mono) simp
      ultimately show ?thesis by (simp only: thirds)
    qed
    moreover have "?pe' \<le> 3 * n"
    proof -
      have "?pe' \<le> 3 * Suc i" by simp
      also have "\<dots> \<le> 3 * n" using i by (intro mult_le_mono2) simp
      finally show ?thesis .
    qed
    moreover have "?pe' \<le> ?ce' + 3" "?pe \<le> ?pe'" "?ce \<le> ?ce'" by auto
    ultimately show "bounds ?pe' ?ce' pp cp" using bd le unfolding bounds_def by (meson le_trans)
    show "early \<longrightarrow> ?pe' \<le> 3 * f" using f by auto
  qed
  have three: "3 * i + 3 = Suc (Suc (Suc (3 * i)))" by simp
  define m' where "m' = the (do_cmd tr (stage i ! r) m)"
  have fin: "\<exists>m'. do_cmd tr (stage i ! r) m = Some m' \<and> live f ?pe' ?ce' pp cp m' \<and> todo m' = todo m"
    if c: "do_cmd tr (stage i ! r) m = Some m'" and q: "queue m' prod = map prod_item [pp..<?pe']"
      "queue m' cons = map cons_item [cp..<?ce']" "queue m' EngineStream = queue m EngineStream"
      and e: "events_ok ?pe' ?ce' pp cp m'" and m: "mem m' = mem m" "todo m' = todo m" "raised m' = raised m"
    using that l bd' e' by (simp add: live_def)
  consider "r = 0" | "r = 1" | "r = 2" | "r = 3" | "r = 4" | "r = 5" using r by linarith
  then show ?thesis
  proof cases
    case 1
    show ?thesis
      by (rule fin) (use 1 qp qc ev rec le distinct_streams in
        \<open>simp_all add: m'_def three stage_def prod_items uses_own events_ok_def\<close>)
  next
    case 2
    show ?thesis
      by (rule fin) (use 2 qp qc ev rec le distinct_streams in
        \<open>simp_all add: m'_def three stage_def prod_items events_ok_def\<close>)
  next
    case 3
    show ?thesis
      by (rule fin) (use 3 qp qc ev rec le distinct_streams in
        \<open>simp_all add: m'_def three stage_def prod_items uses_own uses_Suc events_ok_def\<close>)
  next
    case 4
    show ?thesis
      by (rule fin) (use 4 qp qc ev rec le distinct_streams in
        \<open>simp_all add: m'_def three stage_def cons_items uses_own uses_Suc events_ok_def\<close>)
  next
    case 5
    show ?thesis
      by (rule fin) (use 5 qp qc ev rec le distinct_streams in
        \<open>simp_all add: m'_def three stage_def cons_items events_ok_def\<close>)
  next
    case 6
    show ?thesis
      by (rule fin) (use 6 qp qc ev rec le distinct_streams in
        \<open>simp_all add: m'_def three stage_def cons_items uses_own uses_Suc events_ok_def\<close>)
  qed
qed

lemma live_todo [simp]: "live f pe ce pp cp (m\<lparr>todo := td\<rparr>) = live f pe ce pp cp m"
  by (simp add: live_def events_ok_def)

lemma length_stage [simp]: "length (stage i) = 6"
  by (simp add: stage_def)

text \<open>
  Where the host is, as a relation \<open>pos f pe ce k td\<close>: it has still \<open>td\<close> to do and knows that
  \<open>k\<close> chunks have left the consumer.
\<close>

definition reached :: "(nat \<Rightarrow> nat \<Rightarrow> nat \<Rightarrow> nat \<Rightarrow> host_cmd list \<Rightarrow> bool) \<Rightarrow> machine \<Rightarrow> bool" where
  "reached pos m \<longleftrightarrow> (\<exists>f pe ce k pp cp. live f pe ce pp cp m \<and> k \<le> cp div 3 \<and> pos f pe ce k (todo m))"

lemma reachedI: "live f pe ce pp cp m \<Longrightarrow> k \<le> cp div 3 \<Longrightarrow> pos f pe ce k (todo m) \<Longrightarrow> reached pos m"
  unfolding reached_def by blast

text \<open>The host at command \<open>r\<close> of the stage of chunk \<open>i\<close>, with \<open>td\<close> to do afterwards.\<close>

lemma stage_host_step:
  assumes l: "live f (3 * i + min r 3) (3 * i + (r - 3)) pp cp m" and "i < n" and r: "r < 6" and "early \<Longrightarrow> i < f"
    and td: "todo m = drop r (stage i) @ td"
  shows "\<exists>m'. host_step tr m = Some m' \<and> live f (3 * i + min (Suc r) 3) (3 * i + (Suc r - 3)) pp cp m'
    \<and> todo m' = drop (Suc r) (stage i) @ td"
proof -
  have "todo m = stage i ! r # drop (Suc r) (stage i) @ td"
    using r td by (simp add: Cons_nth_drop_Suc [symmetric])
  moreover from l have "live f (3 * i + min r 3) (3 * i + (r - 3)) pp cp (m\<lparr>todo := drop (Suc r) (stage i) @ td\<rparr>)"
    by simp
  from stage_step [OF this assms(2-4)] obtain m'
    where "do_cmd tr (stage i ! r) (m\<lparr>todo := drop (Suc r) (stage i) @ td\<rparr>) = Some m'"
      "live f (3 * i + min (Suc r) 3) (3 * i + (Suc r - 3)) pp cp m'" "todo m' = drop (Suc r) (stage i) @ td"
    by auto
  ultimately show ?thesis by (simp add: host_step_def)
qed

lemma reached_device:
  assumes r: "reached pos m" and s: "stream_step tr st m = Some m'"
  shows "reached pos m'"
proof -
  obtain f pe ce k pp cp where l: "live f pe ce pp cp m" and k: "k \<le> cp div 3" and p: "pos f pe ce k (todo m)"
    using r by (auto simp: reached_def)
  have k': "k \<le> Suc cp div 3" using k by (meson div_le_mono le_trans lessI less_imp_le)
  have "queue m st \<noteq> []" using s by (auto simp: stream_step_items(1))
  then have "st = prod \<or> st = cons \<or> st \<noteq> EngineStream" using l by (cases st) (auto simp: live_def)
  moreover have "st = prod \<or> st = cons \<or> st = EngineStream"
    using distinct_streams by (metis stream.exhaust)
  ultimately consider "st = prod" | "st = cons"
    using \<open>queue m st \<noteq> []\<close> l by (auto simp: live_def)
  then show ?thesis
  proof cases
    case 1
    with producer_step [OF l] s k p show ?thesis unfolding reached_def by metis
  next
    case 2
    with consumer_step [OF l] s k' p show ?thesis unfolding reached_def by metis
  qed
qed

lemma reached_end:
  assumes l: "live f (3 * n) (3 * n) pp cp m" and k: "n \<le> cp div 3"
  shows "(\<forall>st. queue m st = []) \<and> recorded m = fired m \<and> raised m = None \<and> ok f n n (mem m)"
proof -
  have b: "pp \<le> 3 * n" "cp \<le> 3 * n" "cp div 3 \<le> pp div 3" using l by (simp_all add: live_def bounds_def)
  have "3 * n \<le> cp" "3 * n \<le> pp" using k order_trans [OF k b(3)] unfolding le_third .
  with b have "cp = 3 * n" "pp = 3 * n" by simp_all
  note l = l [unfolded this]
  have q: "queue m prod = []" "queue m cons = []" "queue m EngineStream = []" using l by (simp_all add: live_def)
  have "queue m st = []" for st
    using q distinct_streams by (cases st; cases prod; cases cons) simp_all
  moreover have "recorded m e = fired m e" for e
    using l by (cases e; simp add: live_def events_ok_def) (metis not_less)+
  ultimately show ?thesis using l by (auto simp: live_def)
qed

lemma boot_live:
  assumes "todo m = td" "\<forall>st. queue m st = []" "recorded m = g" "fired m = g" "raised m = None" "ok 0 0 0 (mem m)"
  shows "live 0 0 0 0 0 m"
  using assms by (simp add: live_def events_ok_def bounds_def uses_0 worked_def)

end

subsection \<open>A host that drains each chunk before the next\<close>

locale drain_last = two_streams tr prod cons w1 w2 n g False ok
  for tr prod cons w1 w2 n g ok +
  fixes rd :: "nat \<Rightarrow> host_op"
  assumes drain: "ok i p (Suc i) M \<Longrightarrow> Suc i \<le> p \<Longrightarrow> \<exists>M'. do_op tr (rd i) M = Inr M' \<and> ok (Suc i) p (Suc i) M'"
begin

definition cmds :: "nat \<Rightarrow> host_cmd list" where
  "cmds i = stage i @ [SyncEvent (Free (i mod 3)), Local (rd i)]"

definition rest :: "nat \<Rightarrow> host_cmd list" where
  "rest i = concat (map cmds [i..<n])"

inductive pos :: "nat \<Rightarrow> nat \<Rightarrow> nat \<Rightarrow> nat \<Rightarrow> host_cmd list \<Rightarrow> bool" where
  sending: "i < n \<Longrightarrow> r < 6 \<Longrightarrow> pos i (3 * i + min r 3) (3 * i + (r - 3)) i
      (drop r (stage i) @ SyncEvent (Free (i mod 3)) # Local (rd i) # rest (Suc i))"
| waiting: "i < n \<Longrightarrow> pos i (3 * Suc i) (3 * Suc i) i (SyncEvent (Free (i mod 3)) # Local (rd i) # rest (Suc i))"
| reading: "i < n \<Longrightarrow> pos i (3 * Suc i) (3 * Suc i) (Suc i) (Local (rd i) # rest (Suc i))"
| finished: "pos n (3 * n) (3 * n) n []"

lemma pos_rest: "i \<le> n \<Longrightarrow> pos i (3 * i) (3 * i) i (rest i)"
  using sending [of i 0] finished by (cases "i = n") (auto simp: rest_def cmds_def upt_conv_Cons)

lemma reached_host:
  assumes r: "reached pos m" and s: "host_step tr m = Some m'"
  shows "reached pos m'"
proof -
  obtain f pe ce k pp cp where l: "live f pe ce pp cp m" and k: "k \<le> cp div 3" and p: "pos f pe ce k (todo m)"
    using r by (auto simp: reached_def)
  from p show ?thesis
  proof cases
    case (sending r)
    let ?tl = "SyncEvent (Free (f mod 3)) # Local (rd f) # rest (Suc f)"
    have m': "live f (3 * f + min (Suc r) 3) (3 * f + (Suc r - 3)) pp cp m'" "todo m' = drop (Suc r) (stage f) @ ?tl"
      using stage_host_step [of f f r pp cp m ?tl] l sending s by auto
    have "pos f (3 * f + min (Suc r) 3) (3 * f + (Suc r - 3)) f (todo m')"
    proof (cases "r = 5")
      case True
      then show ?thesis using waiting [of f] sending m' by (simp add: add.commute)
    next
      case False
      then show ?thesis using pos.sending [of f "Suc r"] sending m' by simp
    qed
    then show ?thesis using reachedI [OF m'(1)] k sending by simp
  next
    case waiting
    then have "m' = m\<lparr>todo := Local (rd f) # rest (Suc f)\<rparr>"
      and "recorded m (Free (f mod 3)) \<le> fired m (Free (f mod 3))"
      using s by (auto simp: host_step_def split: if_splits)
    moreover have "Suc (f div 3) \<le> uses (f mod 3) (cp div 3)"
      using calculation(2) sync_free [of f pe "Suc f" pp cp m "f mod 3"] l waiting by (simp add: uses_Suc uses_own)
    then have "Suc f \<le> cp div 3" unfolding uses_passed by simp
    ultimately show ?thesis using reachedI [of f pe ce pp cp m' "Suc f"] l pos.reading [of f] waiting by simp
  next
    case reading
    have c: "worked cp = Suc f" "Suc f \<le> worked pp"
    proof -
      have "cp \<le> 3 * Suc f" using l reading by (simp add: live_def bounds_def)
      moreover have "3 * Suc f \<le> cp" using k reading le_third by blast
      ultimately have "cp = 3 * Suc f" by (rule antisym)
      then show "worked cp = Suc f" by (simp only: thirds)
      have "Suc f \<le> pp div 3" using l k reading by (simp add: live_def bounds_def)
      then show "Suc f \<le> worked pp" unfolding worked_def by (meson div_le_mono le_SucI le_refl le_trans)
    qed
    then obtain M where M: "do_op tr (rd f) (mem m) = Inr M" "ok (Suc f) (worked pp) (Suc f) M"
      using drain [of f "worked pp" "mem m"] l reading by (auto simp: live_def)
    then have "m' = m\<lparr>todo := rest (Suc f), mem := M\<rparr>" using s reading by (simp add: host_step_def)
    moreover have "live (Suc f) pe ce pp cp (m\<lparr>todo := rest (Suc f), mem := M\<rparr>)"
      using l M c k reading by (simp add: live_def events_ok_def)
    ultimately show ?thesis using reachedI [of "Suc f" pe ce pp cp m' "Suc f"] k pos_rest [of "Suc f"] reading by simp
  next
    case finished
    with s show ?thesis by (simp add: host_step_def)
  qed
qed

lemma reached_progress:
  assumes r: "reached pos m"
  shows "idle m \<or> (\<exists>m'. mstep tr m m')"
proof -
  obtain f pe ce k pp cp where l: "live f pe ce pp cp m" and k: "k \<le> cp div 3" and p: "pos f pe ce k (todo m)"
    using r by (auto simp: reached_def)
  show ?thesis
  proof (cases "pp < pe \<or> cp < ce")
    case True
    with device_progress [OF l] show ?thesis by (auto intro: mstep.device)
  next
    case False
    then have eq: "pp = pe" "cp = ce" using l by (auto simp: live_def bounds_def)
    from p show ?thesis
    proof cases
      case (sending r)
      then show ?thesis
        using stage_host_step [of f f r pp cp m "SyncEvent (Free (f mod 3)) # Local (rd f) # rest (Suc f)"] l
        by (auto intro: mstep.host)
    next
      case waiting
      then have "recorded m (Free (f mod 3)) \<le> fired m (Free (f mod 3))"
        using sync_free [of f pe "Suc f" pp cp m "f mod 3"] l eq by simp
      then have "host_step tr m = Some (m\<lparr>todo := Local (rd f) # rest (Suc f)\<rparr>)"
        using waiting by (simp add: host_step_def)
      then show ?thesis by (auto intro: mstep.host)
    next
      case reading
      then have "\<exists>m'. host_step tr m = Some m'"
        by (auto simp: host_step_def split: sum.splits)
      then show ?thesis by (auto intro: mstep.host)
    next
      case finished
      then show ?thesis using reached_end [of f pp cp m] l k by (simp add: idle_def)
    qed
  qed
qed

lemma reached_run: "(mstep tr)\<^sup>*\<^sup>* m m' \<Longrightarrow> reached pos m \<Longrightarrow> reached pos m'"
  by (induction rule: rtranclp_induct) (auto elim!: mstep_cases intro: reached_host reached_device)

lemma reached_result:
  assumes "reached pos m" and "todo m = []"
  shows "idle m \<and> raised m = None \<and> ok n n n (mem m)"
proof -
  obtain f pe ce k pp cp where l: "live f pe ce pp cp m" and k: "k \<le> cp div 3" and p: "pos f pe ce k []"
    using assms by (auto simp: reached_def)
  from p have "f = n \<and> pe = 3 * n \<and> ce = 3 * n \<and> k = n" by cases simp_all
  then show ?thesis using reached_end [of f pp cp m] l k assms(2) by (simp add: idle_def)
qed

end

subsection \<open>A host that fills a buffer before each chunk\<close>

locale fill_first = two_streams tr prod cons w1 w2 n g True ok
  for tr prod cons w1 w2 n g ok +
  fixes wr :: "nat \<Rightarrow> host_op"
  assumes fill: "ok i p c M \<Longrightarrow> i < n \<Longrightarrow> \<exists>M'. do_op tr (wr i) M = Inr M' \<and> ok (Suc i) p c M'"
begin

definition cmds :: "nat \<Rightarrow> host_cmd list" where
  "cmds i = (if 3 \<le> i then [SyncEvent (Free (i mod 3))] else []) @ Local (wr i) # stage i"

definition rest :: "nat \<Rightarrow> host_cmd list" where
  "rest i = concat (map cmds [i..<n]) @ [SyncStream cons]"

inductive pos :: "nat \<Rightarrow> nat \<Rightarrow> nat \<Rightarrow> nat \<Rightarrow> host_cmd list \<Rightarrow> bool" where
  syncing: "i < n \<Longrightarrow> pos i (3 * i) (3 * i) 0 (SyncEvent (Free (i mod 3)) # Local (wr i) # stage i @ rest (Suc i))"
| filling: "i < n \<Longrightarrow> pos i (3 * i) (3 * i) (i - 2) (Local (wr i) # stage i @ rest (Suc i))"
| sending: "i < n \<Longrightarrow> r < 6 \<Longrightarrow> pos (Suc i) (3 * i + min r 3) (3 * i + (r - 3)) (i - 2) (drop r (stage i) @ rest (Suc i))"
| flushing: "pos n (3 * n) (3 * n) 0 [SyncStream cons]"
| finished: "pos n (3 * n) (3 * n) n []"

lemma pos_rest: "i \<le> n \<Longrightarrow> pos i (3 * i) (3 * i) 0 (rest i)"
  using syncing [of i] filling [of i] flushing
  by (cases "i = n"; cases "3 \<le> i") (auto simp: rest_def cmds_def upt_conv_Cons)

lemma reached_host:
  assumes r: "reached pos m" and s: "host_step tr m = Some m'"
  shows "reached pos m'"
proof -
  obtain f pe ce k pp cp where l: "live f pe ce pp cp m" and k: "k \<le> cp div 3" and p: "pos f pe ce k (todo m)"
    using r by (auto simp: reached_def)
  from p show ?thesis
  proof cases
    case syncing
    then have m': "m' = m\<lparr>todo := Local (wr f) # stage f @ rest (Suc f)\<rparr>"
      and "recorded m (Free (f mod 3)) \<le> fired m (Free (f mod 3))"
      using s by (auto simp: host_step_def split: if_splits)
    moreover from this(2) have "f div 3 \<le> uses (f mod 3) (cp div 3)"
      using sync_free [of f pe f pp cp m "f mod 3"] l syncing by (simp add: uses_own)
    then have "f - 2 \<le> cp div 3" unfolding uses_reached by simp
    ultimately show ?thesis using reachedI [of f pe ce pp cp m' "f - 2"] l pos.filling [of f] syncing by simp
  next
    case filling
    then obtain M where M: "do_op tr (wr f) (mem m) = Inr M" "ok (Suc f) (worked pp) (worked cp) M"
      using fill [of f "worked pp" "worked cp" "mem m"] l by (auto simp: live_def)
    then have m': "m' = m\<lparr>todo := stage f @ rest (Suc f), mem := M\<rparr>" using s filling by (simp add: host_step_def)
    moreover have "live (Suc f) pe ce pp cp m'"
      using l M k filling by (auto simp: m' live_def events_ok_def)
    ultimately show ?thesis using reachedI [of "Suc f" pe ce pp cp m' "f - 2"] k pos.sending [of f 0] filling by simp
  next
    case (sending i r)
    have m': "live f (3 * i + min (Suc r) 3) (3 * i + (Suc r - 3)) pp cp m'" "todo m' = drop (Suc r) (stage i) @ rest (Suc i)"
      using stage_host_step [of f i r pp cp m "rest (Suc i)"] l sending s by auto
    show ?thesis
    proof (cases "r = 5")
      case True
      then have "pos f (3 * i + min (Suc r) 3) (3 * i + (Suc r - 3)) 0 (todo m')"
        using pos_rest [of "Suc i"] sending m' by (simp add: add.commute)
      with reachedI [OF m'(1)] show ?thesis by blast
    next
      case False
      then have "pos f (3 * i + min (Suc r) 3) (3 * i + (Suc r - 3)) (i - 2) (todo m')"
        using pos.sending [of i "Suc r"] sending m' by simp
      with reachedI [OF m'(1)] k sending show ?thesis by simp
    qed
  next
    case flushing
    then have m': "m' = m\<lparr>todo := []\<rparr>" and "queue m cons = []"
      using s by (auto simp: host_step_def split: if_splits)
    then have "cp = 3 * n" using l flushing by (auto simp: live_def bounds_def)
    then show ?thesis using reachedI [of f pe ce pp cp m' n] l pos.finished flushing m' by simp
  next
    case finished
    with s show ?thesis by (simp add: host_step_def)
  qed
qed

lemma reached_progress:
  assumes r: "reached pos m"
  shows "idle m \<or> (\<exists>m'. mstep tr m m')"
proof -
  obtain f pe ce k pp cp where l: "live f pe ce pp cp m" and k: "k \<le> cp div 3" and p: "pos f pe ce k (todo m)"
    using r by (auto simp: reached_def)
  show ?thesis
  proof (cases "pp < pe \<or> cp < ce")
    case True
    with device_progress [OF l] show ?thesis by (auto intro: mstep.device)
  next
    case False
    then have eq: "pp = pe" "cp = ce" using l by (auto simp: live_def bounds_def)
    from p have "idle m \<or> (\<exists>m'. host_step tr m = Some m')"
    proof cases
      case syncing
      then have "recorded m (Free (f mod 3)) \<le> fired m (Free (f mod 3))"
        using sync_free [of f pe f pp cp m "f mod 3"] l eq by simp
      then show ?thesis using syncing by (simp add: host_step_def)
    next
      case filling
      then show ?thesis by (auto simp: host_step_def split: sum.splits)
    next
      case (sending i r)
      then show ?thesis using stage_host_step [of f i r pp cp m "rest (Suc i)"] l by auto
    next
      case flushing
      then have "queue m cons = []" using l eq by (simp add: live_def)
      then show ?thesis using flushing by (simp add: host_step_def)
    next
      case finished
      then show ?thesis using reached_end [of f pp cp m] l k by (simp add: idle_def)
    qed
    then show ?thesis by (auto intro: mstep.host)
  qed
qed

lemma reached_run: "(mstep tr)\<^sup>*\<^sup>* m m' \<Longrightarrow> reached pos m \<Longrightarrow> reached pos m'"
  by (induction rule: rtranclp_induct) (auto elim!: mstep_cases intro: reached_host reached_device)

lemma reached_result:
  assumes "reached pos m" and "todo m = []"
  shows "idle m \<and> raised m = None \<and> ok n n n (mem m)"
proof -
  obtain f pe ce k pp cp where l: "live f pe ce pp cp m" and k: "k \<le> cp div 3" and p: "pos f pe ce k []"
    using assms by (auto simp: reached_def)
  from p have "f = n \<and> pe = 3 * n \<and> ce = 3 * n \<and> k = n" by cases (simp_all add: stage_def rest_def)
  then show ?thesis using reached_end [of f pp cp m] l k assms(2) by (simp add: idle_def)
qed

end

end
