(* ===== verification/Transfer_Runs.thy ===== *)
theory Transfer_Runs
  imports Transfer_Schedules
begin

text \<open>
  The two methods of the transfer engine as instances of the pipeline contract: \<open>to_host\<close> produces on
  the kernel stream and drains every chunk, \<open>from_host\<close> produces on the copy stream and keeps up to
  three chunks in flight.  The memory after \<open>p\<close> units of the producer and \<open>c\<close> of the consumer is read
  off the sequential model of \<open>KV_Transfer\<close>: staging slots as after \<open>p\<close> chunks, the consumer's side as after \<open>c\<close>.
\<close>

subsection \<open>Slots that are not written\<close>

lemma mod3_neq: "i < k \<Longrightarrow> k < i + 3 \<Longrightarrow> k mod 3 \<noteq> i mod (3::nat)"
  by presburger

text \<open>A slot written for chunk \<open>i\<close> is as it was until chunk \<open>i + 3\<close>, if chunk \<open>k\<close> writes slot \<open>k mod 3\<close> only.\<close>

lemma slot_kept:
  fixes s :: "nat \<Rightarrow> 'a list"
  assumes "\<And>k. k < n \<Longrightarrow> \<exists>x. s (Suc k) = (s k)[k mod 3 := x]" and "i < k" and "k \<le> i + 3" and "k \<le> n"
  shows "s k ! (i mod 3) = s (Suc i) ! (i mod 3)"
proof -
  have "s (Suc i + d) ! (i mod 3) = s (Suc i) ! (i mod 3)" if "d \<le> 2" "Suc i + d \<le> n" for d
    using that
  proof (induction d)
    case 0
    then show ?case by simp
  next
    case (Suc d)
    obtain x where "s (Suc (Suc i + d)) = (s (Suc i + d))[(Suc i + d) mod 3 := x]"
      using assms(1) [of "Suc i + d"] Suc.prems by auto
    moreover have "(Suc i + d) mod 3 \<noteq> i mod 3" using mod3_neq [of i "Suc i + d"] Suc.prems by simp
    ultimately show ?case using Suc by simp
  qed
  from this [of "k - Suc i"] assms(2-4) show ?thesis by simp
qed

lemma run_invariant: "r\<^sup>*\<^sup>* a b \<Longrightarrow> I a \<Longrightarrow> (\<And>x y. I x \<Longrightarrow> r x y \<Longrightarrow> I y) \<Longrightarrow> I b"
  by (induction rule: rtranclp_induct) blast+

lemma stream_step_nonempty: "stream_step tr st m = Some m' \<Longrightarrow> queue m st \<noteq> []"
  by (auto simp: stream_step_items(1))

subsection \<open>Device to host\<close>

text \<open>The sequential model after \<open>k\<close> chunks.\<close>

definition d2h_seq :: "kv_transfer \<Rightarrow> nat list \<Rightarrow> nat \<Rightarrow> byte list list res \<times> kv_transfer" where
  "d2h_seq tr ids k = to_host_loop [0..<k] ids tr []"

lemma to_host_loop_append:
  "to_host_loop (is @ js) ids tr chunks =
     (case to_host_loop is ids tr chunks of (Inl x, t) \<Rightarrow> (Inl x, t) | (Inr cs, t) \<Rightarrow> to_host_loop js ids t cs)"
  by (induction "is" arbitrary: tr chunks) (auto simp: Let_def split: sum.splits)

lemma to_host_loop_frame:
  "to_host_loop is ids tr chunks = (r, t) \<Longrightarrow>
     kv_caches t = kv_caches tr \<and> blocks_per_chunk t = blocks_per_chunk tr \<and> block_nbytes t = block_nbytes tr
     \<and> length (staging (d2h t)) = length (staging (d2h tr))"
  by (induction "is" arbitrary: tr chunks) (auto simp: Let_def split: sum.splits)

definition d2h_work :: "kv_transfer \<Rightarrow> nat list \<Rightarrow> nat \<Rightarrow> work" where
  "d2h_work tr ids i = Gather (slice (i * blocks_per_chunk tr) ((i + 1) * blocks_per_chunk tr) ids) (i mod 3)"

lemma d2h_seq_Suc:
  assumes "d2h_seq tr ids (Suc k) = (Inr cs, t)"
  shows "\<exists>cs0 t0 slot. d2h_seq tr ids k = (Inr cs0, t0) \<and>
    gather (kv_caches tr) 0 (blocks_per_chunk tr) (block_nbytes tr)
      (slice (k * blocks_per_chunk tr) ((k + 1) * blocks_per_chunk tr) ids) (staging (d2h t0) ! (k mod 3)) = Inr slot \<and>
    staging (d2h t) = (staging (d2h t0))[k mod 3 := slot] \<and> cpu_bufs (d2h t) = (cpu_bufs (d2h t0))[k mod 3 := slot] \<and>
    cs = cs0 @ [cpu_bufs (d2h t) ! (k mod 3)]"
proof -
  obtain r t0 where k: "d2h_seq tr ids k = (r, t0)" by fastforce
  note frame = to_host_loop_frame [OF k [unfolded d2h_seq_def]]
  have step: "d2h_seq tr ids (Suc k) = (case r of Inl x \<Rightarrow> (Inl x, t0) | Inr cs \<Rightarrow> to_host_loop [k] ids t0 cs)"
    using k by (simp add: d2h_seq_def to_host_loop_append)
  with assms obtain cs0 where "r = Inr cs0" by (auto split: sum.splits)
  with assms step k frame show ?thesis by (auto simp: Let_def split: sum.splits)
qed

lemma d2h_seq_prefix:
  assumes "d2h_seq tr ids n = (Inr cs, t)" and "k \<le> n"
  shows "\<exists>cs t. d2h_seq tr ids k = (Inr cs, t)"
  using assms(2,1)
proof (induction arbitrary: cs t rule: inc_induct)
  case base
  then show ?case by blast
next
  case (step k)
  then obtain cs1 t1 where "d2h_seq tr ids (Suc k) = (Inr cs1, t1)" by blast
  with d2h_seq_Suc show ?case by blast
qed

definition d2h_ok :: "kv_transfer \<Rightarrow> nat list \<Rightarrow> nat \<Rightarrow> nat \<Rightarrow> nat \<Rightarrow> memory \<Rightarrow> bool" where
  "d2h_ok tr ids f p c M \<longleftrightarrow>
     (let n = length ids div blocks_per_chunk tr in
      (\<exists>cs t. d2h_seq tr ids n = (Inr cs, t)) \<and> length (staging (d2h tr)) = 3 \<and> length (cpu_bufs (d2h tr)) = 3
      \<and> f \<le> n \<and> p \<le> n \<and> c \<le> n
      \<and> staging (buffers M) = staging (d2h (snd (d2h_seq tr ids p)))
      \<and> cpu_bufs (buffers M) = cpu_bufs (d2h (snd (d2h_seq tr ids c)))
      \<and> caches M = kv_caches tr \<and> fst (d2h_seq tr ids f) = Inr (taken M))"

lemma d2h_seq_slots:
  assumes "d2h_seq tr ids n = (Inr cs, t)"
  shows "k < n \<Longrightarrow> \<exists>x. staging (d2h (snd (d2h_seq tr ids (Suc k)))) = (staging (d2h (snd (d2h_seq tr ids k))))[k mod 3 := x]"
    and "k < n \<Longrightarrow> \<exists>x. cpu_bufs (d2h (snd (d2h_seq tr ids (Suc k)))) = (cpu_bufs (d2h (snd (d2h_seq tr ids k))))[k mod 3 := x]"
  using d2h_seq_prefix [OF assms, of "Suc k"] d2h_seq_Suc [of tr ids k] by fastforce+

interpretation out: drain_last tr KernelStream CopyStream "d2h_work tr ids" "\<lambda>i. CopyOut (i mod 3)"
  "length ids div blocks_per_chunk tr" g "d2h_ok tr ids" "\<lambda>i. ReadBuf (i mod 3)"
  for tr ids g
proof
  show "KernelStream \<noteq> CopyStream" "KernelStream \<noteq> EngineStream" "CopyStream \<noteq> EngineStream" by simp_all
next
  let ?n = "length ids div blocks_per_chunk tr"
  fix f p c M
  assume ok: "d2h_ok tr ids f p c M" and p: "p < ?n"
  then obtain cs t where all: "d2h_seq tr ids ?n = (Inr cs, t)" by (auto simp: d2h_ok_def Let_def)
  then obtain cs1 t1 where s: "d2h_seq tr ids (Suc p) = (Inr cs1, t1)" using d2h_seq_prefix p by (metis Suc_leI)
  from d2h_seq_Suc [OF this] ok p
  show "\<exists>M'. exec_work tr (d2h_work tr ids p) M = Some M' \<and> d2h_ok tr ids f (Suc p) c M'"
    by (auto simp: d2h_ok_def Let_def d2h_work_def set_staging_def s)
next
  let ?n = "length ids div blocks_per_chunk tr"
  fix f p c M
  assume ok: "d2h_ok tr ids f p c M" and c: "c < p" "p \<le> c + 3"
  then obtain cs t where all: "d2h_seq tr ids ?n = (Inr cs, t)" and p: "p \<le> ?n"
    and three: "length (staging (d2h tr)) = 3" by (auto simp: d2h_ok_def Let_def)
  then obtain cs1 t1 where s: "d2h_seq tr ids (Suc c) = (Inr cs1, t1)"
    using d2h_seq_prefix [OF all, of "Suc c"] c by auto
  have "staging (d2h (snd (d2h_seq tr ids p))) ! (c mod 3) = staging (d2h t1) ! (c mod 3)"
    using slot_kept [of ?n "\<lambda>k. staging (d2h (snd (d2h_seq tr ids k)))" c p] d2h_seq_slots(1) [OF all] c p
    by (simp add: s)
  moreover have "length (staging (d2h (snd (d2h_seq tr ids c)))) = 3"
    using to_host_loop_frame [of "[0..<c]" ids tr "[]"] three unfolding d2h_seq_def by (metis prod.collapse)
  ultimately show "\<exists>M'. exec_work tr (CopyOut (c mod 3)) M = Some M' \<and> d2h_ok tr ids f p (Suc c) M'"
    using d2h_seq_Suc [OF s] ok c by (auto simp: d2h_ok_def Let_def set_cpu_buf_def s)
next
  let ?n = "length ids div blocks_per_chunk tr"
  fix i p M
  assume ok: "d2h_ok tr ids i p (Suc i) M"
  then obtain cs t where all: "d2h_seq tr ids ?n = (Inr cs, t)" and i: "Suc i \<le> ?n" by (auto simp: d2h_ok_def Let_def)
  then obtain cs1 t1 where s: "d2h_seq tr ids (Suc i) = (Inr cs1, t1)" using d2h_seq_prefix by blast
  from d2h_seq_Suc [OF this] ok i
  show "\<exists>M'. do_op tr (ReadBuf (i mod 3)) M = Inr M' \<and> d2h_ok tr ids (Suc i) p (Suc i) M'"
    by (auto simp: d2h_ok_def Let_def s)
qed

text \<open>The program of \<open>to_host\<close> is the one of the contract, after the device has been synchronised.\<close>

lemma to_host_program_rest: "to_host_program tr ids = SyncDevice # out.rest tr ids 0"
proof -
  have "to_host_cmds tr ids = out.cmds tr ids"
    by (rule ext) (simp add: to_host_cmds_def out.cmds_def out.stage_def d2h_work_def Let_def)
  then show ?thesis by (simp add: to_host_program_def out.rest_def)
qed

text \<open>Before that, only the kernels of the engine run.\<close>

definition engine_first :: "kv_transfer \<Rightarrow> nat list \<Rightarrow> (dev_event \<Rightarrow> nat) \<Rightarrow> machine \<Rightarrow> bool" where
  "engine_first tr ids g m \<longleftrightarrow> todo m = to_host_program tr ids
     \<and> queue m KernelStream = [] \<and> queue m CopyStream = []
     \<and> (\<exists>fs. queue m EngineStream = map (\<lambda>f. Work (Engine f)) fs \<and> fold (\<lambda>f las. f las) fs (caches (mem m)) = kv_caches tr)
     \<and> recorded m = g \<and> fired m = g \<and> raised m = None \<and> buffers (mem m) = d2h tr \<and> taken (mem m) = []"

lemma engine_first_step:
  assumes e: "engine_first tr ids g m" and s: "mstep tr m m'"
    and ok: "\<exists>cs t. d2h_seq tr ids (length ids div blocks_per_chunk tr) = (Inr cs, t)"
    and three: "length (staging (d2h tr)) = 3" "length (cpu_bufs (d2h tr)) = 3"
  shows "engine_first tr ids g m' \<or> out.reached tr ids g (out.pos tr ids) m'"
  using s
proof (cases rule: mstep.cases)
  case host
  then have q: "queue m EngineStream = []" and m': "m' = m\<lparr>todo := out.rest tr ids 0\<rparr>"
    using e by (auto simp: engine_first_def host_step_def to_host_program_rest split: if_splits)
  have "caches (mem m) = kv_caches tr" using e q by (auto simp: engine_first_def)
  then have "d2h_ok tr ids 0 0 0 (mem m)" using e ok three by (simp add: d2h_ok_def d2h_seq_def Let_def engine_first_def)
  moreover have "queue m st = []" for st using e q by (cases st) (simp_all add: engine_first_def)
  ultimately have "out.live tr ids g 0 0 0 0 0 m'"
    using e by (intro out.boot_live) (simp_all add: m' engine_first_def)
  then show ?thesis using out.reachedI [of _ _ _ 0 0 0 0 0 m' 0] out.pos_rest [of 0] m' by simp
next
  case (device st)
  then have st: "st = EngineStream" using e stream_step_nonempty by (cases st) (auto simp: engine_first_def)
  obtain fs where fs: "queue m EngineStream = map (\<lambda>f. Work (Engine f)) fs"
    and kv: "fold (\<lambda>f las. f las) fs (caches (mem m)) = kv_caches tr" using e by (auto simp: engine_first_def)
  have "fs \<noteq> []" using stream_step_nonempty [OF device] st fs by simp
  then obtain f fs' where "fs = f # fs'" by (auto simp: neq_Nil_conv)
  with st fs kv have "st = EngineStream" "queue m EngineStream = Work (Engine f) # map (\<lambda>f. Work (Engine f)) fs'"
    and "fold (\<lambda>f las. f las) fs' (f (caches (mem m))) = kv_caches tr" by simp_all
  then show ?thesis using e device by (auto simp: engine_first_def stream_step_items(3))
qed

lemma engine_first_progress: "engine_first tr ids g m \<Longrightarrow> \<exists>m'. mstep tr m m'"
proof -
  assume e: "engine_first tr ids g m"
  then obtain fs where fs: "queue m EngineStream = map (\<lambda>f. Work (Engine f)) fs" by (auto simp: engine_first_def)
  show ?thesis
  proof (cases fs)
    case Nil
    then have "host_step tr m = Some (m\<lparr>todo := out.rest tr ids 0\<rparr>)"
      using e fs by (simp add: engine_first_def host_step_def to_host_program_rest)
    then show ?thesis by (auto intro: mstep.host)
  next
    case (Cons f fs')
    then have "\<exists>m'. stream_step tr EngineStream m = Some m'"
      using fs stream_step_items(3) [of m EngineStream] by simp
    then show ?thesis by (auto intro: mstep.device)
  qed
qed

lemma to_host_pending:
  "pending (boot (to_host_program tr ids) engine g p kv) = 16 * (length ids div blocks_per_chunk tr) + 2 + length engine"
proof -
  have "length (concat (map (to_host_cmds tr ids) [0..<n])) = 8 * n" for n
    by (induction n) (simp_all add: to_host_cmds_def Let_def)
  then show ?thesis by (simp add: pending_def boot_def to_host_program_def)
qed

lemma to_host_runs:
  assumes res: "to_host ids tr = (Inr chunks, tr')"
    and three: "length (staging (d2h tr)) = 3" "length (cpu_bufs (d2h tr)) = 3"
    and kv: "fold (\<lambda>f las. f las) engine kv = kv_caches tr"
    and run: "(mstep tr ^^ k) (boot (to_host_program tr ids) engine g (d2h tr) kv) m"
  shows "k \<le> 16 * (length ids div blocks_per_chunk tr) + 2 + length engine
    \<and> (todo m \<noteq> [] \<longrightarrow> (\<exists>m'. mstep tr m m'))
    \<and> (todo m = [] \<longrightarrow> idle m \<and> raised m = None \<and> taken (mem m) = chunks
         \<and> buffers (mem m) = d2h tr' \<and> caches (mem m) = kv_caches tr')"
proof -
  let ?n = "length ids div blocks_per_chunk tr"
  have seq: "d2h_seq tr ids ?n = (Inr chunks, tr')"
    using res by (simp add: to_host_def d2h_seq_def split: if_splits)
  let ?I = "\<lambda>m. engine_first tr ids g m \<or> out.reached tr ids g (out.pos tr ids) m"
  have "engine_first tr ids g (boot (to_host_program tr ids) engine g (d2h tr) kv)"
    using kv by (auto simp: engine_first_def boot_def)
  moreover have "?I m'" if "?I m" "mstep tr m m'" for m m'
    using that engine_first_step [OF _ that(2)] seq three out.reached_run [of tr m m' ids g]
    by (auto intro: r_into_rtranclp)
  moreover have "(mstep tr)\<^sup>*\<^sup>* (boot (to_host_program tr ids) engine g (d2h tr) kv) m"
    using run by (rule relpowp_imp_rtranclp)
  ultimately have inv: "?I m" using run_invariant [of "mstep tr" _ m ?I] by blast
  have "k \<le> 16 * ?n + 2 + length engine"
    using runs_are_bounded [OF run] by (simp add: to_host_pending)
  moreover have "todo m \<noteq> [] \<longrightarrow> (\<exists>m'. mstep tr m m')"
    using inv engine_first_progress out.reached_progress [of tr ids g m] unfolding idle_def by blast
  moreover have "idle m \<and> raised m = None \<and> taken (mem m) = chunks \<and> buffers (mem m) = d2h tr' \<and> caches (mem m) = kv_caches tr'"
    if "todo m = []"
  proof -
    have "out.reached tr ids g (out.pos tr ids) m"
      using inv that by (auto simp: engine_first_def to_host_program_rest)
    from out.reached_result [OF this that]
    have "idle m" "raised m = None" "d2h_ok tr ids ?n ?n ?n (mem m)" by auto
    then show ?thesis using seq to_host_loop_frame [OF seq [unfolded d2h_seq_def]]
      by (simp add: d2h_ok_def Let_def)
  qed
  ultimately show ?thesis by blast
qed

subsection \<open>Host to device\<close>

definition h2d_seq :: "kv_transfer \<Rightarrow> byte list list \<Rightarrow> nat list \<Rightarrow> nat \<Rightarrow> nat \<Rightarrow> unit res \<times> kv_transfer" where
  "h2d_seq tr chunks ids skip k = from_host_loop (take k chunks) 0 ids skip tr"

lemma from_host_loop_append:
  "from_host_loop (xs @ ys) i ids skip tr =
     (case from_host_loop xs i ids skip tr of
        (Inl x, t) \<Rightarrow> (Inl x, t) | (Inr _, t) \<Rightarrow> from_host_loop ys (i + length xs) ids skip t)"
  by (induction xs arbitrary: i tr) (auto simp: Let_def split: sum.splits prod.splits)

lemma from_host_loop_frame:
  "from_host_loop xs i ids skip tr = (r, t) \<Longrightarrow> blocks_per_chunk t = blocks_per_chunk tr
     \<and> block_nbytes t = block_nbytes tr \<and> chunk_nbytes t = chunk_nbytes tr
     \<and> length (staging (h2d t)) = length (staging (h2d tr)) \<and> length (cpu_bufs (h2d t)) = length (cpu_bufs (h2d tr))"
  by (induction xs arbitrary: i tr) (auto simp: Let_def split: sum.splits prod.splits)

definition h2d_skip :: "nat \<Rightarrow> nat \<Rightarrow> nat" where
  "h2d_skip skip i = (if i = 0 then skip else 0)"

definition h2d_ids :: "kv_transfer \<Rightarrow> nat list \<Rightarrow> nat \<Rightarrow> nat \<Rightarrow> nat list" where
  "h2d_ids tr ids skip i = slice (i * blocks_per_chunk tr + h2d_skip skip i) ((i + 1) * blocks_per_chunk tr) ids"

definition h2d_work :: "kv_transfer \<Rightarrow> nat list \<Rightarrow> nat \<Rightarrow> nat \<Rightarrow> work" where
  "h2d_work tr ids skip i = Scatter (h2d_ids tr ids skip i) (h2d_skip skip i) (i mod 3)"

lemma h2d_seq_Suc:
  assumes "h2d_seq tr chunks ids skip (Suc k) = (Inr (), t)" and "k < length chunks"
    and three: "length (staging (h2d tr)) = 3"
  shows "\<exists>t0 bytes. h2d_seq tr chunks ids skip k = (Inr (), t0) \<and> fill_buf (chunk_nbytes tr) (chunks ! k) = Inr bytes \<and>
    staging (h2d t) = (staging (h2d t0))[k mod 3 := bytes] \<and> cpu_bufs (h2d t) = (cpu_bufs (h2d t0))[k mod 3 := bytes] \<and>
    scatter (kv_caches t0) 0 (blocks_per_chunk tr) (block_nbytes tr) (h2d_ids tr ids skip k) (h2d_skip skip k) bytes []
      = (Inr (), kv_caches t)"
proof -
  obtain r t0 where k: "h2d_seq tr chunks ids skip k = (r, t0)" by fastforce
  note frame = from_host_loop_frame [OF k [unfolded h2d_seq_def]]
  have "take (Suc k) chunks = take k chunks @ [chunks ! k]" "length (take k chunks) = k"
    using assms(2) by (simp_all add: take_Suc_conv_app_nth)
  then have step: "h2d_seq tr chunks ids skip (Suc k) =
      (case r of Inl x \<Rightarrow> (Inl x, t0) | Inr _ \<Rightarrow> from_host_loop [chunks ! k] k ids skip t0)"
    using k by (simp only: h2d_seq_def from_host_loop_append prod.case add_0)
  with assms(1) have r: "r = Inr ()" by (auto split: sum.splits)
  have "length (staging (h2d t0)) = 3" using frame three by simp
  with assms(1) step r frame k show ?thesis
    by (auto simp: Let_def h2d_ids_def h2d_skip_def split: sum.splits prod.splits)
qed

lemma h2d_seq_prefix:
  assumes "h2d_seq tr chunks ids skip (length chunks) = (Inr (), t)" and "length (staging (h2d tr)) = 3" and "k \<le> length chunks"
  shows "\<exists>t. h2d_seq tr chunks ids skip k = (Inr (), t)"
  using assms(3,1)
proof (induction arbitrary: t rule: inc_induct)
  case base
  then show ?case by blast
next
  case (step k)
  then obtain t1 where "h2d_seq tr chunks ids skip (Suc k) = (Inr (), t1)" by blast
  with h2d_seq_Suc step.hyps assms(2) show ?case by blast
qed

definition h2d_ok :: "kv_transfer \<Rightarrow> byte list list \<Rightarrow> nat list \<Rightarrow> nat \<Rightarrow> nat \<Rightarrow> nat \<Rightarrow> nat \<Rightarrow> memory \<Rightarrow> bool" where
  "h2d_ok tr chunks ids skip f p c M \<longleftrightarrow>
     (let n = length chunks in
      (\<exists>t. h2d_seq tr chunks ids skip n = (Inr (), t)) \<and> length (staging (h2d tr)) = 3 \<and> length (cpu_bufs (h2d tr)) = 3
      \<and> f \<le> n \<and> p \<le> n \<and> c \<le> n
      \<and> staging (buffers M) = staging (h2d (snd (h2d_seq tr chunks ids skip p)))
      \<and> cpu_bufs (buffers M) = cpu_bufs (h2d (snd (h2d_seq tr chunks ids skip f)))
      \<and> caches M = kv_caches (snd (h2d_seq tr chunks ids skip c)) \<and> taken M = [])"

lemma h2d_seq_slots:
  assumes "h2d_seq tr chunks ids skip (length chunks) = (Inr (), t)" and "length (staging (h2d tr)) = 3" and "k < length chunks"
  shows "\<exists>x. staging (h2d (snd (h2d_seq tr chunks ids skip (Suc k)))) = (staging (h2d (snd (h2d_seq tr chunks ids skip k))))[k mod 3 := x]"
    and "\<exists>x. cpu_bufs (h2d (snd (h2d_seq tr chunks ids skip (Suc k)))) = (cpu_bufs (h2d (snd (h2d_seq tr chunks ids skip k))))[k mod 3 := x]"
  using h2d_seq_prefix [OF assms(1,2), of "Suc k"] h2d_seq_Suc [of tr chunks ids skip k, OF _ assms(3,2)] assms(3) by fastforce+

lemma h2d_slots_length:
  "length (staging (h2d (snd (h2d_seq tr chunks ids skip k)))) = length (staging (h2d tr))"
  "length (cpu_bufs (h2d (snd (h2d_seq tr chunks ids skip k)))) = length (cpu_bufs (h2d tr))"
  using from_host_loop_frame [of "take k chunks" 0 ids skip tr] unfolding h2d_seq_def by (metis prod.collapse)+

interpretation into: fill_first tr CopyStream KernelStream "\<lambda>i. CopyIn (i mod 3)" "h2d_work tr ids skip"
  "length chunks" g "h2d_ok tr chunks ids skip" "\<lambda>i. FillBuf (i mod 3) (chunks ! i)"
  for tr chunks ids skip g
proof
  show "CopyStream \<noteq> KernelStream" "CopyStream \<noteq> EngineStream" "KernelStream \<noteq> EngineStream" by simp_all
next
  fix f p c M
  assume ok: "h2d_ok tr chunks ids skip f p c M" and p: "p < length chunks" and c: "c \<le> p" "f \<le> c + 3" and f: "True \<Longrightarrow> p < f"
  from ok obtain t where all: "h2d_seq tr chunks ids skip (length chunks) = (Inr (), t)" and fn: "f \<le> length chunks"
    and three: "length (staging (h2d tr)) = 3" "length (cpu_bufs (h2d tr)) = 3" by (auto simp: h2d_ok_def Let_def)
  then obtain t1 where s: "h2d_seq tr chunks ids skip (Suc p) = (Inr (), t1)" using h2d_seq_prefix p by (metis Suc_leI)
  have "cpu_bufs (h2d (snd (h2d_seq tr chunks ids skip f))) ! (p mod 3) = cpu_bufs (h2d t1) ! (p mod 3)"
    using slot_kept [of "length chunks" "\<lambda>k. cpu_bufs (h2d (snd (h2d_seq tr chunks ids skip k)))" p f]
      h2d_seq_slots(2) [OF all three(1)] c f fn by (simp add: s)
  then show "\<exists>M'. exec_work tr (CopyIn (p mod 3)) M = Some M' \<and> h2d_ok tr chunks ids skip f (Suc p) c M'"
    using h2d_seq_Suc [OF s p three(1)] ok p h2d_slots_length(2) [of tr chunks ids skip p] three
    by (auto simp: h2d_ok_def Let_def set_staging_def s)
next
  fix f p c M
  assume ok: "h2d_ok tr chunks ids skip f p c M" and c: "c < p" "p \<le> c + 3"
  from ok obtain t where all: "h2d_seq tr chunks ids skip (length chunks) = (Inr (), t)" and p: "p \<le> length chunks"
    and three: "length (staging (h2d tr)) = 3" by (auto simp: h2d_ok_def Let_def)
  then obtain t1 where s: "h2d_seq tr chunks ids skip (Suc c) = (Inr (), t1)"
    using h2d_seq_prefix [OF all three, of "Suc c"] c by auto
  have "staging (h2d (snd (h2d_seq tr chunks ids skip p))) ! (c mod 3) = staging (h2d t1) ! (c mod 3)"
    using slot_kept [of "length chunks" "\<lambda>k. staging (h2d (snd (h2d_seq tr chunks ids skip k)))" c p]
      h2d_seq_slots(1) [OF all three] c p by (simp add: s)
  then show "\<exists>M'. exec_work tr (h2d_work tr ids skip c) M = Some M' \<and> h2d_ok tr chunks ids skip f p (Suc c) M'"
    using h2d_seq_Suc [OF s _ three] ok c p h2d_slots_length(1) [of tr chunks ids skip c] three
    by (auto simp: h2d_ok_def Let_def h2d_work_def s)
next
  fix i p c M
  assume ok: "h2d_ok tr chunks ids skip i p c M" and i: "i < length chunks"
  from ok obtain t where all: "h2d_seq tr chunks ids skip (length chunks) = (Inr (), t)"
    and three: "length (staging (h2d tr)) = 3" by (auto simp: h2d_ok_def Let_def)
  then obtain t1 where s: "h2d_seq tr chunks ids skip (Suc i) = (Inr (), t1)"
    using h2d_seq_prefix [OF all three, of "Suc i"] i by auto
  from h2d_seq_Suc [OF this i three] ok i
  show "\<exists>M'. do_op tr (FillBuf (i mod 3) (chunks ! i)) M = Inr M' \<and> h2d_ok tr chunks ids skip (Suc i) p c M'"
    by (auto simp: h2d_ok_def Let_def set_cpu_buf_def s)
qed

lemma from_host_program_rest: "from_host_program tr chunks ids skip = into.rest tr ids skip chunks 0"
proof -
  have "from_host_cmds tr chunks ids skip = into.cmds tr ids skip chunks"
    by (rule ext) (simp add: from_host_cmds_def into.cmds_def into.stage_def h2d_work_def h2d_ids_def h2d_skip_def Let_def)
  then show ?thesis by (simp add: from_host_program_def into.rest_def)
qed

lemma from_host_pending: "pending (boot (from_host_program tr chunks ids skip) [] g p kv) \<le> 16 * length chunks + 2"
proof -
  have "length (concat (map (from_host_cmds tr chunks ids skip) [0..<n])) \<le> 8 * n" for n
    by (induction n) (simp_all add: from_host_cmds_def Let_def)
  from this [of "length chunks"] show ?thesis by (simp add: pending_def boot_def from_host_program_def)
qed

lemma from_host_runs:
  assumes res: "from_host chunks ids skip tr = (Inr (), tr')"
    and three: "length (staging (h2d tr)) = 3" "length (cpu_bufs (h2d tr)) = 3"
    and run: "(mstep tr ^^ k) (boot (from_host_program tr chunks ids skip) [] g (h2d tr) (kv_caches tr)) m"
  shows "k \<le> 16 * length chunks + 2
    \<and> (todo m \<noteq> [] \<longrightarrow> (\<exists>m'. mstep tr m m'))
    \<and> (todo m = [] \<longrightarrow> idle m \<and> raised m = None \<and> caches (mem m) = kv_caches tr' \<and> buffers (mem m) = h2d tr')"
proof -
  let ?n = "length chunks" and ?start = "boot (from_host_program tr chunks ids skip) [] g (h2d tr) (kv_caches tr)"
  have seq: "h2d_seq tr chunks ids skip ?n = (Inr (), tr')"
    using res by (simp add: from_host_def h2d_seq_def split: if_splits)
  have "into.live tr ids skip chunks g 0 0 0 0 0 ?start"
    using seq three by (intro into.boot_live) (simp_all add: boot_def h2d_ok_def Let_def h2d_seq_def)
  then have "into.reached tr ids skip chunks g (into.pos tr ids skip chunks) ?start"
    using into.reachedI [of _ _ _ _ _ 0 0 0 0 0 ?start 0] into.pos_rest [of 0]
    by (simp add: boot_def from_host_program_rest)
  with into.reached_run relpowp_imp_rtranclp [OF run]
  have inv: "into.reached tr ids skip chunks g (into.pos tr ids skip chunks) m" by blast
  have "k \<le> 16 * ?n + 2"
    using runs_are_bounded [OF run] from_host_pending le_trans by fastforce
  moreover have "todo m \<noteq> [] \<longrightarrow> (\<exists>m'. mstep tr m m')"
    using into.reached_progress [OF inv] unfolding idle_def by blast
  moreover have "idle m \<and> raised m = None \<and> caches (mem m) = kv_caches tr' \<and> buffers (mem m) = h2d tr'" if "todo m = []"
    using into.reached_result [OF inv that] seq by (simp add: h2d_ok_def Let_def)
  ultimately show ?thesis by blast
qed

subsection \<open>Schedules\<close>

text \<open>
  A schedule names who is to move next, the host (\<open>None\<close>) or a stream; who cannot move is passed over.
\<close>

fun follow :: "kv_transfer \<Rightarrow> stream option list \<Rightarrow> machine \<Rightarrow> machine" where
  "follow tr [] m = m"
| "follow tr (x # xs) m =
     follow tr xs (case (case x of None \<Rightarrow> host_step tr m | Some st \<Rightarrow> stream_step tr st m) of
                     None \<Rightarrow> m | Some m' \<Rightarrow> m')"

lemma follow_run: "\<exists>k. (mstep tr ^^ k) m (follow tr xs m)"
proof (induction xs arbitrary: m)
  case Nil
  then show ?case by (auto intro: exI [of _ 0])
next
  case (Cons x xs)
  let ?o = "case x of None \<Rightarrow> host_step tr m | Some st \<Rightarrow> stream_step tr st m"
  show ?case
  proof (cases ?o)
    case None
    with Cons show ?thesis by simp
  next
    case (Some m')
    then have "mstep tr m m'" by (cases x) (auto intro: mstep.intros)
    moreover obtain k where "(mstep tr ^^ k) m' (follow tr xs m')" using Cons by blast
    ultimately have "(mstep tr ^^ Suc k) m (follow tr xs m')" by (rule relpowp_Suc_I2)
    moreover have "follow tr (x # xs) m = follow tr xs m'" using Some by simp
    ultimately show ?thesis by metis
  qed
qed

subsection \<open>Properties\<close>

text \<open>
  C6. Loading is correct under every schedule of the device.  Whenever the sequential model of
  \<open>from_host\<close> succeeds, every run of the program it enqueues is finite, never gets stuck before the host is done, and once
  \<open>from_host\<close> returns nothing is under way any more, no call has failed and the KV cache and the
  buffers are those of the sequential model, however the copy stream and the kernel stream were
  interleaved and whatever the event counts were before.
\<close>

theorem from_host_any_schedule:
  assumes "from_host chunks ids skip tr = (Inr (), tr')"
    and "length (staging (h2d tr)) = 3" and "length (cpu_bufs (h2d tr)) = 3"
    and "(mstep tr ^^ k) (boot (from_host_program tr chunks ids skip) [] g (h2d tr) (kv_caches tr)) m"
  shows "k \<le> 16 * length chunks + 2
    \<and> (todo m \<noteq> [] \<longrightarrow> (\<exists>m'. mstep tr m m'))
    \<and> (todo m = [] \<longrightarrow> idle m \<and> raised m = None \<and> caches (mem m) = kv_caches tr' \<and> buffers (mem m) = h2d tr')"
  using assms by (rule from_host_runs)

text \<open>
  Four chunks, so that the first slot is used twice; the host runs ahead of the copies and the
  copies run ahead of the kernels as far as they can.
\<close>

definition demo_chunks :: "byte list list" where
  "demo_chunks = [[1, 2, 3, 4], [5, 6, 7, 8], [9, 10, 11, 12], [13, 14, 15, 16]]"

definition demo_dst :: kv_transfer where
  "demo_dst = demo_tr (replicate 8 [70]) (replicate 8 [80])"

definition demo_schedule :: "stream option list" where
  "demo_schedule = concat (replicate 4 (replicate 30 None @ replicate 9 (Some CopyStream) @ replicate 4 (Some KernelStream)))"

lemma from_host_any_schedule_witness:
  "map blocks (caches (mem (follow demo_dst demo_schedule
     (boot (from_host_program demo_dst demo_chunks [0, 1, 2, 3, 4, 5, 6, 7] 1) [] (\<lambda>_. 0) (h2d demo_dst) (kv_caches demo_dst))))) =
   [[[70], [2], [5], [6], [9], [10], [13], [14]], [[80], [4], [7], [8], [11], [12], [15], [16]]]"
proof -
  let ?start = "boot (from_host_program demo_dst demo_chunks [0, 1, 2, 3, 4, 5, 6, 7] 1) [] (\<lambda>_. 0) (h2d demo_dst) (kv_caches demo_dst)"
  let ?m = "follow demo_dst demo_schedule ?start" and ?r = "from_host demo_chunks [0, 1, 2, 3, 4, 5, 6, 7] 1 demo_dst"
  have "fst ?r = Inr ()" and res: "map blocks (kv_caches (snd ?r)) =
      [[[70], [2], [5], [6], [9], [10], [13], [14]], [[80], [4], [7], [8], [11], [12], [15], [16]]]"
    by code_simp+
  then have run: "?r = (Inr (), snd ?r)" by (metis prod.collapse)
  obtain k where k: "(mstep demo_dst ^^ k) ?start ?m" using follow_run by blast
  have "length (staging (h2d demo_dst)) = 3" "length (cpu_bufs (h2d demo_dst)) = 3"
    by (simp_all add: demo_dst_def demo_tr_def)
  moreover have "todo ?m = []" by code_simp
  ultimately show ?thesis using from_host_any_schedule [OF run _ _ k] res by simp
qed

text \<open>
  C24. Saving is correct under every schedule of the device.  With any kernels of the engine still
  queued when \<open>to_host\<close> is called, every run is finite and never stuck, and the chunks returned are those
  the sequential model takes from the KV cache as those kernels leave it; nothing is under way
  when the call returns.
\<close>

theorem to_host_any_schedule:
  assumes "to_host ids tr = (Inr chunks, tr')"
    and "length (staging (d2h tr)) = 3" and "length (cpu_bufs (d2h tr)) = 3"
    and "fold (\<lambda>f las. f las) engine kv = kv_caches tr"
    and "(mstep tr ^^ k) (boot (to_host_program tr ids) engine g (d2h tr) kv) m"
  shows "k \<le> 16 * (length ids div blocks_per_chunk tr) + 2 + length engine
    \<and> (todo m \<noteq> [] \<longrightarrow> (\<exists>m'. mstep tr m m'))
    \<and> (todo m = [] \<longrightarrow> idle m \<and> raised m = None \<and> taken (mem m) = chunks
         \<and> buffers (mem m) = d2h tr' \<and> caches (mem m) = kv_caches tr')"
  using assms by (rule to_host_runs)

text \<open>Two blocks are saved while the kernel that fills the first layer is still queued.\<close>

definition late_kernel :: "layer list \<Rightarrow> layer list" where
  "late_kernel las = kv_caches (demo_tr [[1], [2], [3]] [[4], [5], [6]])"

lemma to_host_any_schedule_witness:
  "taken (mem (follow (demo_tr [[1], [2], [3]] [[4], [5], [6]])
     (concat (replicate 20 [None, Some KernelStream, None, Some CopyStream, Some EngineStream]))
     (boot (to_host_program (demo_tr [[1], [2], [3]] [[4], [5], [6]]) [2, 0]) [late_kernel] (\<lambda>_. 5)
        (d2h (demo_tr [] [])) (kv_caches (demo_tr [[0], [0], [0]] [[4], [5], [6]]))))) = [[3, 1, 6, 4]]"
proof -
  let ?tr = "demo_tr [[1], [2], [3]] [[4], [5], [6]]" and ?kv = "kv_caches (demo_tr [[0], [0], [0]] [[4], [5], [6]])"
  let ?start = "boot (to_host_program ?tr [2, 0]) [late_kernel] (\<lambda>_. 5) (d2h ?tr) ?kv"
  let ?m = "follow ?tr (concat (replicate 20 [None, Some KernelStream, None, Some CopyStream, Some EngineStream])) ?start"
  have "fst (to_host [2, 0] ?tr) = Inr [[3, 1, 6, 4]]" by code_simp
  then have res: "to_host [2, 0] ?tr = (Inr [[3, 1, 6, 4]], snd (to_host [2, 0] ?tr))" by (metis prod.collapse)
  obtain k where k: "(mstep ?tr ^^ k) ?start ?m" using follow_run by blast
  have "length (staging (d2h ?tr)) = 3" "length (cpu_bufs (d2h ?tr)) = 3" "d2h (demo_tr [] []) = d2h ?tr"
    "fold (\<lambda>f las. f las) [late_kernel] ?kv = kv_caches ?tr"
    by (simp_all add: demo_tr_def late_kernel_def)
  moreover have "todo ?m = []" by code_simp
  ultimately show ?thesis using to_host_any_schedule [OF res _ _ _ k] by simp
qed

subsection \<open>An aborted load\<close>

text \<open>
  \<open>from_host\<close> gives the pipeline's lock back without waiting when a chunk has the wrong length.  Its first
  chunk can then still be in the copy queue when the next \<open>from_host\<close> refills the host buffer, which it does
  without waiting for its first three chunks: the blocks of the first request get the bytes of the second.
\<close>

lemma aborted_load_races:
  "let tr = demo_dst;
       m1 = follow tr (replicate 20 None)
         (boot (from_host_program tr [[1, 2, 3, 4], []] [0, 1, 2, 3] 0) [] (\<lambda>_. 0) (h2d tr) (kv_caches tr));
       m2 = follow tr (concat (replicate 40 [None, None, None, Some CopyStream, Some KernelStream]))
         (m1\<lparr>todo := from_host_program tr [[9, 9, 9, 9]] [4, 5] 0, raised := None\<rparr>)
   in raised m1 = Some ValueError \<and> todo m1 = [] \<and> queue m1 CopyStream \<noteq> []
      \<and> todo m2 = [] \<and> map (\<lambda>la. take 2 (blocks la)) (caches (mem m2)) = [[[9], [9]], [[9], [9]]]"
  by code_simp

end
