(* ===== verification/KV_Format.thy ===== *)
theory KV_Format
  imports Prelude
begin

text \<open>
  KV cache layouts of \<open>mini_llmcache/l0/kv_format.py\<close>.  A tensor is its shape and its
  elements by index; \<open>movedim(1, 0)\<close> is the view with the first two indices exchanged.
\<close>

datatype GPUKVFormat = FA_BLOCK_FIRST | FA_KV_FIRST | FA_SPLIT | MLA

fun format_name :: "GPUKVFormat \<Rightarrow> string" where
  "format_name FA_BLOCK_FIRST = ''NL_X_NB_TWO_BS_NH_HS''"
| "format_name FA_KV_FIRST = ''NL_X_TWO_NB_BS_NH_HS''"
| "format_name FA_SPLIT = ''NL_X_NB_BS_NH_HS''"
| "format_name MLA = ''NL_X_NB_BS_HS''"

definition detect :: "nat list \<Rightarrow> nat option \<Rightarrow> GPUKVFormat res" where
  "detect shape num_blocks =
     (if length shape = 5 \<and> shape ! 1 = 2 \<and> (num_blocks = None \<or> num_blocks = Some (shape ! 0))
      then Inr FA_BLOCK_FIRST
      else if length shape = 5 \<and> shape ! 0 = 2 then Inr FA_KV_FIRST
      else if length shape = 4 then Inr FA_SPLIT
      else if length shape = 3 \<and> (num_blocks = None \<or> num_blocks = Some (shape ! 0)) then Inr MLA
      else Inl ValueError)"

record 'a tensor =
  t_shape :: "nat list"
  t_elem :: "nat list \<Rightarrow> 'a"

fun swap01 :: "'b list \<Rightarrow> 'b list" where
  "swap01 (a # b # rest) = b # a # rest"
| "swap01 xs = xs"

text \<open>Only used on tensors of five dimensions; a tensor with fewer than two has no dimension 1.\<close>

definition movedim10 :: "'a tensor \<Rightarrow> 'a tensor res" where
  "movedim10 t =
     (if length (t_shape t) < 2 then Inl IndexError
      else Inr \<lparr>t_shape = swap01 (t_shape t), t_elem = (\<lambda>ix. t_elem t (swap01 ix))\<rparr>)"

fun movedims :: "'a tensor list \<Rightarrow> 'a tensor list res" where
  "movedims [] = Inr []"
| "movedims (t # ts) =
     (case movedim10 t of
        Inl x \<Rightarrow> Inl x
      | Inr t' \<Rightarrow> (case movedims ts of Inl x \<Rightarrow> Inl x | Inr ts' \<Rightarrow> Inr (t' # ts')))"

definition normalize :: "'a tensor list \<Rightarrow> nat option \<Rightarrow> 'a tensor list res" where
  "normalize tensors num_blocks =
     (if tensors = [] then Inl IndexError
      else case detect (t_shape (hd tensors)) num_blocks of
             Inl x \<Rightarrow> Inl x
           | Inr fmt \<Rightarrow> (if fmt = FA_KV_FIRST then movedims tensors else Inr tensors))"

subsection \<open>Lemmas\<close>

lemma swap01_swap01 [simp]: "swap01 (swap01 xs) = xs"
  by (cases xs rule: swap01.cases) auto

lemma length_swap01 [simp]: "length (swap01 xs) = length xs"
  by (cases xs rule: swap01.cases) auto

lemma movedims_ok:
  "(\<forall>t \<in> set ts. 2 \<le> length (t_shape t)) \<Longrightarrow>
   movedims ts = Inr (map (\<lambda>t. \<lparr>t_shape = swap01 (t_shape t), t_elem = (\<lambda>ix. t_elem t (swap01 ix))\<rparr>) ts)"
  by (induction ts) (auto simp: movedim10_def)

subsection \<open>The logical cache\<close>

text \<open>
  The logical content of a layer: the element at (block, K or V, rest).  \<open>holds_layer fmt NB rest c t\<close>
  says that the tensor \<open>t\<close> stores it in the layout \<open>fmt\<close>, for the layouts with K and V in one
  tensor; \<open>padded\<close> blocks may follow the \<open>NB\<close> blocks of the engine.
\<close>

definition block_first :: "nat \<Rightarrow> nat list \<Rightarrow> (nat \<Rightarrow> nat \<Rightarrow> nat list \<Rightarrow> 'a) \<Rightarrow> 'a tensor \<Rightarrow> bool" where
  "block_first NB rest c t \<longleftrightarrow> t_shape t = NB # 2 # rest \<and> (\<forall>b kv ix. t_elem t (b # kv # ix) = c b kv ix)"

definition kv_first :: "nat \<Rightarrow> nat list \<Rightarrow> (nat \<Rightarrow> nat \<Rightarrow> nat list \<Rightarrow> 'a) \<Rightarrow> 'a tensor \<Rightarrow> bool" where
  "kv_first NB rest c t \<longleftrightarrow> t_shape t = 2 # NB # rest \<and> (\<forall>b kv ix. t_elem t (kv # b # ix) = c b kv ix)"

lemma normalize_layouts:
  assumes "length rest = 3" and "NB \<noteq> 2" and "ts \<noteq> []"
  shows "list_all2 (kv_first NB rest) cs ts \<Longrightarrow>
      \<exists>ts'. normalize ts num_blocks = Inr ts' \<and> list_all2 (block_first NB rest) cs ts'"
    and "list_all2 (block_first NB rest) cs ts \<Longrightarrow> num_blocks = None \<or> num_blocks = Some NB \<Longrightarrow>
      normalize ts num_blocks = Inr ts"
proof -
  assume kv: "list_all2 (kv_first NB rest) cs ts"
  have sh: "\<forall>t \<in> set ts. t_shape t = 2 # NB # rest"
    using kv by (auto simp: list_all2_conv_all_nth in_set_conv_nth kv_first_def)
  then have hd: "t_shape (hd ts) = 2 # NB # rest" using assms(3) by simp
  have d: "detect (t_shape (hd ts)) num_blocks = Inr FA_KV_FIRST"
    unfolding hd using assms(1,2) by (simp add: detect_def)
  have mv: "movedims ts = Inr (map (\<lambda>t. \<lparr>t_shape = swap01 (t_shape t), t_elem = (\<lambda>ix. t_elem t (swap01 ix))\<rparr>) ts)"
    using sh by (intro movedims_ok) simp
  have "list_all2 (block_first NB rest) cs
      (map (\<lambda>t. \<lparr>t_shape = swap01 (t_shape t), t_elem = (\<lambda>ix. t_elem t (swap01 ix))\<rparr>) ts)"
    using kv by (simp add: list_all2_conv_all_nth kv_first_def block_first_def)
  with d mv assms(3) show "\<exists>ts'. normalize ts num_blocks = Inr ts' \<and> list_all2 (block_first NB rest) cs ts'"
    by (simp add: normalize_def)
next
  assume bf: "list_all2 (block_first NB rest) cs ts" and nb: "num_blocks = None \<or> num_blocks = Some NB"
  from bf assms(3) have "t_shape (hd ts) = NB # 2 # rest"
    by (cases ts) (auto simp: list_all2_Cons2 block_first_def)
  with nb assms show "normalize ts num_blocks = Inr ts"
    by (auto simp: normalize_def detect_def)
qed

subsection \<open>Properties\<close>

text \<open>
  Normalisation gives the block-first view of a KV-first cache: whatever the number \<open>NB\<close> of
  blocks the tensors really hold (it may be padded beyond what the engine reports), unless it is
  2, element (block, K/V, rest) of every normalised layer is the element the engine stored at
  (K/V, block, rest); and a cache that is block-first already is returned as it is.
\<close>

theorem normalize_block_first:
  assumes "length rest = 3" and "NB \<noteq> 2" and "ts \<noteq> []"
  shows "(list_all2 (kv_first NB rest) cs ts \<longrightarrow>
      (\<exists>ts'. normalize ts num_blocks = Inr ts' \<and> list_all2 (block_first NB rest) cs ts'))
    \<and> (list_all2 (block_first NB rest) cs ts \<and> (num_blocks = None \<or> num_blocks = Some NB) \<longrightarrow>
      normalize ts num_blocks = Inr ts)"
  using normalize_layouts [OF assms] by blast

lemma normalize_block_first_witness:
  "\<exists>t'. normalize [\<lparr>t_shape = [2, 5, 1, 1, 1], t_elem = (\<lambda>ix. ix)\<rparr>] (Some 4) = Inr [t']
    \<and> t_shape t' = [5, 2, 1, 1, 1] \<and> t_elem t' [4, 1, 0, 0, 0] = [1, 4, 0, 0, 0]"
proof -
  let ?t = "\<lparr>t_shape = [2, 5, 1, 1, 1], t_elem = (\<lambda>ix. ix)\<rparr> :: nat list tensor"
  let ?c = "\<lambda>b kv ix. kv # b # ix :: nat list"
  have "list_all2 (kv_first 5 [1, 1, 1]) [?c] [?t]" by (simp add: kv_first_def)
  with normalize_block_first [of "[1, 1, 1]" 5 "[?t]" "[?c]" "Some 4"] obtain ts' where
    "normalize [?t] (Some 4) = Inr ts'" "list_all2 (block_first 5 [1, 1, 1]) [?c] ts'" by auto
  then show ?thesis by (auto simp: list_all2_Cons1 block_first_def)
qed

text \<open>
  Two blocks are ambiguous: a KV-first cache of two blocks, although its first dimension is 2, is
  taken for a block-first one when the engine reports two blocks or none at all, and is left
  unnormalised, K and V exchanged with the blocks.
\<close>

theorem two_blocks_are_ambiguous:
  "detect [2, 2, 16, 8, 64] None = Inr FA_BLOCK_FIRST \<and> detect [2, 2, 16, 8, 64] (Some 2) = Inr FA_BLOCK_FIRST
    \<and> normalize [\<lparr>t_shape = [2, 2, 16, 8, 64], t_elem = (\<lambda>ix. ix)\<rparr>] None
      = Inr [\<lparr>t_shape = [2, 2, 16, 8, 64], t_elem = (\<lambda>ix. ix)\<rparr>]"
  by (simp add: detect_def normalize_def)

end
