(* ===== verification/Registration.thy ===== *)
theory Registration
  imports Connector KV_Format "HOL-Library.Char_ord" "HOL-Library.List_Lexorder"
begin

text \<open>
  How a worker announces itself: \<open>register_kv_caches\<close> of \<open>vllm_connector.py\<close> flattens the
  engine's caches, normalises their layout, builds the transfer engine on the views and sends
  REGISTER; \<open>shutdown\<close> takes the announcement back.  A tensor element is its bytes.
\<close>

subsection \<open>From tensors to layers\<close>

datatype cache = Fused "byte list tensor" | Tuple "byte list tensor list"

text \<open>\<open>sorted(kv_caches.items())\<close>: the names are different, so only they are compared.\<close>

definition flatten_caches :: "(string \<times> cache) list \<Rightarrow> byte list tensor list" where
  "flatten_caches caches =
     concat (map (\<lambda>(name, c). case c of Fused t \<Rightarrow> [t] | Tuple ts \<Rightarrow> ts) (sort_key fst caches))"

text \<open>The indices of a shape in row-major order, and the bytes of the blocks of a tensor.\<close>

fun indices :: "nat list \<Rightarrow> nat list list" where
  "indices [] = [[]]"
| "indices (n # ns) = concat (map (\<lambda>i. map ((#) i) (indices ns)) [0..<n])"

definition layer_of :: "nat \<Rightarrow> byte list tensor \<Rightarrow> layer" where
  "layer_of isz t =
     \<lparr>block_bytes = prod_list (tl (t_shape t)) * isz,
      blocks = map (\<lambda>b. concat (map (\<lambda>ix. t_elem t (b # ix)) (indices (tl (t_shape t))))) [0..<hd (t_shape t)]\<rparr>"

subsection \<open>Registration\<close>

text \<open>
  \<open>p n\<close> and \<open>q n\<close> are the uninitialised staging and host buffers of \<open>n\<close> bytes each; \<open>answer\<close>
  is the reply to the blocking call.
\<close>

definition register_kv_caches :: "nat \<Rightarrow> (string \<times> cache) list \<Rightarrow> nat option \<Rightarrow> int \<Rightarrow> (nat \<Rightarrow> pipeline)
    \<Rightarrow> (nat \<Rightarrow> pipeline) \<Rightarrow> unit res \<Rightarrow> connector \<Rightarrow> unit res \<times> connector" where
  "register_kv_caches isz caches num_blocks rank p q answer c =
     (case normalize (flatten_caches caches) num_blocks of
        Inl x \<Rightarrow> (Inl x, c)
      | Inr views \<Rightarrow>
          let kv = map (layer_of isz) views;
              n = length kv * (cn_chunk_size c div cn_block_size c) * block_bytes (hd kv)
          in case KVTransfer kv (cn_block_size c) (cn_chunk_size c) rank (p n) (q n) of
               Inl x \<Rightarrow> (Inl x, c)
             | Inr tr \<Rightarrow>
                 (answer, snd (submit_msg REGISTER_KV_CACHE (P_register
                    \<lparr>rp_instance_id = cn_instance_id c, rp_model = cn_model c, rp_rank = tr_rank tr,
                     rp_world_size = cn_world_size c, rp_block_size = cn_block_size c,
                     rp_chunk_nbytes = chunk_nbytes tr\<rparr>) (c\<lparr>cn_transfer := Some tr\<rparr>))))"

text \<open>\<open>call\<close> without a time-out; the client is closed when it returns.\<close>

definition shutdown :: "unit res \<Rightarrow> connector \<Rightarrow> unit res \<times> connector" where
  "shutdown answer c = (answer, snd (submit_msg UNREGISTER_KV_CACHE (P_instance (cn_instance_id c)) c))"

subsection \<open>Lemmas\<close>

lemma length_indices: "length (indices ns) = prod_list ns"
  by (induction ns) (simp_all add: length_concat comp_def sum_list_triv)

lemma wf_layer_of:
  assumes "\<forall>ix. length (t_elem t ix) = isz"
  shows "wf_layer (block_bytes (layer_of isz t)) (layer_of isz t)"
proof -
  have "length (concat (map (\<lambda>ix. t_elem t (b # ix)) (indices (tl (t_shape t))))) = prod_list (tl (t_shape t)) * isz" for b
    using assms by (subst length_concat_uniform [where n = isz]) (auto simp: length_indices)
  then show ?thesis by (auto simp: wf_layer_def layer_of_def)
qed

lemma movedims_elems:
  "movedims ts = Inr ts' \<Longrightarrow> \<forall>t \<in> set ts. \<forall>ix. length (t_elem t ix) = isz \<Longrightarrow>
   length ts' = length ts \<and> (\<forall>t \<in> set ts'. \<forall>ix. length (t_elem t ix) = isz)"
proof (induction ts arbitrary: ts')
  case Nil
  then show ?case by simp
next
  case (Cons t ts)
  then obtain t1 ts1 where "movedim10 t = Inr t1" "movedims ts = Inr ts1" "ts' = t1 # ts1"
    by (auto split: sum.splits)
  with Cons show ?case by (fastforce simp: movedim10_def split: if_splits)
qed

lemma normalize_elems:
  assumes "normalize ts nb = Inr ts'" and "\<forall>t \<in> set ts. \<forall>ix. length (t_elem t ix) = isz"
  shows "length ts' = length ts \<and> (\<forall>t \<in> set ts'. \<forall>ix. length (t_elem t ix) = isz)"
  using assms(1,2) movedims_elems [OF _ assms(2), of ts']
  by (simp add: normalize_def split: if_splits sum.splits)

lemma KVTransfer_wf:
  assumes "KVTransfer kv bs cs rank p q = Inr tr" and "bs dvd cs" and "0 < cs"
    and "\<forall>la \<in> set kv. wf_layer (block_bytes la) la"
    and "wf_pipe (length kv * (cs div bs) * block_bytes (hd kv)) p"
    and "wf_pipe (length kv * (cs div bs) * block_bytes (hd kv)) q"
  shows "wf_transfer tr \<and> kv_caches tr = kv \<and> tr_rank tr = rank \<and> blocks_per_chunk tr * bs = cs"
proof -
  have tr: "tr = \<lparr>tr_rank = rank, kv_caches = kv, blocks_per_chunk = cs div bs, block_nbytes = block_bytes (hd kv),
      chunk_nbytes = length kv * (cs div bs) * block_bytes (hd kv), d2h = p, h2d = q\<rparr>"
    and same: "list_all (\<lambda>la. block_bytes la = block_bytes (hd kv)) kv"
    using assms(1) by (auto simp: KVTransfer_def Let_def split: if_splits)
  have "0 < cs div bs" using assms(2,3) by (metis dvd_div_eq_0_iff gr0I less_irrefl)
  moreover have "\<forall>la \<in> set kv. wf_layer (block_bytes (hd kv)) la"
  proof
    fix la assume la: "la \<in> set kv"
    with same have eq: "block_bytes la = block_bytes (hd kv)" by (simp add: list_all_iff)
    show "wf_layer (block_bytes (hd kv)) la" using assms(4) la unfolding eq [symmetric] by blast
  qed
  ultimately show ?thesis using assms(2,5,6) by (simp add: tr wf_transfer_def)
qed

subsection \<open>Properties\<close>

text \<open>
  C36. Registration announces the true geometry: when it succeeds the worker has a well-formed transfer
  engine with one layer per tensor, in chunks of as many blocks as a chunk has tokens over the block size, and
  the REGISTER message carries that engine's chunk size in bytes and its rank.
\<close>

theorem registration_announces_geometry:
  assumes "register_kv_caches isz caches nb rank p q answer c = (Inr (), c')"
    and "cn_block_size c dvd cn_chunk_size c" and "0 < cn_chunk_size c"
    and "\<forall>t \<in> set (flatten_caches caches). \<forall>ix. length (t_elem t ix) = isz"
    and "\<forall>n. wf_pipe n (p n) \<and> wf_pipe n (q n)"
  shows "\<exists>tr. cn_transfer c' = Some tr \<and> wf_transfer tr
    \<and> length (kv_caches tr) = length (flatten_caches caches)
    \<and> blocks_per_chunk tr * cn_block_size c = cn_chunk_size c
    \<and> outbox (cn_client c') = outbox (cn_client c) @ [Call (uid_counter (cn_client c)) REGISTER_KV_CACHE
        (P_register \<lparr>rp_instance_id = cn_instance_id c, rp_model = cn_model c, rp_rank = rank,
           rp_world_size = cn_world_size c, rp_block_size = cn_block_size c, rp_chunk_nbytes = chunk_nbytes tr\<rparr>)]"
proof -
  let ?ts = "flatten_caches caches"
  from assms(1) obtain views where v: "normalize ?ts nb = Inr views"
    by (auto simp: register_kv_caches_def split: sum.splits)
  define kv where "kv = map (layer_of isz) views"
  define n where "n = length kv * (cn_chunk_size c div cn_block_size c) * block_bytes (hd kv)"
  from assms(1) v obtain tr where
    tr: "KVTransfer kv (cn_block_size c) (cn_chunk_size c) rank (p n) (q n) = Inr tr"
    by (auto simp: register_kv_caches_def kv_def n_def Let_def split: sum.splits)
  have c': "c' = snd (submit_msg REGISTER_KV_CACHE (P_register
                    \<lparr>rp_instance_id = cn_instance_id c, rp_model = cn_model c, rp_rank = tr_rank tr,
                     rp_world_size = cn_world_size c, rp_block_size = cn_block_size c,
                     rp_chunk_nbytes = chunk_nbytes tr\<rparr>) (c\<lparr>cn_transfer := Some tr\<rparr>))"
    using assms(1) v tr by (simp add: register_kv_caches_def kv_def n_def Let_def)
  note el = normalize_elems [OF v assms(4)]
  have "\<forall>la \<in> set kv. wf_layer (block_bytes la) la" using el wf_layer_of by (auto simp: kv_def)
  from KVTransfer_wf [OF tr assms(2,3) this] assms(5) have
    wf: "wf_transfer tr" "kv_caches tr = kv" "tr_rank tr = rank" "blocks_per_chunk tr * cn_block_size c = cn_chunk_size c"
    by (simp_all add: n_def)
  show ?thesis
    using wf el by (intro exI [of _ tr]) (simp add: c' kv_def submit_msg_def mq_submit_def Let_def)
qed

text \<open>Two tensors of one layer, three blocks of two one-byte elements each.\<close>

definition demo_caches :: "(string \<times> cache) list" where
  "demo_caches = [(''l0'', Tuple [\<lparr>t_shape = [3, 2, 1, 1], t_elem = (\<lambda>ix. [7])\<rparr>,
                               \<lparr>t_shape = [3, 2, 1, 1], t_elem = (\<lambda>ix. [8])\<rparr>])]"

definition demo_buffers :: "nat \<Rightarrow> pipeline" where
  "demo_buffers n = \<lparr>staging = replicate 3 (replicate n 0), cpu_bufs = replicate 3 (replicate n 0)\<rparr>"

definition demo_unregistered :: connector where
  "demo_unregistered = projr (MiniConnector (Inr 2) 1 ''m'' 1 7)"

lemma registration_announces_geometry_witness:
  "\<exists>tr. cn_transfer (snd (register_kv_caches 1 demo_caches None 0 demo_buffers demo_buffers (Inr ()) demo_unregistered))
      = Some tr \<and> wf_transfer tr \<and> length (kv_caches tr) = 2 \<and> blocks_per_chunk tr = 2"
proof -
  let ?r = "register_kv_caches 1 demo_caches None 0 demo_buffers demo_buffers (Inr ()) demo_unregistered"
  have c: "cn_block_size demo_unregistered = 1" "cn_chunk_size demo_unregistered = 2"
    by (simp_all add: demo_unregistered_def MiniConnector_def)
  have f: "flatten_caches demo_caches = [\<lparr>t_shape = [3, 2, 1, 1], t_elem = (\<lambda>ix. [7])\<rparr>,
      \<lparr>t_shape = [3, 2, 1, 1], t_elem = (\<lambda>ix. [8])\<rparr>]" by (simp add: flatten_caches_def demo_caches_def)
  have "fst ?r = Inr ()" by code_simp
  then obtain c' where run: "?r = (Inr (), c')" by (cases ?r) auto
  have "\<forall>n. wf_pipe n (demo_buffers n) \<and> wf_pipe n (demo_buffers n)" by (simp add: wf_pipe_def demo_buffers_def)
  from registration_announces_geometry [OF run _ _ _ this]
  show ?thesis unfolding run snd_conv by (auto simp: c f numeral_2_eq_2)
qed

end
