(* ===== verification/Socket_Loop.thy ===== *)
theory Socket_Loop
  imports Prelude
begin

text \<open>
  \<open>SocketLoop\<close> of \<open>mini_llmcache/mq.py\<close>: senders queue frames and write a byte to a pipe; the
  I/O thread waits for the pipe, reads up to 4096 bytes and flushes the queue.  The threads
  interleave between any two of these actions, so each is a step.  The loop looks at \<open>stopped\<close> before
  it polls only: a loop that \<open>close\<close> wakes out of its poll flushes once more before it leaves.  The
  poll may also return for the socket alone, which ends it without a flush.
\<close>

subsection \<open>State and steps\<close>

datatype 'f sent = Queued 'f | Direct 'f

text \<open>
  \<open>announcing\<close> counts the threads between their \<open>put\<close> (or setting \<open>stopped\<close>) and their
  write to the pipe; \<open>polling\<close> says that the I/O thread is in \<open>poller.poll()\<close>; \<open>submitted\<close> is the
  history of what was put, for the statements.
\<close>

record 'f loop =
  send_queue :: "'f list"
  wake :: nat
  announcing :: nat
  polling :: bool
  flushing :: bool
  stopped :: bool
  exited :: bool
  wire :: "'f sent list"
  submitted :: "'f list"

definition SocketLoop :: "'f loop" where
  "SocketLoop = \<lparr>send_queue = [], wake = 0, announcing = 0, polling = False, flushing = False, stopped = False,
     exited = False, wire = [], submitted = []\<rparr>"

text \<open>The actions: of a sender (two), of \<open>send_now\<close>, of \<open>close\<close>, and of the I/O thread.\<close>

datatype 'f action = Put 'f | Wake | Send_now 'f | Stop | Poll | Read_wake | Recv | Flush_one | Flush_done | Leave

fun enabled :: "'f action \<Rightarrow> 'f loop \<Rightarrow> bool" where
  "enabled (Put f) l = True"
| "enabled Wake l = (0 < announcing l)"
| "enabled (Send_now f) l = True"
| "enabled Stop l = True"
| "enabled Poll l = (\<not> exited l \<and> \<not> polling l \<and> \<not> flushing l \<and> \<not> stopped l)"
| "enabled Read_wake l = (polling l \<and> 0 < wake l)"
| "enabled Recv l = (polling l \<and> wake l = 0)"
| "enabled Flush_one l = (flushing l \<and> send_queue l \<noteq> [])"
| "enabled Flush_done l = (flushing l \<and> send_queue l = [])"
| "enabled Leave l = (\<not> exited l \<and> \<not> polling l \<and> \<not> flushing l \<and> stopped l)"

fun perform :: "'f action \<Rightarrow> 'f loop \<Rightarrow> 'f loop" where
  "perform (Put f) l = l\<lparr>send_queue := send_queue l @ [f], announcing := Suc (announcing l),
     submitted := submitted l @ [f]\<rparr>"
| "perform Wake l = l\<lparr>announcing := announcing l - 1, wake := Suc (wake l)\<rparr>"
| "perform (Send_now f) l = l\<lparr>wire := wire l @ [Direct f]\<rparr>"
| "perform Stop l = l\<lparr>stopped := True, announcing := Suc (announcing l)\<rparr>"
| "perform Poll l = l\<lparr>polling := True\<rparr>"
| "perform Read_wake l = l\<lparr>wake := wake l - min (wake l) 4096, polling := False, flushing := True\<rparr>"
| "perform Recv l = l\<lparr>polling := False\<rparr>"
| "perform Flush_one l = l\<lparr>send_queue := tl (send_queue l), wire := wire l @ [Queued (hd (send_queue l))]\<rparr>"
| "perform Flush_done l = l\<lparr>flushing := False\<rparr>"
| "perform Leave l = l\<lparr>exited := True\<rparr>"

inductive reachable :: "'f loop \<Rightarrow> bool" where
  reach_init: "reachable SocketLoop"
| reach_step: "reachable l \<Longrightarrow> enabled a l \<Longrightarrow> reachable (perform a l)"

text \<open>Nothing is left to do for the senders that started and for the I/O thread, but for messages that arrive.\<close>

definition quiescent :: "'f loop \<Rightarrow> bool" where
  "quiescent l \<longleftrightarrow> \<not> enabled Wake l \<and> \<not> enabled Poll l \<and> \<not> enabled Read_wake l \<and> \<not> enabled Flush_one l \<and> \<not> enabled Flush_done l"

subsection \<open>Invariants\<close>

fun queued :: "'f sent list \<Rightarrow> 'f list" where
  "queued [] = []"
| "queued (Queued f # xs) = f # queued xs"
| "queued (Direct f # xs) = queued xs"

lemma queued_append [simp]: "queued (xs @ ys) = queued xs @ queued ys"
  by (induction xs rule: queued.induct) auto

text \<open>Frames go out in the order they were queued, and a queued frame always has somebody to wake the loop for it.\<close>

definition loop_inv :: "'f loop \<Rightarrow> bool" where
  "loop_inv l \<longleftrightarrow> queued (wire l) @ send_queue l = submitted l
     \<and> (send_queue l \<noteq> [] \<longrightarrow> flushing l \<or> 0 < wake l \<or> 0 < announcing l)"

lemma loop_inv_perform: "loop_inv l \<Longrightarrow> enabled a l \<Longrightarrow> loop_inv (perform a l)"
  by (cases a) (auto simp: loop_inv_def)

lemma loop_inv_reachable: "reachable l \<Longrightarrow> loop_inv l"
proof (induction rule: reachable.induct)
  case reach_init
  then show ?case by (simp add: loop_inv_def SocketLoop_def)
next
  case (reach_step l a)
  then show ?case using loop_inv_perform by blast
qed

subsection \<open>Properties\<close>

text \<open>
  C29. No message is lost or reordered while the loop runs: in every reachable state the queued frames
  on the wire are a prefix of what was submitted, in order; and when the loop has nothing left to
  do and was not stopped, everything submitted is on the wire.
\<close>

theorem no_lost_wakeup:
  assumes "reachable l"
  shows "(\<exists>rest. submitted l = queued (wire l) @ rest)
    \<and> (quiescent l \<and> \<not> stopped l \<and> \<not> exited l \<longrightarrow> queued (wire l) = submitted l)"
proof -
  from loop_inv_reachable [OF assms] have
    inv: "queued (wire l) @ send_queue l = submitted l"
    "send_queue l \<noteq> [] \<longrightarrow> flushing l \<or> 0 < wake l \<or> 0 < announcing l" by (simp_all add: loop_inv_def)
  have "send_queue l = []" if "quiescent l" "\<not> stopped l" "\<not> exited l"
    using inv(2) that by (auto simp: quiescent_def)
  with inv(1) show ?thesis by (metis append_Nil2)
qed

lemma no_lost_wakeup_witness:
  "(let l = fold perform [Put (1 :: nat), Put 2, Wake, Poll, Read_wake, Flush_one, Send_now 9, Flush_one, Flush_done,
      Wake, Poll, Read_wake, Flush_done, Poll] SocketLoop
    in reachable l \<and> wire l = [Queued 1, Direct 9, Queued 2] \<and> queued (wire l) = [1, 2])"
proof -
  define l where "l = fold perform [Put (1 :: nat), Put 2, Wake, Poll, Read_wake, Flush_one, Send_now 9, Flush_one, Flush_done,
      Wake, Poll, Read_wake, Flush_done, Poll] SocketLoop"
  have r: "reachable l"
    unfolding l_def
    by (simp only: fold.simps comp_apply id_apply, (rule reach_step)+, rule reach_init)
      (simp_all add: SocketLoop_def)
  have q: "quiescent l" "\<not> stopped l" "\<not> exited l" "submitted l = [1, 2]" "wire l = [Queued 1, Direct 9, Queued 2]"
    by (simp_all add: l_def SocketLoop_def quiescent_def)
  from no_lost_wakeup [OF r] q r show ?thesis unfolding Let_def l_def [symmetric] by simp
qed

end
