(* ===== verification/Device.thy ===== *)
theory Device
  imports Prelude
begin

text \<open>
  Selection of the accelerator backend (\<open>mini_llmcache/utils/device.py\<close>).  Which backends
  \<open>transformers\<close> reports as available is the parameter \<open>avail\<close>; the torch namespace of a
  backend is its name, and \<open>current\<close> says what \<open>current_device()\<close> of that namespace does.
\<close>

definition get_device_type :: "(string \<Rightarrow> bool) \<Rightarrow> string" where
  "get_device_type avail =
     (if avail ''npu'' then ''npu''
      else if avail ''cuda'' then ''cuda''
      else if avail ''xpu'' then ''xpu''
      else if avail ''mlu'' then ''mlu''
      else if avail ''musa'' then ''musa''
      else if avail ''mps'' then ''mps''
      else ''cpu'')"

text \<open>The namespace whose \<open>set_device\<close> is called.\<close>

definition set_device :: "string \<Rightarrow> string res" where
  "set_device dtype =
     (if dtype \<in> {''npu'', ''cuda'', ''xpu'', ''mlu'', ''musa'', ''mps''} then Inr dtype else Inl ValueError)"

text \<open>
  \<open>lru_cache(maxsize=1)\<close>: the first answer is kept (an exception is not) and returned whatever
  is available later.
\<close>

definition get_device_module :: "(string \<Rightarrow> bool) \<Rightarrow> string option \<Rightarrow> string res \<times> string option" where
  "get_device_module avail cache =
     (case cache of
        Some m \<Rightarrow> (Inr m, cache)
      | None \<Rightarrow>
          let device_type = get_device_type avail in
          if device_type = ''cpu'' then (Inl RuntimeError, None) else (Inr device_type, Some device_type))"

definition is_device_available :: "(string \<Rightarrow> bool) \<Rightarrow> (string \<Rightarrow> nat res) \<Rightarrow> string option \<Rightarrow> bool res \<times> string option" where
  "is_device_available avail current cache =
     (case get_device_module avail cache of
        (Inl x, cache') \<Rightarrow> (if x = RuntimeError \<or> x = AttributeError then Inr False else Inl x, cache')
      | (Inr m, cache') \<Rightarrow>
          (case current m of
             Inr _ \<Rightarrow> (Inr True, cache')
           | Inl x \<Rightarrow> (if x = RuntimeError \<or> x = AttributeError then Inr False else Inl x, cache')))"

subsection \<open>Properties\<close>

text \<open>
  The module that is handed out is usable: whatever is available, the namespace
  \<open>get_device_module\<close> returns is one \<open>set_device\<close> accepts and that was available, the same on every later call,
  and it raises exactly when no accelerator is there, in which case nothing is cached.
\<close>

theorem device_module_usable:
  "(case get_device_module avail None of
      (Inl x, cache) \<Rightarrow> x = RuntimeError \<and> cache = None
        \<and> \<not> (\<exists>d. set_device d = Inr d \<and> avail d)
    | (Inr m, cache) \<Rightarrow> set_device m = Inr m \<and> avail m
        \<and> get_device_module avail' cache = (Inr m, cache))"
  by (auto simp: get_device_module_def get_device_type_def set_device_def Let_def)

end
