(* ===== verification/Benchmarks.thy ===== *)
theory Benchmarks
  imports Prelude "HOL-Library.Sublist"
begin

text \<open>
  The computations of the scripts under \<open>benchmarks\<close> (not the requests they send): percentiles and hit counts of
  \<open>bench.py\<close>, the grouping of \<open>datasets_hf.py\<close>, the speedup of \<open>concurrent_bench.py\<close>, and the plan of
  \<open>sweep.py\<close> with its results file.
\<close>

subsection \<open>Percentiles\<close>

text \<open>\<open>pct\<close>, for \<open>q\<close> between 0 and 1 (a position outside the list raises).\<close>

definition pct :: "rat list \<Rightarrow> rat \<Rightarrow> rat res" where
  "pct values q =
     (if values = [] then Inr 0
      else let ordered = sort values; k = of_nat (length ordered - 1) * q; lo = nat \<lfloor>k\<rfloor>; hi = min (lo + 1) (length ordered - 1)
        in if length ordered \<le> lo then Inl IndexError
           else Inr (ordered ! lo + (ordered ! hi - ordered ! lo) * (k - of_nat lo)))"

lemma between:
  fixes a b x :: rat
  assumes "a \<le> b" and "0 \<le> x" and "x \<le> 1"
  shows "a \<le> a + (b - a) * x \<and> a + (b - a) * x \<le> b"
proof -
  have "0 \<le> (b - a) * x" "(b - a) * x \<le> b - a"
    using assms by (simp_all add: mult_left_le)
  then show ?thesis by simp
qed

lemma pct_bounds:
  assumes "values \<noteq> []" and "0 \<le> q" and "q \<le> 1"
  shows "\<exists>v. pct values q = Inr v \<and> Min (set values) \<le> v \<and> v \<le> Max (set values)"
proof -
  define xs k where "xs = sort values" and "k = of_nat (length xs - 1) * q"
  have ne: "xs \<noteq> []" "sorted xs" "set xs = set values" using assms(1) by (auto simp: xs_def) (metis length_0_conv length_sort)
  have k: "0 \<le> k" "k \<le> of_nat (length xs - 1)" unfolding k_def using assms(2,3) by (auto intro: mult_left_le)
  define lo hi where "lo = nat \<lfloor>k\<rfloor>" and "hi = min (lo + 1) (length xs - 1)"
  have floor: "of_nat lo \<le> k" "k < of_nat lo + 1" using k(1) unfolding lo_def by (auto simp: of_nat_nat) linarith
  have lo: "lo < length xs"
    using floor(1) k(2) ne(1) by (metis diff_less dual_order.strict_trans2 length_greater_0_conv less_one of_nat_le_iff order_trans)
  have hi: "lo \<le> hi" "hi < length xs" using lo unfolding hi_def by auto
  have v: "pct values q = Inr (xs ! lo + (xs ! hi - xs ! lo) * (k - of_nat lo))"
    unfolding pct_def Let_def xs_def [symmetric] k_def [symmetric] lo_def [symmetric] hi_def [symmetric]
    using assms(1) lo by simp
  have "xs ! lo \<le> xs ! hi" using ne(2) hi by (simp add: sorted_iff_nth_mono)
  from between [OF this, of "k - of_nat lo"] floor
  have "xs ! lo \<le> xs ! lo + (xs ! hi - xs ! lo) * (k - of_nat lo)" "xs ! lo + (xs ! hi - xs ! lo) * (k - of_nat lo) \<le> xs ! hi"
    by auto
  moreover have "Min (set values) \<le> xs ! lo" "xs ! hi \<le> Max (set values)"
    using lo hi(2) ne(3) by (metis List.finite_set Min_le nth_mem, metis List.finite_set Max_ge nth_mem)
  ultimately show ?thesis using v by (intro exI conjI) (assumption, linarith+)
qed

subsection \<open>Hits\<close>

text \<open>The counters of \<open>run_exact_repeat\<close>: which tier answered, from the line of the server's log.\<close>

definition count_hit :: "string \<Rightarrow> nat \<times> nat \<Rightarrow> nat \<times> nat" where
  "count_hit hit c =
     (case c of (l1_hits, l2_hits) \<Rightarrow>
        if sublist ''hit L1='' hit then (Suc l1_hits, l2_hits)
        else if sublist ''hit L1=0 L2='' hit then (l1_hits, Suc l2_hits)
        else c)"

text \<open>The second counter never counts: a line with the second text has the first in it.\<close>

lemma l2_hits_never_counted: "snd (fold count_hit hits (a, b)) = b"
proof (induction hits arbitrary: a)
  case (Cons hit hits)
  have "''hit L1=0 L2='' = ''hit L1='' @ ''0 L2=''" by simp
  then have "sublist ''hit L1='' ''hit L1=0 L2=''" by (metis prefixI prefix_imp_sublist)
  then have "sublist ''hit L1=0 L2='' hit \<Longrightarrow> sublist ''hit L1='' hit" using sublist_order.order_trans by blast
  with Cons.IH show ?case by (auto simp: count_hit_def)
qed simp

text \<open>The speedup \<open>concurrent_bench.py\<close> prints: both sides are the same sum.\<close>

definition concurrent_speedup :: "rat list \<Rightarrow> rat res" where
  "concurrent_speedup round_times =
     (let serial_estimate = sum_list round_times
      in if sum_list round_times = 0 then Inl ZeroDivisionError else Inr (serial_estimate / sum_list round_times))"

lemma concurrent_speedup_is_one: "concurrent_speedup ts = Inr v \<Longrightarrow> v = 1"
  by (auto simp: concurrent_speedup_def Let_def split: if_splits)

subsection \<open>Groups\<close>

text \<open>The samples of \<open>load_100\<close>, context by context, and the group number of each.\<close>

definition samples :: "('c \<times> 'q list) list \<Rightarrow> ('c \<times> 'q) list" where
  "samples by_context = concat (map (\<lambda>(c, qs). map (Pair c) (take 5 qs)) (take 20 by_context))"

definition group_ids :: "('c \<times> 'q) list \<Rightarrow> nat list" where
  "group_ids rows = map (\<lambda>gid. gid div 5) [0..<length (take 100 rows)]"

text \<open>With five questions for every context the group is the context; with four for one of them it is not.\<close>

lemma samples_nth:
  assumes "\<forall>(c, qs) \<in> set by_context. 5 \<le> length qs" and "length by_context \<le> 20" and "i < 5 * length by_context"
  shows "length (samples by_context) = 5 * length by_context \<and> fst (samples by_context ! i) = fst (by_context ! (i div 5))"
  using assms
proof (induction by_context arbitrary: i)
  case (Cons cq rest)
  obtain c qs where cq: "cq = (c, qs)" by fastforce
  have q: "5 \<le> length qs" using Cons.prems(1) cq by auto
  have split: "samples (cq # rest) = map (Pair c) (take 5 qs) @ samples rest"
    using Cons.prems(2) by (simp add: samples_def cq)
  have len: "length (samples rest) = 5 * length rest"
  proof (cases rest)
    case Nil
    then show ?thesis by (simp add: samples_def)
  next
    case (Cons a list)
    then show ?thesis using Cons.IH [of 0] Cons.prems by auto
  qed
  show ?case
  proof (cases "i < 5")
    case True
    with q show ?thesis by (simp add: split [unfolded cq] len nth_append cq)
  next
    case False
    then have "i - 5 < 5 * length rest" "i div 5 = Suc ((i - 5) div 5)" using Cons.prems(3) by auto
    with Cons.IH [of "i - 5"] Cons.prems False q show ?thesis by (simp add: split [unfolded cq] len nth_append cq)
  qed
qed simp

lemma groups_are_contexts:
  assumes "\<forall>(c, qs) \<in> set by_context. 5 \<le> length qs" and "length by_context = 20" and "i < 100"
  shows "fst (samples by_context ! i) = fst (by_context ! (group_ids (samples by_context) ! i))"
  using samples_nth [OF assms(1), of i] assms(2,3) by (simp add: group_ids_def)

lemma short_context_shifts_groups:
  "(let rows = samples [(''a'', [1, 2, 3, 4]), (''b'', [1, 2, 3, 4, 5 :: nat])]
    in fst (rows ! 4) = ''b'' \<and> group_ids rows ! 4 = group_ids rows ! 3 \<and> fst (rows ! 3) = ''a'')"
  by (simp add: samples_def group_ids_def upt_rec)

end
