(* ===== verification/Spec2Isabelle.thy ===== *)
theory Spec2Isabelle
  imports Server_Writes Server_Main Server_Locks L2_Service Eviction Store_Laws End_To_End Transfer_Runs Registration Socket_Loop Device Benchmarks
begin

text \<open>
  Verification library of mini-llmcache, a cache server for the key/value (KV) cache of language
  model engines.  All paths are below \<open>src/mini_llmcache\<close> (the benchmarks: \<open>src/benchmarks\<close>).

  \<^bold>\<open>The program and how its parts interact.\<close>  An engine (vLLM) runs a connector
  (\<open>integration/vllm_connector.py\<close>), once in its scheduler and once in every worker.  The
  scheduler side asks the cache server how much of a prompt it has (LOOKUP, then QUERY), decides which token
  ranges to load (RETRIEVE) and to save (STORE), and gives chunks it will not need back
  (FREE_LOOKUP_LOCKS, END_SESSION).  The worker side copies blocks of the KV cache to bytes and back
  (\<open>l0/transfer.py\<close>, after \<open>l0/kv_format.py\<close> has brought the tensors into one layout).  Requests
  and replies travel over \<open>mq.py\<close>.  The server (\<open>server.py\<close>) names chunks by a hash chain over the tokens
  (\<open>utils/hasher.py\<close>) and keeps them in host memory: \<open>l1/manager.py\<close> holds the entries with
  their write locks and read counts, \<open>l1/memory.py\<close> the pool, \<open>l1/eviction.py\<close> frees old entries,
  \<open>l1/store_controller.py\<close> writes finished chunks back to the adapters (\<open>l2/\<close>), and
  \<open>l1/prefetch_controller.py\<close> answers lookups, pulling missing chunks from the adapters and
  holding the hits for the request.

  \<^bold>\<open>Theories.\<close>
  \<^item> \<open>Prelude\<close>: exceptions, results, slices, ordered dictionaries, generic lemmas; \<open>Protocol\<close>:
    \<open>protocol.py\<close>.
  \<^item> \<open>Memory\<close>: the pool allocator; its invariant \<open>pool_inv\<close> and the closed form of \<open>allocate\<close>.
    \<open>Pool_Contract\<close>: the locale \<open>segment_pool\<close>, what a user of an allocator relies on, interpreted on it.
  \<^item> \<open>Lru_Policy\<close>, \<open>L1_Manager\<close>: the policy and the manager, one function per method.
    \<open>L1_Laws\<close>: what each method does to the entries, and the invariant \<open>l1_inv\<close> (entries own disjoint live
    segments).  \<open>L1_Calls\<close>: runs of arbitrary calls.
  \<^item> \<open>Lock_Protocol\<close>: the parties of the lock discipline (handlers, controllers) as a step
    relation on the manager with ghost ownership of holds and write locks; reachability and the invariant.
  \<^item> \<open>Hasher\<close>: \<open>utils/hasher.py\<close>; BLAKE3 is the parameter \<open>H\<close>.
  \<^item> \<open>L2_Adapters\<close>: the file and mock adapters; \<open>L2_Contract\<close>: the locale \<open>l2_backend\<close> (what is found
    and loaded after a store), interpreted on both; file names and crashes.  \<open>L2_Worker\<close>: the task
    queue of \<open>l2/base.py\<close>, refined against running the tasks one by one; \<open>L2_Service\<close>: what the three
    kinds of tasks give behind that queue.
  \<^item> \<open>Storage\<close>: \<open>storage_manager.py\<close> and the states of the listeners; \<open>Eviction\<close>,
    \<open>Store_Controller\<close> and \<open>Prefetch\<close>: one turn of each controller; \<open>Store_Laws\<close> and
    \<open>Prefetch_Laws\<close>: what a turn achieves.
  \<^item> \<open>Server\<close>: the handlers; \<open>Server_Laws\<close>: STORE in detail; \<open>Server_Sessions\<close>: STORE then
    RETRIEVE, LOOKUP then QUERY then RETRIEVE, the callback after the transfer.
  \<^item> \<open>Server_Threads\<close>: the threads of the server (a handler per request, the prefetch worker, the store controller,
    the evictor) as tasks that advance by atomic steps on one shared storage, in any order;
    \<open>Server_Threads_Laws\<close>: every step is matched by steps of \<open>Lock_Protocol\<close> (the simulation \<open>sim\<close>), and unless
    it is one of the named leaking steps every lock stays accounted for (\<open>tight\<close>); \<open>Server_Threads_Runs\<close>: schedules, the
    number of steps a handler has left, and the uninterrupted runs, which are the sequential handlers and turns;
    \<open>Server_Interleavings\<close>: what holds in every interleaving, and where an END_SESSION goes wrong: before a temporary
    chunk is sent, and between the two sections of its own release; \<open>Server_Writes\<close>: the bytes of the pool, which only the writer
    of a chunk changes, so that a STORE publishes its payload.
  \<^item> \<open>Server_Locks\<close>: below that granularity, the mutexes: the sections of the code as sequences of lock operations, the locale
    \<open>lock_order\<close> (sections that respect one order, under which threads never block each other for good), interpreted on them.  The thread that owns the sockets is thread 0; the messages that
    \<open>send()\<close> puts into the queue and \<open>_flush\<close> takes out of it under the send lock are counted, and the look-ups the code makes without a lock
    are actions of their own.
  \<^item> \<open>Server_Main\<close>: \<open>main\<close>, \<open>serve\<close> and \<open>build_l2s\<close>: options, adapter specs, the start of the process.
  \<^item> \<open>MQ\<close>, \<open>MQ_Laws\<close>: client futures, blocking calls with time-outs, and the server's \<open>handle\<close>; \<open>Socket_Loop\<close>: the send queue and its
    wake-up pipe as interleaved actions; \<open>Service\<close>: the request table.
  \<^item> \<open>KV_Format\<close>, \<open>KV_Transfer\<close>: layouts, and the copies between blocks and chunks, one after the other.
    \<open>Transfer_Streams\<close>: the same two methods as calls on streams and events; \<open>Transfer_Schedules\<close>: the contract of a
    two-stream pipeline with three slots, as locales; \<open>Transfer_Runs\<close>: its interpretation on both methods.
  \<^item> \<open>Connector\<close>: the hooks; \<open>Connector_Laws\<close>: the ops over runs of hooks; \<open>Registration\<close>: \<open>register_kv_caches\<close> and
    \<open>shutdown\<close>; \<open>Device\<close>: \<open>utils/device.py\<close>.
  \<^item> \<open>End_To_End\<close>: a KV cache through the connector, the server and back.
  \<^item> \<open>Benchmarks\<close>: the figures the scripts under \<open>benchmarks\<close> compute.

  \<^bold>\<open>How state and effects are modelled.\<close>  Objects are records and methods are functions that
  return a result and the new state; an exception is a value (\<open>Inl\<close>) together with the state
  it leaves behind, as a Python method that raises keeps what it has done.  Everything an
  \<open>L1Manager\<close> method does happens under its lock and is one step.  Handlers and turns of the controllers are
  modelled twice: as functions of the state, for what they compute, and in \<open>Server_Threads\<close> as tasks of
  threads that are interrupted at every lock and between single writes to the pool, for what they do to each other; the two
  are proved equal for a thread that is not interrupted.  Memory is a
  list of bytes, a memory object an offset and a size in it, so that aliasing is visible.  Python integers
  are \<open>int\<close> or, where the code only builds them from lengths, \<open>nat\<close>; floats are rationals.

  \<^bold>\<open>What the lemmas show.\<close>  Safety: no chunk is moved, overwritten or freed under a read hold; a chunk
  being written is invisible; segments never overlap; all of that under every interleaving of the server's threads.
  Without the steps that leak, which are named, no lock outlives its owner.  Function: what every operation returns and leaves on each branch, over
  whole sessions up to the bytes that arrive in the other engine's cache.  Ordering: STORE ops tile a
  request, replies find their futures, a queued frame is never forgotten, no schedule of the device streams
  changes what a transfer copies.  Errors: what the code leaves
  behind when an adapter fails, a payload is too short, a load fails, a request is refused, requests overtake each other or END_SESSION
  meets a lookup that is being published; and what can raise at all in a thread of the server: the tasks that give
  holds back never do.

  \<^bold>\<open>Termination.\<close>  Every function is total: the loops of the code run over lists, and the
  threads' endless loops are modelled turn by turn or step by step, so no fuel is needed; the thread of a request ends
  after \<open>steps_left\<close> of its own steps; runs of the device are bounded by the commands
  of the host (\<open>runs_are_bounded\<close>).  \<open>hex_nat\<close> and \<open>dec_nat\<close> recurse on a quotient.

  \<^bold>\<open>Not modelled.\<close>  Socket options and ZeroMQ, fairness of the scheduler, timing and log lines (but for the
  divisions that can raise), two processes on one file system directory, and what the benchmarks do besides computing
  figures (they drive the server over HTTP).  \<open>from_host\<close> is run on streams that have no kernels of the engine queued,
  although the connector overlaps it with the forward pass of other requests; \<open>to_host\<close> is run behind queued kernels.  Options come parsed, with \<open>--chunk-size\<close> not negative.  \<open>json.loads\<close> is an argument
  that gives dictionaries with each key once.  vLLM, torch, ZeroMQ and BLAKE3 are not part of
  the repository: their answers are arguments.
\<close>

end
